(* ===== verification/Net_Prelude.thy ===== *)
theory Net_Prelude
  imports Main "HOL-Library.Word"
begin

text \<open>
  Shared vocabulary of the development: the types of the C++ code (\<open>size_t\<close>, byte
  strings, 32-bit flag words), the result type of an operation that can end the process or
  be undefined, the reachable states of a step relation, and generic lemmas on lists and
  machine words that the component theories use.
\<close>

section \<open>Types of the source\<close>

type_synonym size_t = "64 word"
type_synonym flags = "32 word"
type_synonym bytes = "char list"
type_synonym errno = int

text \<open>
  The ways an operation does not return a value: \<open>LOG_FATAL\<close> calls \<open>exit(-1)\<close>; calling an
  empty \<open>std::function\<close> throws \<open>std::bad_function_call\<close>; \<open>std::vector\<close> throws
  \<open>std::length_error\<close> beyond its maximal size; destroying a joinable \<open>std::thread\<close> calls
  \<open>std::terminate\<close>, joining one that is not joinable throws \<open>std::system_error\<close>;
  the other constructors are undefined behaviour that the model makes visible instead of giving it
  a value.
\<close>

datatype fault =
    Fatal_exit
  | Bad_function_call
  | Length_error
  | Terminated
  | System_error
  | Out_of_bounds
  | Overlapping_copy
  | Use_after_free
  | Null_dereference
  | Signed_overflow

type_synonym 'a result = "fault + 'a"

section \<open>Collections of rewrite rules\<close>

named_theorems net_defs \<open>definitions unfolded together\<close>
named_theorems net_simps \<open>rewrite rules of the component models\<close>
named_theorems net_inv \<open>preservation of component invariants\<close>

section \<open>Sequencing of results\<close>

definition rbind :: "'a result \<Rightarrow> ('a \<Rightarrow> 'b result) \<Rightarrow> 'b result" where
  "rbind m f = (case m of Inl e \<Rightarrow> Inl e | Inr x \<Rightarrow> f x)"

lemma rbind_simps [simp]:
  "rbind (Inl e) f = Inl e"
  "rbind (Inr x) f = f x"
  by (simp_all add: rbind_def)

lemma rbind_Inr_iff: "rbind m f = Inr y \<longleftrightarrow> (\<exists>x. m = Inr x \<and> f x = Inr y)"
  by (cases m) simp_all

lemma rbindE:
  assumes "rbind m f = Inr y"
  obtains x where "m = Inr x" and "f x = Inr y"
  using assms by (auto simp: rbind_Inr_iff)

lemma rbind_Inl_iff:
  "rbind m f = Inl e \<longleftrightarrow> m = Inl e \<or> (\<exists>x. m = Inr x \<and> f x = Inl e)"
  by (cases m) auto

lemma rbind_assoc: "rbind (rbind m f) g = rbind m (\<lambda>x. rbind (f x) g)"
  by (cases m) simp_all

section \<open>Reachable states of a step relation\<close>

inductive reachable :: "('s \<Rightarrow> bool) \<Rightarrow> ('s \<Rightarrow> 's \<Rightarrow> bool) \<Rightarrow> 's \<Rightarrow> bool"
  for init :: "'s \<Rightarrow> bool" and step :: "'s \<Rightarrow> 's \<Rightarrow> bool" where
  reach_init: "init s \<Longrightarrow> reachable init step s"
| reach_step: "reachable init step s \<Longrightarrow> step s t \<Longrightarrow> reachable init step t"

text \<open>
  The interface of a state machine with an inductive invariant: the component gives the
  initial states, the steps in an environment, what it relies on in the environment, and the
  invariant, and gets the invariant in all reachable states.
\<close>

locale invariant_machine =
  fixes good :: "'k \<Rightarrow> bool"
    and init :: "'s \<Rightarrow> bool"
    and step :: "'k \<Rightarrow> 's \<Rightarrow> 's \<Rightarrow> bool"
    and inv :: "'s \<Rightarrow> bool"
  assumes inv_init: "init s \<Longrightarrow> inv s"
    and inv_step: "good k \<Longrightarrow> inv s \<Longrightarrow> step k s t \<Longrightarrow> inv t"
begin

lemma reachable_inv:
  assumes "good k" and "reachable init (step k) s"
  shows "inv s"
  using assms(2) by (induction rule: reachable.induct) (auto intro: inv_init inv_step [OF assms(1)])

lemma reachable_conseq:
  "good k \<Longrightarrow> reachable init (step k) s \<Longrightarrow> (\<And>t. inv t \<Longrightarrow> P t) \<Longrightarrow> P s"
  using reachable_inv by blast

end

text \<open>A run given step by step, for exhibiting reachable states.\<close>

fun is_run :: "('s \<Rightarrow> 's \<Rightarrow> bool) \<Rightarrow> 's \<Rightarrow> 's list \<Rightarrow> bool" where
  "is_run step s [] = True"
| "is_run step s (t # ts) = (step s t \<and> is_run step t ts)"

lemma reachable_run:
  "reachable init step s \<Longrightarrow> is_run step s ts \<Longrightarrow> t \<in> set (s # ts) \<Longrightarrow> reachable init step t"
proof (induction ts arbitrary: s)
  case (Cons u ts)
  then show ?case by (auto intro: reach_step)
qed simp

text \<open>
  The interface of a part of the system that comes to rest: in the states \<open>ok\<close> every step keeps
  \<open>ok\<close> and decreases a measure, so that the length of a run is bounded.
\<close>

locale settling_machine =
  fixes step :: "'s \<Rightarrow> 's \<Rightarrow> bool"
    and ok :: "'s \<Rightarrow> bool"
    and bound :: "'s \<Rightarrow> nat"
  assumes step_ok: "step s t \<Longrightarrow> ok s \<Longrightarrow> ok t"
    and step_decr: "step s t \<Longrightarrow> ok s \<Longrightarrow> bound t < bound s"
begin

lemma run_ok: "ok s \<Longrightarrow> is_run step s ts \<Longrightarrow> ok (last (s # ts))"
proof (induction ts arbitrary: s)
  case (Cons t ts)
  from Cons.prems have "ok t" "is_run step t ts" by (auto intro: step_ok)
  from Cons.IH [OF this] show ?case by simp
qed simp

lemma run_bound: "ok s \<Longrightarrow> is_run step s ts \<Longrightarrow> length ts \<le> bound s"
proof (induction ts arbitrary: s)
  case (Cons t ts)
  then have "length ts \<le> bound t" "bound t < bound s" using step_ok step_decr by auto
  then show ?case by simp
qed simp

end

section \<open>Bytes in a vector\<close>

text \<open>\<open>overlay xs i ys\<close> writes \<open>ys\<close> into \<open>xs\<close> from index \<open>i\<close> on, leaving the rest.\<close>

definition overlay :: "'a list \<Rightarrow> nat \<Rightarrow> 'a list \<Rightarrow> 'a list" where
  "overlay xs i ys = take i xs @ ys @ drop (i + length ys) xs"

lemma length_overlay [simp]:
  "i + length ys \<le> length xs \<Longrightarrow> length (overlay xs i ys) = length xs"
  by (simp add: overlay_def)

lemma take_overlay [simp]: "n \<le> i \<Longrightarrow> i \<le> length xs \<Longrightarrow> take n (overlay xs i ys) = take n xs"
  by (simp add: overlay_def)

lemma slice_overlay:
  assumes "r \<le> i" and "i + length ys \<le> length xs"
  shows "take (i + length ys - r) (drop r (overlay xs i ys)) = take (i - r) (drop r xs) @ ys"
proof -
  have "drop r (overlay xs i ys) = drop r (take i xs) @ ys @ drop (i + length ys) xs"
    using assms by (simp add: overlay_def)
  moreover have "length (drop r (take i xs)) = i - r"
    using assms by simp
  ultimately show ?thesis
    using assms by (simp add: drop_take)
qed

lemma overlay_Nil [simp]: "i \<le> length xs \<Longrightarrow> overlay xs i [] = xs"
  by (simp add: overlay_def)

section \<open>Machine words read as naturals\<close>

lemma unat_of_nat_size: "n < 2 ^ 64 \<Longrightarrow> unat (of_nat n :: size_t) = n"
  by (simp add: unat_of_nat take_bit_nat_eq_self)

lemma unat_add_size:
  "unat (a :: size_t) + unat b < 2 ^ 64 \<Longrightarrow> unat (a + b) = unat a + unat b"
  using unat_add_lem [of a b] by simp

lemma unat_diff_size: "unat (b :: size_t) \<le> unat a \<Longrightarrow> unat (a - b) = unat a - unat b"
  by (simp add: unat_sub word_le_nat_alt)

lemma unat_size_less [simp]: "unat (a :: size_t) < 2 ^ 64"
  using unsigned_less [of a] by simp

lemma size_eq_zero_iff: "(a :: size_t) = 0 \<longleftrightarrow> unat a = 0"
  by (simp add: unat_eq_zero)

lemmas size_arith = unat_of_nat_size unat_add_size unat_diff_size
  word_less_nat_alt word_le_nat_alt

section \<open>Decimal numbers\<close>

text \<open>What \<open>printf\<close> writes for \<open>%u\<close>, and the number a digit string stands for.\<close>

definition digit_char :: "nat \<Rightarrow> char" where
  "digit_char d = char_of (48 + d)"

fun show_nat :: "nat \<Rightarrow> string" where
  "show_nat n = (if n < 10 then [digit_char n] else show_nat (n div 10) @ [digit_char (n mod 10)])"

declare show_nat.simps [simp del]

definition read_nat :: "string \<Rightarrow> nat" where
  "read_nat = foldl (\<lambda>n c. 10 * n + (of_char c - 48)) 0"

lemma of_digit_char [simp]: "d < 10 \<Longrightarrow> of_char (digit_char d) = 48 + d"
  by (simp add: digit_char_def)

lemma read_show_nat [simp]: "read_nat (show_nat n) = n"
proof (induction n rule: show_nat.induct)
  case (1 n)
  then show ?case
    by (subst show_nat.simps) (auto simp: read_nat_def foldl_append)
qed

lemma show_nat_inj [simp]: "show_nat m = show_nat n \<longleftrightarrow> m = n"
  by (metis read_show_nat)

lemma show_nat_digits: "c \<in> set (show_nat n) \<Longrightarrow> 48 \<le> (of_char c :: nat) \<and> (of_char c :: nat) < 58"
proof (induction n rule: show_nat.induct)
  case (1 n)
  then show ?case
    by (subst (asm) (2) show_nat.simps) (auto split: if_splits)
qed

text \<open>Two strings that agree up to the first occurrence of a separator.\<close>

lemma append_sep_eq:
  "c \<notin> set xs \<Longrightarrow> c \<notin> set ys \<Longrightarrow> xs @ c # us = ys @ c # vs \<longleftrightarrow> xs = ys \<and> us = vs"
proof (induction xs arbitrary: ys)
  case Nil
  then show ?case by (cases ys) auto
next
  case (Cons x xs)
  then show ?case by (cases ys) auto
qed

end
