(* ===== verification/Buffer.thy ===== *)
theory Buffer
  imports Net_Prelude
begin

text \<open>
  The byte buffer of \<open>include/net/Buffer.h\<close> and \<open>src/net/Buffer.cc\<close>: a vector of
  bytes with a read and a write index of type \<open>size_t\<close>, whose arithmetic wraps.
\<close>

section \<open>State\<close>

record Buffer =
  buffer_vec :: bytes
  readerIndex :: size_t
  writerIndex :: size_t

definition kCheapPrepend :: size_t where
  "kCheapPrepend = 8"

definition kInitialSize :: size_t where
  "kInitialSize = 1024"

text \<open>\<open>std::vector<char>::max_size()\<close> on a 64-bit target.\<close>

definition vector_max :: size_t where
  "vector_max = 0x7FFFFFFFFFFFFFFF"

definition vec_size :: "Buffer \<Rightarrow> size_t" where
  "vec_size b = of_nat (length (buffer_vec b))"

definition Buffer_new :: "size_t \<Rightarrow> Buffer result" where
  "Buffer_new initialSize =
     (if vector_max < kCheapPrepend + initialSize then Inl Length_error
      else Inr \<lparr>buffer_vec = replicate (unat (kCheapPrepend + initialSize)) (CHR 0x00),
                readerIndex = kCheapPrepend, writerIndex = kCheapPrepend\<rparr>)"

definition readableBytes :: "Buffer \<Rightarrow> size_t" where
  "readableBytes b = writerIndex b - readerIndex b"

definition writableBytes :: "Buffer \<Rightarrow> size_t" where
  "writableBytes b = vec_size b - writerIndex b"

definition prependableBytes :: "Buffer \<Rightarrow> size_t" where
  "prependableBytes b = readerIndex b"

section \<open>Making space\<close>

definition vec_resize :: "bytes \<Rightarrow> size_t \<Rightarrow> bytes result" where
  "vec_resize xs n =
     (if vector_max < n then Inl Length_error
      else Inr (take (unat n) xs @ replicate (unat n - length xs) (CHR 0x00)))"

text \<open>
  \<open>std::copy\<close> of \<open>n\<close> bytes inside one vector, from index \<open>s\<close> to index \<open>d\<close>, in
  ascending order. Its contract excludes a destination inside the source range.
\<close>

fun copy_loop :: "nat \<Rightarrow> nat \<Rightarrow> nat \<Rightarrow> bytes \<Rightarrow> bytes" where
  "copy_loop 0 s d xs = xs"
| "copy_loop (Suc n) s d xs = copy_loop n (Suc s) (Suc d) (xs[d := xs ! s])"

definition std_copy :: "nat \<Rightarrow> nat \<Rightarrow> nat \<Rightarrow> bytes \<Rightarrow> bytes result" where
  "std_copy s e d xs =
     (if e < s \<or> length xs < e \<or> length xs < d + (e - s) then Inl Out_of_bounds
      else if s \<le> d \<and> d < e then Inl Overlapping_copy
      else Inr (copy_loop (e - s) s d xs))"

definition makeSpace :: "Buffer \<Rightarrow> size_t \<Rightarrow> Buffer result" where
  "makeSpace b len =
     (if writableBytes b + prependableBytes b < len + kCheapPrepend then
        rbind (vec_resize (buffer_vec b) (writerIndex b + len))
          (\<lambda>xs. Inr (b\<lparr>buffer_vec := xs\<rparr>))
      else
        let readable = readableBytes b in
        rbind (std_copy (unat (readerIndex b)) (unat (writerIndex b)) (unat kCheapPrepend)
                 (buffer_vec b))
          (\<lambda>xs. Inr (b\<lparr>buffer_vec := xs, readerIndex := kCheapPrepend,
                       writerIndex := kCheapPrepend + readable\<rparr>)))"

definition ensureWriteableByte :: "Buffer \<Rightarrow> size_t \<Rightarrow> Buffer result" where
  "ensureWriteableByte b len = (if writableBytes b < len then makeSpace b len else Inr b)"

section \<open>Reading\<close>

definition retrieveAll :: "Buffer \<Rightarrow> Buffer" where
  "retrieveAll b = b\<lparr>readerIndex := kCheapPrepend, writerIndex := kCheapPrepend\<rparr>"

definition retrieve :: "Buffer \<Rightarrow> size_t \<Rightarrow> Buffer" where
  "retrieve b len =
     (if len < readableBytes b then b\<lparr>readerIndex := readerIndex b + len\<rparr>
      else retrieveAll b)"

text \<open>A pointer into the buffer is its index; \<open>end - peek()\<close> becomes a \<open>size_t\<close>.\<close>

definition retrieveUntil :: "Buffer \<Rightarrow> size_t \<Rightarrow> Buffer" where
  "retrieveUntil b e = retrieve b (e - readerIndex b)"

definition retrieveAsString :: "Buffer \<Rightarrow> size_t \<Rightarrow> (bytes \<times> Buffer) result" where
  "retrieveAsString b len =
     (if length (buffer_vec b) < unat (readerIndex b) + unat len then Inl Out_of_bounds
      else Inr (take (unat len) (drop (unat (readerIndex b)) (buffer_vec b)), retrieve b len))"

definition retrieveAllAsString :: "Buffer \<Rightarrow> (bytes \<times> Buffer) result" where
  "retrieveAllAsString b = retrieveAsString b (readableBytes b)"

section \<open>Writing\<close>

definition Buffer_append :: "Buffer \<Rightarrow> bytes \<Rightarrow> size_t \<Rightarrow> Buffer result" where
  "Buffer_append b data len =
     rbind (ensureWriteableByte b len)
       (\<lambda>b. if length data < unat len
              \<or> length (buffer_vec b) < unat (writerIndex b) + unat len then Inl Out_of_bounds
            else Inr (b\<lparr>buffer_vec := overlay (buffer_vec b) (unat (writerIndex b))
                                       (take (unat len) data),
                        writerIndex := writerIndex b + len\<rparr>))"

section \<open>Searching a line end\<close>

definition kCRLF :: bytes where
  "kCRLF = [CHR 0x0D, CHR 0x0A]"

text \<open>\<open>std::search\<close>: the first position of the pattern, or the end of the range.\<close>

fun std_search :: "bytes \<Rightarrow> bytes \<Rightarrow> nat" where
  "std_search [] p = 0"
| "std_search (x # xs) p = (if take (length p) (x # xs) = p then 0 else Suc (std_search xs p))"

text \<open>The bytes between \<open>peek()\<close> and \<open>beginwrite()\<close>.\<close>

definition contents :: "Buffer \<Rightarrow> bytes" where
  "contents b = take (unat (readableBytes b)) (drop (unat (readerIndex b)) (buffer_vec b))"

definition findCRLF :: "Buffer \<Rightarrow> size_t option" where
  "findCRLF b =
     (let crlf = readerIndex b + of_nat (std_search (contents b) kCRLF)
      in if crlf = writerIndex b then None else Some crlf)"

section \<open>System calls on the buffer\<close>

text \<open>
  \<open>readv\<close> is given the lengths of its two memory areas and returns an error number or the
  bytes it has stored, filling the first area before the second. \<open>write\<close> is given the bytes
  and returns an error number or how many it has taken.
\<close>

type_synonym readv_fn = "size_t list \<Rightarrow> errno + bytes"
type_synonym write_fn = "bytes \<Rightarrow> errno + nat"

definition extrabuf_size :: size_t where
  "extrabuf_size = 65536"

definition readFd_iov :: "Buffer \<Rightarrow> size_t list" where
  "readFd_iov b =
     (if writableBytes b < extrabuf_size then [writableBytes b, extrabuf_size]
      else [writableBytes b])"

definition readFd :: "readv_fn \<Rightarrow> Buffer \<Rightarrow> (int \<times> errno option \<times> Buffer) result" where
  "readFd readv b =
     (let writable = writableBytes b
      in case readv (readFd_iov b) of
           Inl e \<Rightarrow> Inr (- 1, Some e, b)
         | Inr bs \<Rightarrow>
            let n = (of_nat (length bs) :: size_t);
                b1 = b\<lparr>buffer_vec := overlay (buffer_vec b) (unat (writerIndex b))
                                       (take (unat writable) bs)\<rparr>;
                extrabuf = overlay (replicate (unat extrabuf_size) (CHR 0x00)) 0
                             (drop (unat writable) bs)
            in if n \<le> writable
               then Inr (int (length bs), None, b1\<lparr>writerIndex := writerIndex b1 + n\<rparr>)
               else rbind (Buffer_append (b1\<lparr>writerIndex := vec_size b1\<rparr>) extrabuf (n - writable))
                      (\<lambda>b2. Inr (int (length bs), None, b2)))"

definition writeFd :: "write_fn \<Rightarrow> Buffer \<Rightarrow> int \<times> errno option" where
  "writeFd write b =
     (case write (contents b) of Inl e \<Rightarrow> (- 1, Some e) | Inr n \<Rightarrow> (int n, None))"

section \<open>The buffer invariant\<close>

definition max_bytes :: nat where
  "max_bytes = unat vector_max"

definition Buffer_inv :: "Buffer \<Rightarrow> bool" where
  "Buffer_inv b \<longleftrightarrow>
     unat kCheapPrepend \<le> unat (readerIndex b) \<and>
     unat (readerIndex b) \<le> unat (writerIndex b) \<and>
     unat (writerIndex b) \<le> length (buffer_vec b) \<and>
     length (buffer_vec b) \<le> max_bytes"

lemma unat_constants [simp]:
  "unat kCheapPrepend = 8"
  "unat kInitialSize = 1024"
  "unat vector_max = 9223372036854775807"
  "unat extrabuf_size = 65536"
  by (simp_all add: kCheapPrepend_def kInitialSize_def vector_max_def extrabuf_size_def)

lemma max_bytes_val: "max_bytes = 9223372036854775807"
  by (simp add: max_bytes_def)

lemma Buffer_invD:
  assumes "Buffer_inv b"
  shows "8 \<le> unat (readerIndex b)"
    and "unat (readerIndex b) \<le> unat (writerIndex b)"
    and "unat (writerIndex b) \<le> length (buffer_vec b)"
    and "length (buffer_vec b) \<le> 9223372036854775807"
  using assms by (simp_all add: Buffer_inv_def max_bytes_val)

lemma unat_vec_size [net_simps]: "Buffer_inv b \<Longrightarrow> unat (vec_size b) = length (buffer_vec b)"
  by (simp add: vec_size_def Buffer_inv_def max_bytes_val size_arith)

lemma unat_readable [net_simps]:
  "Buffer_inv b \<Longrightarrow> unat (readableBytes b) = unat (writerIndex b) - unat (readerIndex b)"
  by (simp add: readableBytes_def Buffer_inv_def max_bytes_val size_arith)

lemma unat_writable [net_simps]:
  "Buffer_inv b \<Longrightarrow> unat (writableBytes b) = length (buffer_vec b) - unat (writerIndex b)"
  using unat_vec_size [of b] by (simp add: writableBytes_def Buffer_inv_def max_bytes_val size_arith)

lemma contents_slice:
  "Buffer_inv b \<Longrightarrow> contents b =
     take (unat (writerIndex b) - unat (readerIndex b)) (drop (unat (readerIndex b)) (buffer_vec b))"
  by (simp add: contents_def unat_readable)

lemma length_contents [net_simps]: "Buffer_inv b \<Longrightarrow> length (contents b) = unat (readableBytes b)"
  by (auto simp: contents_slice unat_readable dest: Buffer_invD)

lemma readable_eq_0_iff [net_simps]: "Buffer_inv b \<Longrightarrow> readableBytes b = 0 \<longleftrightarrow> contents b = []"
  using length_contents [of b] by (auto simp: size_eq_zero_iff)

lemma Buffer_new_inv: "Buffer_new n = Inr b \<Longrightarrow> n \<le> vector_max \<Longrightarrow> Buffer_inv b \<and> contents b = []"
  by (auto simp: Buffer_new_def Buffer_inv_def max_bytes_val contents_def readableBytes_def size_arith
      not_less split: if_splits)

section \<open>Copying inside the vector\<close>

lemma copy_loop_overlay:
  "d < s \<Longrightarrow> s + n \<le> length xs \<Longrightarrow> copy_loop n s d xs = overlay xs d (take n (drop s xs))"
proof (induction n arbitrary: s d xs)
  case 0
  then show ?case by (simp add: overlay_def)
next
  case (Suc n)
  let ?ys = "xs[d := xs ! s]"
  have "copy_loop n (Suc s) (Suc d) ?ys = overlay ?ys (Suc d) (take n (drop (Suc s) ?ys))"
    using Suc.prems by (intro Suc.IH) simp_all
  also have "\<dots> = take d xs @ (xs ! s # take n (drop (Suc s) xs)) @ drop (Suc d + n) xs"
    using Suc.prems by (simp add: overlay_def take_Suc_conv_app_nth)
  also have "xs ! s # take n (drop (Suc s) xs) = take (Suc n) (drop s xs)"
    using Suc.prems by (simp add: take_Suc_Cons Cons_nth_drop_Suc [symmetric])
  finally show ?case
    using Suc.prems by (simp add: overlay_def)
qed

lemma std_copy_down:
  assumes "d < s" and "s \<le> e" and "e \<le> length xs"
  shows "std_copy s e d xs = Inr (overlay xs d (take (e - s) (drop s xs)))"
  using assms copy_loop_overlay [of d s "e - s" xs] by (simp add: std_copy_def)

lemma take_overlay_all: "i + length ys \<le> length xs \<Longrightarrow> take (length ys) (drop i (overlay xs i ys)) = ys"
  by (simp add: overlay_def)

section \<open>Making space keeps the data\<close>

lemma grow_iff:
  assumes "Buffer_inv b" and "len \<le> vector_max"
  shows "writableBytes b + prependableBytes b < len + kCheapPrepend \<longleftrightarrow>
    (length (buffer_vec b) - unat (writerIndex b)) + unat (readerIndex b) < unat len + 8"
proof -
  note inv = Buffer_invD [OF assms(1)]
  have "unat (writableBytes b + prependableBytes b) =
      (length (buffer_vec b) - unat (writerIndex b)) + unat (readerIndex b)"
    using inv by (simp add: unat_add_size unat_writable [OF assms(1)] prependableBytes_def)
  moreover have "unat (len + kCheapPrepend) = unat len + 8"
    using assms(2) by (simp add: unat_add_size word_le_nat_alt)
  ultimately show ?thesis by (simp add: word_less_nat_alt)
qed

lemma makeSpace_grow:
  assumes "Buffer_inv b" and "len \<le> vector_max"
    and "writableBytes b + prependableBytes b < len + kCheapPrepend"
    and "writableBytes b < len"
  shows "makeSpace b len =
    (if max_bytes < unat (writerIndex b) + unat len then Inl Length_error
     else Inr (b\<lparr>buffer_vec := buffer_vec b
         @ replicate (unat (writerIndex b) + unat len - length (buffer_vec b)) (CHR 0x00)\<rparr>))"
proof -
  note inv = Buffer_invD [OF assms(1)]
  have sum: "unat (writerIndex b + len) = unat (writerIndex b) + unat len"
    using inv assms(2) by (simp add: unat_add_size word_le_nat_alt)
  have "length (buffer_vec b) < unat (writerIndex b) + unat len"
    using assms(4) inv by (simp add: word_less_nat_alt unat_writable [OF assms(1)])
  then show ?thesis
    using assms(3) by (simp add: makeSpace_def vec_resize_def word_less_nat_alt sum max_bytes_val)
qed

lemma makeSpace_move:
  assumes "Buffer_inv b" and "len \<le> vector_max"
    and "\<not> writableBytes b + prependableBytes b < len + kCheapPrepend"
    and "writableBytes b < len"
  shows "makeSpace b len =
    Inr (b\<lparr>buffer_vec := overlay (buffer_vec b) 8 (contents b), readerIndex := kCheapPrepend,
          writerIndex := kCheapPrepend + readableBytes b\<rparr>)"
proof -
  note inv = Buffer_invD [OF assms(1)]
  have "8 < unat (readerIndex b)"
    using assms(3) [unfolded grow_iff [OF assms(1,2)]] assms(4) inv
    by (simp add: word_less_nat_alt unat_writable [OF assms(1)])
  then have "std_copy (unat (readerIndex b)) (unat (writerIndex b)) 8 (buffer_vec b)
      = Inr (overlay (buffer_vec b) 8 (contents b))"
    using inv by (simp add: std_copy_down contents_slice [OF assms(1)])
  then show ?thesis
    using assms(3) by (simp add: makeSpace_def Let_def)
qed

text \<open>What a caller of \<open>makeSpace\<close> needs: room for \<open>len\<close> bytes and the same data.\<close>

lemma makeSpace_post:
  assumes "Buffer_inv b" and "len \<le> vector_max" and "writableBytes b < len"
    and "makeSpace b len = Inr b'"
  shows "Buffer_inv b'" and "contents b' = contents b" and "len \<le> writableBytes b'"
proof -
  note inv = Buffer_invD [OF assms(1)]
  have all: "Buffer_inv b' \<and> contents b' = contents b \<and> len \<le> writableBytes b'"
  proof (cases "writableBytes b + prependableBytes b < len + kCheapPrepend")
    case True
    have b': "b' = b\<lparr>buffer_vec := buffer_vec b
         @ replicate (unat (writerIndex b) + unat len - length (buffer_vec b)) (CHR 0x00)\<rparr>"
      and le: "unat (writerIndex b) + unat len \<le> max_bytes"
      using assms(4) makeSpace_grow [OF assms(1,2) True assms(3)] by (auto split: if_splits)
    have inv': "Buffer_inv b'"
      using inv le by (auto simp: b' Buffer_inv_def max_bytes_val)
    moreover have "contents b' = contents b"
      using inv by (simp add: contents_slice [OF inv'] contents_slice [OF assms(1)])
        (simp add: b')
    moreover have "len \<le> writableBytes b'"
      by (simp add: word_le_nat_alt unat_writable [OF inv']) (simp add: b')
    ultimately show ?thesis by blast
  next
    case False
    have b': "b' = b\<lparr>buffer_vec := overlay (buffer_vec b) 8 (contents b),
        readerIndex := kCheapPrepend, writerIndex := kCheapPrepend + readableBytes b\<rparr>"
      using assms(4) makeSpace_move [OF assms(1,2) False assms(3)] by simp
    have len: "length (contents b) = unat (readableBytes b)"
      by (rule length_contents [OF assms(1)])
    have fit: "8 + length (contents b) \<le> length (buffer_vec b)"
      using inv by (simp add: len unat_readable [OF assms(1)])
    have w: "unat (kCheapPrepend + readableBytes b) = 8 + length (contents b)"
      using fit inv by (simp add: unat_add_size len)
    have inv': "Buffer_inv b'"
      using inv fit w by (simp add: b' Buffer_inv_def max_bytes_val)
    moreover have "contents b' = contents b"
      using take_overlay_all [OF fit]
      by (simp add: contents_slice [OF inv']) (simp add: b' w)
    moreover have "len \<le> writableBytes b'"
    proof -
      have "unat len + 8 \<le> length (buffer_vec b) - unat (writerIndex b) + unat (readerIndex b)"
        using False by (simp add: grow_iff [OF assms(1,2)])
      then have "unat len \<le> length (buffer_vec b) - (8 + length (contents b))"
        using inv by (simp add: len unat_readable [OF assms(1)])
      then show ?thesis
        using fit by (simp add: word_le_nat_alt unat_writable [OF inv']) (simp add: b' w)
    qed
    ultimately show ?thesis by blast
  qed
  from all show "Buffer_inv b'" "contents b' = contents b" "len \<le> writableBytes b'" by blast+
qed

section \<open>Laws of the operations\<close>

lemma ensure_post:
  assumes "Buffer_inv b" and "len \<le> vector_max" and "ensureWriteableByte b len = Inr b'"
  shows "Buffer_inv b' \<and> contents b' = contents b \<and> len \<le> writableBytes b'"
  using assms makeSpace_post [OF assms(1,2)]
  by (auto simp: ensureWriteableByte_def not_less split: if_splits)

lemma ensure_fault:
  assumes "Buffer_inv b" and "len \<le> vector_max" and "ensureWriteableByte b len = Inl e"
  shows "e = Length_error \<and> max_bytes < unat (writerIndex b) + unat len"
proof -
  have lt: "writableBytes b < len" and ms: "makeSpace b len = Inl e"
    using assms(3) by (auto simp: ensureWriteableByte_def split: if_splits)
  show ?thesis
    using ms makeSpace_move [OF assms(1,2) _ lt] makeSpace_grow [OF assms(1,2) _ lt]
    by (cases "writableBytes b + prependableBytes b < len + kCheapPrepend")
      (auto split: if_splits)
qed

lemma append_post:
  assumes "Buffer_inv b" and "len \<le> vector_max" and "unat len \<le> length data"
    and "Buffer_append b data len = Inr b'"
  shows "Buffer_inv b' \<and> contents b' = contents b @ take (unat len) data"
proof -
  from assms(4) obtain c where c: "ensureWriteableByte b len = Inr c"
    and b': "b' = c\<lparr>buffer_vec := overlay (buffer_vec c) (unat (writerIndex c))
        (take (unat len) data), writerIndex := writerIndex c + len\<rparr>"
    by (auto simp: Buffer_append_def rbind_Inr_iff split: if_splits)
  from ensure_post [OF assms(1,2) c] have inv: "Buffer_inv c"
    and same: "contents c = contents b" and room: "len \<le> writableBytes c" by auto
  note invc = Buffer_invD [OF inv]
  have fit: "unat (writerIndex c) + unat len \<le> length (buffer_vec c)"
    using room invc by (simp add: word_le_nat_alt unat_writable [OF inv])
  have w: "unat (writerIndex c + len) = unat (writerIndex c) + unat len"
    using fit invc by (simp add: unat_add_size)
  have inv': "Buffer_inv b'"
    using invc fit w assms(3) by (simp add: b' Buffer_inv_def max_bytes_val min_absorb2)
  moreover have "contents b' = contents c @ take (unat len) data"
    using invc fit assms(3)
      slice_overlay [of "unat (readerIndex c)" "unat (writerIndex c)" "take (unat len) data"
        "buffer_vec c"]
    by (simp add: contents_slice [OF inv'] contents_slice [OF inv])
      (simp add: b' w min_absorb2)
  ultimately show ?thesis by (simp add: same)
qed

lemma append_fault:
  assumes "Buffer_inv b" and "len \<le> vector_max" and "unat len \<le> length data"
    and "Buffer_append b data len = Inl e"
  shows "e = Length_error \<and> max_bytes < unat (writerIndex b) + unat len"
proof -
  consider (ens) "ensureWriteableByte b len = Inl e"
    | (copy) c where "ensureWriteableByte b len = Inr c"
        "length (buffer_vec c) < unat (writerIndex c) + unat len"
    using assms(3,4) by (auto simp: Buffer_append_def rbind_Inl_iff split: if_splits)
  then show ?thesis
  proof cases
    case ens
    then show ?thesis by (rule ensure_fault [OF assms(1,2)])
  next
    case (copy c)
    from ensure_post [OF assms(1,2) copy(1)] have "Buffer_inv c" "len \<le> writableBytes c" by auto
    with copy(2) Buffer_invD [OF \<open>Buffer_inv c\<close>] show ?thesis
      by (simp add: word_le_nat_alt unat_writable)
  qed
qed

lemma retrieveAll_post [net_simps]:
  "Buffer_inv b \<Longrightarrow> Buffer_inv (retrieveAll b)"
  "contents (retrieveAll b) = []"
  by (auto simp: retrieveAll_def Buffer_inv_def max_bytes_val contents_def readableBytes_def)

lemma retrieve_post:
  assumes "Buffer_inv b"
  shows "Buffer_inv (retrieve b len) \<and> contents (retrieve b len) = drop (unat len) (contents b)"
proof (cases "len < readableBytes b")
  case True
  note inv = Buffer_invD [OF assms]
  have lt: "unat len < unat (writerIndex b) - unat (readerIndex b)"
    using True by (simp add: word_less_nat_alt unat_readable [OF assms])
  have r: "unat (readerIndex b + len) = unat (readerIndex b) + unat len"
    using lt inv by (simp add: unat_add_size)
  have inv': "Buffer_inv (retrieve b len)"
    using True inv lt r by (simp add: retrieve_def Buffer_inv_def max_bytes_val)
  then show ?thesis
    using lt by (simp add: contents_slice [OF inv'] contents_slice [OF assms])
      (simp add: retrieve_def True r drop_take add.commute [of "unat len"])
next
  case False
  then have "length (contents b) \<le> unat len"
    by (simp add: length_contents [OF assms] word_less_nat_alt)
  with False show ?thesis
    by (simp add: retrieve_def retrieveAll_post assms)
qed

lemma retrieveUntil_post:
  assumes "Buffer_inv b" and "readerIndex b \<le> e"
  shows "Buffer_inv (retrieveUntil b e) \<and>
    contents (retrieveUntil b e) = drop (unat e - unat (readerIndex b)) (contents b)"
  using retrieve_post [OF assms(1), of "e - readerIndex b"] assms(2)
  by (simp add: retrieveUntil_def unat_diff_size word_le_nat_alt)

lemma retrieveAsString_post:
  assumes "Buffer_inv b" and "len \<le> readableBytes b"
  shows "retrieveAsString b len = Inr (take (unat len) (contents b), retrieve b len)"
proof -
  note inv = Buffer_invD [OF assms(1)]
  have "unat len \<le> unat (writerIndex b) - unat (readerIndex b)"
    using assms(2) by (simp add: word_le_nat_alt unat_readable [OF assms(1)])
  then show ?thesis
    using inv by (simp add: retrieveAsString_def contents_slice [OF assms(1)] min_absorb1)
qed

lemma makeSpace_length:
  assumes "Buffer_inv b" and "len \<le> vector_max" and "writableBytes b < len"
    and "makeSpace b len = Inr b'"
  shows "length (buffer_vec b') \<le> length (buffer_vec b) + unat len"
proof (cases "writableBytes b + prependableBytes b < len + kCheapPrepend")
  case True
  note inv = Buffer_invD [OF assms(1)]
  show ?thesis
    using assms(4) makeSpace_grow [OF assms(1,2) True assms(3)] inv by (auto split: if_splits)
next
  case False
  note inv = Buffer_invD [OF assms(1)]
  have "8 + length (contents b) \<le> length (buffer_vec b)"
    using inv by (simp add: length_contents [OF assms(1)] unat_readable [OF assms(1)])
  then show ?thesis
    using assms(4) makeSpace_move [OF assms(1,2) False assms(3)] by auto
qed

text \<open>How many more bytes the vector can be grown by.\<close>

definition vec_room :: "Buffer \<Rightarrow> nat" where
  "vec_room b = max_bytes - length (buffer_vec b)"

lemma append_total:
  assumes "Buffer_inv b" and "length xs \<le> vec_room b"
  shows "\<exists>b'. Buffer_append b xs (of_nat (length xs)) = Inr b' \<and>
    vec_room b - length xs \<le> vec_room b'"
proof -
  note inv = Buffer_invD [OF assms(1)]
  let ?n = "of_nat (length xs) :: size_t"
  have n: "unat ?n = length xs" and le: "?n \<le> vector_max"
    using assms(2) by (simp_all add: vec_room_def size_arith max_bytes_val)
  have fits: "\<not> max_bytes < unat (writerIndex b) + unat ?n"
    using assms(2) inv n by (simp add: vec_room_def max_bytes_val)
  then obtain b' where b': "Buffer_append b xs ?n = Inr b'"
    using append_fault [OF assms(1) le, of xs] n by (cases "Buffer_append b xs ?n") auto
  then obtain c where c: "ensureWriteableByte b ?n = Inr c"
    and bc: "length (buffer_vec b') = length (buffer_vec c)"
    by (auto simp: Buffer_append_def rbind_Inr_iff n split: if_splits)
  have "length (buffer_vec c) \<le> length (buffer_vec b) + length xs"
    using c makeSpace_length [OF assms(1) le] n
    by (auto simp: ensureWriteableByte_def split: if_splits)
  with b' bc show ?thesis by (auto simp: vec_room_def)
qed

lemma room_kept [net_simps]:
  "vec_room (retrieve b n) = vec_room b" "vec_room (retrieveAll b) = vec_room b"
  by (simp_all add: vec_room_def retrieve_def retrieveAll_def)

section \<open>The interface of a byte queue\<close>

text \<open>
  What the connection relies on when it buffers output and input: an abstraction to the
  queued bytes, and put and take operations that act on it as on a first-in first-out queue.
  \<open>put\<close> may refuse, and then only because the vector would exceed its maximal size;
  \<open>room\<close> bounds from below how much can be put without that.
\<close>

datatype queue_op = Put bytes | Take size_t | Clear

fun run_queue ::
  "('q \<Rightarrow> bytes \<Rightarrow> size_t \<Rightarrow> 'q result) \<Rightarrow> ('q \<Rightarrow> size_t \<Rightarrow> 'q) \<Rightarrow> ('q \<Rightarrow> 'q) \<Rightarrow>
     'q \<Rightarrow> queue_op list \<Rightarrow> 'q result" where
  "run_queue put tk cl q [] = Inr q"
| "run_queue put tk cl q (Put xs # ops) =
     rbind (put q xs (of_nat (length xs))) (\<lambda>q. run_queue put tk cl q ops)"
| "run_queue put tk cl q (Take n # ops) = run_queue put tk cl (tk q n) ops"
| "run_queue put tk cl q (Clear # ops) = run_queue put tk cl (cl q) ops"

text \<open>The specification: the same operations on a plain list of bytes.\<close>

fun run_fifo :: "bytes \<Rightarrow> queue_op list \<Rightarrow> bytes" where
  "run_fifo xs [] = xs"
| "run_fifo xs (Put ys # ops) = run_fifo (xs @ ys) ops"
| "run_fifo xs (Take n # ops) = run_fifo (drop (unat n) xs) ops"
| "run_fifo xs (Clear # ops) = run_fifo [] ops"

definition sized_ops :: "queue_op list \<Rightarrow> bool" where
  "sized_ops ops = list_all (\<lambda>op. case op of Put xs \<Rightarrow> length xs \<le> max_bytes | _ \<Rightarrow> True) ops"

definition put_total :: "queue_op list \<Rightarrow> nat" where
  "put_total ops = sum_list (map (\<lambda>op. case op of Put xs \<Rightarrow> length xs | _ \<Rightarrow> 0) ops)"

locale byte_queue =
  fixes invar :: "'q \<Rightarrow> bool"
    and content :: "'q \<Rightarrow> bytes"
    and room :: "'q \<Rightarrow> nat"
    and avail :: "'q \<Rightarrow> size_t"
    and put :: "'q \<Rightarrow> bytes \<Rightarrow> size_t \<Rightarrow> 'q result"
    and tk :: "'q \<Rightarrow> size_t \<Rightarrow> 'q"
    and cl :: "'q \<Rightarrow> 'q"
  assumes avail_content: "invar q \<Longrightarrow> unat (avail q) = length (content q)"
    and put_content: "invar q \<Longrightarrow> length xs \<le> max_bytes \<Longrightarrow>
      put q xs (of_nat (length xs)) = Inr q' \<Longrightarrow> invar q' \<and> content q' = content q @ xs"
    and put_fault: "invar q \<Longrightarrow> length xs \<le> max_bytes \<Longrightarrow>
      put q xs (of_nat (length xs)) = Inl e \<Longrightarrow> e = Length_error"
    and put_room: "invar q \<Longrightarrow> length xs \<le> room q \<Longrightarrow>
      \<exists>q'. put q xs (of_nat (length xs)) = Inr q' \<and> room q - length xs \<le> room q'"
    and room_max: "room q \<le> max_bytes"
    and room_rest: "room (tk q n) = room q" "room (cl q) = room q"
    and take_content: "invar q \<Longrightarrow> invar (tk q n) \<and> content (tk q n) = drop (unat n) (content q)"
    and clear_content: "invar q \<Longrightarrow> invar (cl q) \<and> content (cl q) = []"
begin

lemma avail_zero_iff: "invar q \<Longrightarrow> avail q = 0 \<longleftrightarrow> content q = []"
  using avail_content [of q] by (auto simp: size_eq_zero_iff)

lemma run_queue_fifo:
  "invar q \<Longrightarrow> sized_ops ops \<Longrightarrow>
     (case run_queue put tk cl q ops of
        Inl e \<Rightarrow> e = Length_error
      | Inr q' \<Rightarrow> invar q' \<and> content q' = run_fifo (content q) ops)"
proof (induction ops arbitrary: q)
  case Nil
  then show ?case by simp
next
  case (Cons op ops)
  show ?case
  proof (cases op)
    case (Put xs)
    show ?thesis
    proof (cases "put q xs (of_nat (length xs))")
      case (Inl e)
      with Cons.prems Put put_fault [of q xs e] show ?thesis by (simp add: sized_ops_def)
    next
      case (Inr q')
      with Cons.prems Put put_content [of q xs q'] Cons.IH [of q'] show ?thesis
        by (simp add: sized_ops_def split: sum.splits)
    qed
  next
    case (Take n)
    with Cons.prems Cons.IH [of "tk q n"] take_content [of q n] show ?thesis
      by (simp add: sized_ops_def split: sum.splits)
  next
    case Clear
    with Cons.prems Cons.IH [of "cl q"] clear_content [of q] show ?thesis
      by (simp add: sized_ops_def split: sum.splits)
  qed
qed

lemma run_queue_total:
  "invar q \<Longrightarrow> put_total ops \<le> room q \<Longrightarrow>
     \<exists>q'. run_queue put tk cl q ops = Inr q' \<and> invar q' \<and> content q' = run_fifo (content q) ops"
proof (induction ops arbitrary: q)
  case Nil
  then show ?case by simp
next
  case (Cons op ops)
  show ?case
  proof (cases op)
    case (Put xs)
    have fits: "length xs \<le> room q" and rest: "put_total ops \<le> room q - length xs"
      using Cons.prems(2) Put by (simp_all add: put_total_def)
    obtain q' where q': "put q xs (of_nat (length xs)) = Inr q'" "room q - length xs \<le> room q'"
      using put_room [OF Cons.prems(1) fits] by blast
    have "invar q' \<and> content q' = content q @ xs"
      using put_content [OF Cons.prems(1) _ q'(1)] fits room_max [of q] by simp
    with q' rest Cons.IH [of q'] Put show ?thesis by simp
  next
    case (Take n)
    with Cons.prems Cons.IH [of "tk q n"] take_content [of q n] room_rest(1) [of q n]
    show ?thesis by (simp add: put_total_def)
  next
    case Clear
    with Cons.prems Cons.IH [of "cl q"] clear_content [of q] room_rest(2) [of q]
    show ?thesis by (simp add: put_total_def)
  qed
qed

end

lemma size_len: "length xs \<le> max_bytes \<Longrightarrow>
    (of_nat (length xs) :: size_t) \<le> vector_max \<and> unat (of_nat (length xs) :: size_t) = length xs"
  by (simp add: size_arith max_bytes_val)

interpretation bq: byte_queue Buffer_inv contents vec_room readableBytes Buffer_append
  retrieve retrieveAll
proof unfold_locales
  fix q q' :: Buffer and xs e n
  show "Buffer_inv q \<Longrightarrow> unat (readableBytes q) = length (contents q)"
    by (simp add: length_contents)
  show "Buffer_inv q \<Longrightarrow> length xs \<le> max_bytes \<Longrightarrow>
      Buffer_append q xs (of_nat (length xs)) = Inr q' \<Longrightarrow>
      Buffer_inv q' \<and> contents q' = contents q @ xs"
    using append_post [of q "of_nat (length xs)" xs q'] size_len [of xs] by simp
  show "Buffer_inv q \<Longrightarrow> length xs \<le> max_bytes \<Longrightarrow>
      Buffer_append q xs (of_nat (length xs)) = Inl e \<Longrightarrow> e = Length_error"
    using append_fault [of q "of_nat (length xs)" xs e] size_len [of xs] by simp
  show "Buffer_inv q \<Longrightarrow> length xs \<le> vec_room q \<Longrightarrow>
      \<exists>q'. Buffer_append q xs (of_nat (length xs)) = Inr q' \<and>
        vec_room q - length xs \<le> vec_room q'"
    by (rule append_total)
  show "vec_room q \<le> max_bytes" by (simp add: vec_room_def)
  show "vec_room (retrieve q n) = vec_room q" "vec_room (retrieveAll q) = vec_room q"
    by (simp_all add: room_kept)
  show "Buffer_inv q \<Longrightarrow> Buffer_inv (retrieve q n) \<and>
      contents (retrieve q n) = drop (unat n) (contents q)"
    by (rule retrieve_post)
  show "Buffer_inv q \<Longrightarrow> Buffer_inv (retrieveAll q) \<and> contents (retrieveAll q) = []"
    by (simp add: retrieveAll_post)
qed

section \<open>Searching\<close>

lemma std_search_le: "std_search xs p \<le> length xs"
  by (induction xs) auto

lemma std_search_found:
  "std_search xs p < length xs \<Longrightarrow> take (length p) (drop (std_search xs p) xs) = p"
  by (induction xs) (auto split: if_splits)

lemma std_search_first: "j < std_search xs p \<Longrightarrow> take (length p) (drop j xs) \<noteq> p"
proof (induction xs arbitrary: j)
  case (Cons x xs)
  then show ?case by (cases j) (auto split: if_splits)
qed simp

lemma std_search_none: "std_search xs p = length xs \<Longrightarrow> p \<noteq> [] \<Longrightarrow> xs \<noteq> us @ p @ vs"
  using std_search_first [of "length us" xs p] by auto

lemma findCRLF_eq:
  assumes "Buffer_inv b"
  shows "findCRLF b =
    (if std_search (contents b) kCRLF = length (contents b) then None
     else Some (readerIndex b + of_nat (std_search (contents b) kCRLF)))"
proof -
  note inv = Buffer_invD [OF assms]
  let ?k = "std_search (contents b) kCRLF"
  have len: "length (contents b) = unat (writerIndex b) - unat (readerIndex b)"
    by (simp add: length_contents [OF assms] unat_readable [OF assms])
  have "unat (of_nat ?k :: size_t) = ?k"
    using std_search_le [of "contents b" kCRLF] inv len by (simp add: unat_of_nat_size)
  then have "unat (readerIndex b + of_nat ?k) = unat (readerIndex b) + ?k"
    using std_search_le [of "contents b" kCRLF] inv len by (simp add: unat_add_size)
  then have "readerIndex b + of_nat ?k = writerIndex b \<longleftrightarrow> ?k = length (contents b)"
    using len inv by (auto simp: word_unat_eq_iff)
  then show ?thesis by (simp add: findCRLF_def Let_def)
qed

lemma findCRLF_split:
  assumes "Buffer_inv b" and "findCRLF b = Some i"
  shows "\<exists>line rest. contents b = line @ kCRLF @ rest \<and>
    unat i = unat (readerIndex b) + length line \<and>
    (\<forall>j < length line. take 2 (drop j (contents b)) \<noteq> kCRLF)"
proof -
  let ?xs = "contents b" and ?k = "std_search (contents b) kCRLF"
  note inv = Buffer_invD [OF assms(1)]
  have two: "length kCRLF = 2" by (simp add: kCRLF_def)
  have lt: "?k < length ?xs" and i: "i = readerIndex b + of_nat ?k"
    using assms(2) std_search_le [of ?xs kCRLF]
    by (auto simp: findCRLF_eq [OF assms(1)] split: if_splits)
  have "unat i = unat (readerIndex b) + ?k"
    using lt inv by (simp add: i length_contents unat_readable assms(1) unat_add_size
        unat_of_nat_size)
  moreover have "?xs = take ?k ?xs @ kCRLF @ drop (?k + 2) ?xs"
    using std_search_found [OF lt] append_take_drop_id [of 2 "drop ?k ?xs"]
    by (metis append_take_drop_id drop_drop add.commute two)
  moreover have "\<forall>j < ?k. take 2 (drop j ?xs) \<noteq> kCRLF"
    using std_search_first [of _ ?xs kCRLF] two by auto
  ultimately show ?thesis
    using lt by (intro exI [of _ "take ?k ?xs"] exI [of _ "drop (?k + 2) ?xs"]) simp
qed

section \<open>Receiving\<close>

text \<open>
  What POSIX says of \<open>readv\<close>: it stores at most as many bytes as the areas hold.
\<close>

definition readv_doc :: "readv_fn \<Rightarrow> bool" where
  "readv_doc readv \<longleftrightarrow>
     (\<forall>iov bs. readv iov = Inr bs \<longrightarrow> length bs \<le> sum_list (map unat iov))"

lemma readFd_error: "readv (readFd_iov b) = Inl e \<Longrightarrow> readFd readv b = Inr (- 1, Some e, b)"
  by (simp add: readFd_def)

lemma readFd_received:
  assumes inv: "Buffer_inv b" and doc: "readv_doc readv"
    and room: "65536 \<le> vec_room b \<or> readFd readv b \<noteq> Inl Length_error"
    and bs: "readv (readFd_iov b) = Inr bs"
  shows "\<exists>b'. readFd readv b = Inr (int (length bs), None, b') \<and> Buffer_inv b' \<and>
    contents b' = contents b @ bs"
proof -
  let ?wr = "writableBytes b"
  note I = Buffer_invD [OF inv]
  have cap: "length bs \<le> sum_list (map unat (readFd_iov b))"
    using doc bs by (auto simp: readv_doc_def)
  have wr: "unat ?wr = length (buffer_vec b) - unat (writerIndex b)"
    by (rule unat_writable [OF inv])
  have small: "length bs \<le> unat ?wr + 65536"
    using cap by (auto simp: readFd_iov_def split: if_splits)
  have nb: "unat (of_nat (length bs) :: size_t) = length bs"
    using small wr I by (simp add: unat_of_nat_size)
  let ?b1 = "b\<lparr>buffer_vec := overlay (buffer_vec b) (unat (writerIndex b)) (take (unat ?wr) bs)\<rparr>"
  have len1: "length (buffer_vec ?b1) = length (buffer_vec b)"
  proof -
    have "unat (writerIndex b) + length (take (unat ?wr) bs) \<le> length (buffer_vec b)"
      using I wr by (auto simp: min_def)
    then show ?thesis using length_overlay by simp
  qed
  show ?thesis
  proof (cases "length bs \<le> unat ?wr")
    case True
    then have le: "(of_nat (length bs) :: size_t) \<le> ?wr"
      by (simp add: word_le_nat_alt nb)
    let ?c = "?b1\<lparr>writerIndex := writerIndex b + of_nat (length bs)\<rparr>"
    have ret: "readFd readv b = Inr (int (length bs), None, ?c)"
      using le by (simp add: readFd_def Let_def bs)
    have w: "unat (writerIndex b + of_nat (length bs)) = unat (writerIndex b) + length bs"
      using True wr I nb by (simp add: unat_add_size)
    have invc: "Buffer_inv ?c"
      using I True w wr len1 by (simp add: Buffer_inv_def max_bytes_val)
    have "contents ?c = contents b @ bs"
      unfolding contents_slice [OF invc] contents_slice [OF inv]
      using slice_overlay [of "unat (readerIndex b)" "unat (writerIndex b)" bs "buffer_vec b"]
        True wr I by (simp add: w)
    with invc ret show ?thesis by blast
  next
    case False
    then have gt: "\<not> (of_nat (length bs) :: size_t) \<le> ?wr"
      by (simp add: word_le_nat_alt nb)
    let ?m = "of_nat (length bs) - ?wr :: size_t"
    let ?ex = "overlay (replicate (unat extrabuf_size) (CHR 0x00)) 0 (drop (unat ?wr) bs)"
    let ?c = "?b1\<lparr>writerIndex := vec_size ?b1\<rparr>"
    have m: "unat ?m = length bs - unat ?wr"
      using False nb by (simp add: unat_diff_size)
    have vs: "unat (vec_size ?b1) = length (buffer_vec b)"
      using I len1 by (simp add: vec_size_def unat_of_nat_size)
    have invc: "Buffer_inv ?c"
      using I vs len1 by (simp add: Buffer_inv_def max_bytes_val)
    have m_ok: "?m \<le> vector_max" "unat ?m \<le> length ?ex"
      using small m by (simp_all add: word_le_nat_alt overlay_def)
    have "\<not> max_bytes < unat (writerIndex ?c) + unat ?m" if "65536 \<le> vec_room b"
      using that small m vs by (simp add: vec_room_def)
    moreover have "readFd readv b = rbind (Buffer_append ?c ?ex ?m)
        (\<lambda>b2. Inr (int (length bs), None, b2))"
      using gt by (simp add: readFd_def Let_def bs)
    ultimately obtain b2 where ap: "Buffer_append ?c ?ex ?m = Inr b2"
      using append_fault [OF invc m_ok] room by (cases "Buffer_append ?c ?ex ?m") auto
    have ret: "readFd readv b = Inr (int (length bs), None, b2)"
      using gt ap by (simp add: readFd_def Let_def bs)
    have "contents ?c = contents b @ take (unat ?wr) bs"
      unfolding contents_slice [OF invc] contents_slice [OF inv]
      using slice_overlay [of "unat (readerIndex b)" "unat (writerIndex b)"
          "take (unat ?wr) bs" "buffer_vec b"] False wr I vs by simp
    moreover have "take (unat ?m) ?ex = drop (unat ?wr) bs"
      using small m by (simp add: overlay_def)
    ultimately have "Buffer_inv b2 \<and> contents b2 = contents b @ bs"
      using append_post [OF invc m_ok ap] by simp
    with ret show ?thesis by blast
  qed
qed

lemma readFd_inv:
  assumes "Buffer_inv b" and "readv_doc readv" and "readFd readv b = Inr (n, err, b')"
  shows "Buffer_inv b'"
proof (cases "readv (readFd_iov b)")
  case (Inl e)
  with readFd_error [of readv b e] assms show ?thesis by simp
next
  case (Inr bs)
  from readFd_received [OF assms(1,2) _ Inr] assms(3) show ?thesis by auto
qed

lemma readFd_fault:
  assumes "Buffer_inv b" and "readv_doc readv" and "readFd readv b = Inl e"
  shows "e = Length_error"
proof (cases "readv (readFd_iov b)")
  case (Inl e')
  with readFd_error [of readv b e'] assms(3) show ?thesis by simp
next
  case (Inr bs)
  from readFd_received [OF assms(1,2) _ Inr] assms(3) show ?thesis by (cases "e = Length_error") auto
qed

section \<open>Properties\<close>

text \<open>A small buffer for the witnesses: two bytes of space after the prepend area.\<close>

definition tiny_buffer :: Buffer where
  "tiny_buffer = \<lparr>buffer_vec = replicate 10 (CHR 0x00), readerIndex = 8, writerIndex = 8\<rparr>"

lemma tiny_buffer_facts:
  "Buffer_inv tiny_buffer" "contents tiny_buffer = []"
  "vec_room tiny_buffer = 9223372036854775797"
  by (simp_all add: tiny_buffer_def Buffer_inv_def max_bytes_val contents_def readableBytes_def
      vec_room_def)

text \<open>
  C6: Any sequence of appends, retrieves and clears on a well-formed buffer returns, as long as
  the vector may grow by the bytes appended, keeps the buffer well formed, and leaves exactly
  the bytes that the same sequence leaves in a first-in first-out queue.
\<close>

theorem buffer_refines_fifo:
  assumes "Buffer_inv b" and "put_total ops \<le> vec_room b"
  shows "\<exists>b'. run_queue Buffer_append retrieve retrieveAll b ops = Inr b' \<and> Buffer_inv b' \<and>
    contents b' = run_fifo (contents b) ops"
  using assms by (rule bq.run_queue_total)

theorem buffer_refines_fifo_witness:
  "\<exists>b'. run_queue Buffer_append retrieve retrieveAll tiny_buffer
      [Put ''abc'', Take 1, Put ''de''] = Inr b' \<and> contents b' = ''bcde''"
  using buffer_refines_fifo [of tiny_buffer "[Put ''abc'', Take 1, Put ''de'']"]
  by (auto simp: tiny_buffer_facts put_total_def)

text \<open>
  C24: \<open>ensureWriteableByte\<close>, asked for at most \<open>max_size()\<close> bytes, either throws
  \<open>std::length_error\<close>, and then the vector would really have to exceed its maximal size, or
  leaves at least \<open>len\<close> writable bytes with the readable bytes unchanged, whether it
  resizes the vector or moves the data to the front. In particular the copy never overlaps.
\<close>

theorem ensure_gives_room:
  assumes "Buffer_inv b" and "len \<le> vector_max"
  shows "case ensureWriteableByte b len of
      Inl e \<Rightarrow> e = Length_error \<and> max_bytes < unat (writerIndex b) + unat len
    | Inr b' \<Rightarrow> Buffer_inv b' \<and> contents b' = contents b \<and> len \<le> writableBytes b'"
  using ensure_post [OF assms] ensure_fault [OF assms]
  by (cases "ensureWriteableByte b len") auto

theorem ensure_gives_room_witness:
  "case ensureWriteableByte tiny_buffer 5 of
      Inl e \<Rightarrow> False | Inr b' \<Rightarrow> contents b' = [] \<and> 5 \<le> writableBytes b'"
  using ensure_gives_room [of tiny_buffer 5]
  by (simp add: tiny_buffer_facts vector_max_def split: sum.splits)
    (simp add: tiny_buffer_def max_bytes_val)

text \<open>
  The size computation of \<open>makeSpace\<close> wraps: asked for one of the eight largest values
  of \<open>size_t\<close>, \<open>ensureWriteableByte\<close> returns normally without the room it was asked for,
  or copies a range onto itself, which the contract of \<open>std::copy\<close> excludes; it never
  reports the impossible request.
\<close>

theorem ensure_request_wraps:
  assumes "Buffer_inv b" and "2 ^ 64 - 8 \<le> unat len"
  shows "case ensureWriteableByte b len of
      Inl e \<Rightarrow> e = Overlapping_copy | Inr b' \<Rightarrow> writableBytes b' < len"
proof -
  note inv = Buffer_invD [OF assms(1)]
  have wr: "unat (writableBytes b) = length (buffer_vec b) - unat (writerIndex b)"
    by (rule unat_writable [OF assms(1)])
  have lt: "writableBytes b < len"
    using assms(2) wr inv by (simp add: word_less_nat_alt)
  have "unat (len + kCheapPrepend) = (unat len + 8) mod 2 ^ 64"
    by (simp add: unat_word_ariths)
  then have "unat (len + kCheapPrepend) < 8"
    using assms(2) unat_size_less [of len] by (simp add: mod_if) arith
  moreover have "8 \<le> unat (writableBytes b + prependableBytes b)"
    using inv wr by (simp add: unat_add_size prependableBytes_def)
  ultimately have go: "\<not> writableBytes b + prependableBytes b < len + kCheapPrepend"
    by (simp add: word_less_nat_alt)
  show ?thesis
  proof (cases "unat (readerIndex b) = 8 \<and> 8 < unat (writerIndex b)")
    case True
    then have "ensureWriteableByte b len = Inl Overlapping_copy"
      using lt go inv by (simp add: ensureWriteableByte_def makeSpace_def std_copy_def Let_def)
    then show ?thesis by simp
  next
    case False
    have len: "length (contents b) = unat (writerIndex b) - unat (readerIndex b)"
      by (simp add: length_contents [OF assms(1)] unat_readable [OF assms(1)])
    have fit: "8 + length (contents b) \<le> length (buffer_vec b)"
      using inv len by simp
    have "\<exists>xs. std_copy (unat (readerIndex b)) (unat (writerIndex b)) 8 (buffer_vec b) = Inr xs
        \<and> length xs = length (buffer_vec b)"
    proof (cases "unat (readerIndex b) = 8")
      case True
      with False inv show ?thesis by (simp add: std_copy_def)
    next
      case False
      with inv show ?thesis
        using std_copy_down [of 8 "unat (readerIndex b)" "unat (writerIndex b)" "buffer_vec b"]
        by simp
    qed
    then obtain xs where xs: "length xs = length (buffer_vec b)"
      and e: "ensureWriteableByte b len =
        Inr (b\<lparr>buffer_vec := xs, readerIndex := kCheapPrepend,
          writerIndex := kCheapPrepend + readableBytes b\<rparr>)"
      using lt go by (auto simp: ensureWriteableByte_def makeSpace_def Let_def)
    have "unat (kCheapPrepend + readableBytes b) = 8 + length (contents b)"
      using inv by (simp add: unat_add_size len unat_readable [OF assms(1)])
    then have "unat (of_nat (length xs) - (kCheapPrepend + readableBytes b)) \<le> length xs"
      using xs fit inv by (simp add: unat_diff_size unat_of_nat_size)
    then have "of_nat (length xs) - (kCheapPrepend + readableBytes b) < len"
      using xs inv assms(2) by (simp add: word_less_nat_alt)
    with e show ?thesis by (simp add: writableBytes_def vec_size_def)
  qed
qed

theorem ensure_request_wraps_witness:
  "case ensureWriteableByte tiny_buffer 18446744073709551615 of
      Inl e \<Rightarrow> e = Overlapping_copy
    | Inr b' \<Rightarrow> writableBytes b' < 18446744073709551615"
  using ensure_request_wraps [of tiny_buffer 18446744073709551615]
  by (simp add: tiny_buffer_facts)

text \<open>
  C23: When \<open>readv\<close> delivers bytes, \<open>readFd\<close> returns their number and appends exactly these
  bytes, in order, to the readable ones, also when they overflow into the stack buffer and the
  vector has to grow or shift; when it fails, \<open>readFd\<close> returns -1 with the error number and
  the buffer is as before.
\<close>

theorem readFd_appends_received:
  assumes "Buffer_inv b" and "readv_doc readv" and "65536 \<le> vec_room b"
  shows "case readv (readFd_iov b) of
      Inl e \<Rightarrow> readFd readv b = Inr (- 1, Some e, b)
    | Inr bs \<Rightarrow> \<exists>b'. readFd readv b = Inr (int (length bs), None, b') \<and> Buffer_inv b' \<and>
        contents b' = contents b @ bs"
  using readFd_received [OF assms(1,2) disjI1 [OF assms(3)]] readFd_error [of readv b]
  by (cases "readv (readFd_iov b)") auto

theorem readFd_appends_received_witness:
  "\<exists>b'. readFd (\<lambda>iov. if sum_list (map unat iov) < 5 then Inl 11 else Inr ''hello'') tiny_buffer
      = Inr (5, None, b') \<and> contents b' = ''hello''"
proof -
  let ?r = "\<lambda>iov. if sum_list (map unat iov) < 5 then Inl 11 else Inr ''hello''"
  have doc: "readv_doc ?r" by (auto simp: readv_doc_def split: if_splits)
  have "65536 \<le> vec_room tiny_buffer" by (simp add: tiny_buffer_facts)
  from readFd_appends_received [OF tiny_buffer_facts(1) doc this] show ?thesis
    by (auto simp: readFd_iov_def writableBytes_def vec_size_def tiny_buffer_def
        extrabuf_size_def tiny_buffer_facts(2) [unfolded tiny_buffer_def])
qed

text \<open>
  \<open>findCRLF\<close> answers with the end of the first complete line: the bytes before the
  position hold no earlier line end, and after \<open>retrieveUntil\<close> of that position the buffer
  starts with the line end; it answers \<open>NULL\<close> exactly when no line end is readable.
\<close>

theorem find_crlf_line:
  assumes "Buffer_inv b"
  shows "case findCRLF b of
      None \<Rightarrow> \<forall>us vs. contents b \<noteq> us @ kCRLF @ vs
    | Some i \<Rightarrow> \<exists>line rest. contents b = line @ kCRLF @ rest \<and>
        (\<forall>us vs. contents b = us @ kCRLF @ vs \<longrightarrow> length line \<le> length us) \<and>
        contents (retrieveUntil b i) = kCRLF @ rest"
proof (cases "findCRLF b")
  case None
  then show ?thesis
    using std_search_none [of "contents b" kCRLF]
    by (auto simp: findCRLF_eq [OF assms] kCRLF_def split: if_splits)
next
  case (Some i)
  from findCRLF_split [OF assms Some] obtain line rest where
    split: "contents b = line @ kCRLF @ rest"
    and i: "unat i = unat (readerIndex b) + length line"
    and fst: "\<forall>j < length line. take 2 (drop j (contents b)) \<noteq> kCRLF" by blast
  have "length line \<le> length us" if "contents b = us @ kCRLF @ vs" for us vs
  proof (rule ccontr)
    assume "\<not> length line \<le> length us"
    with fst have "take 2 (drop (length us) (contents b)) \<noteq> kCRLF" by auto
    with that show False by (simp add: kCRLF_def)
  qed
  moreover have "contents (retrieveUntil b i) = kCRLF @ rest"
    using retrieveUntil_post [OF assms, of i] i split by (simp add: word_le_nat_alt)
  ultimately show ?thesis using Some split by auto
qed

definition request_buffer :: Buffer where
  "request_buffer = \<lparr>buffer_vec = replicate 8 (CHR 0x00) @ ''GET'' @ kCRLF @ ''rest'',
    readerIndex = 8, writerIndex = 17\<rparr>"

theorem find_crlf_line_witness:
  "case findCRLF request_buffer of
      None \<Rightarrow> False
    | Some i \<Rightarrow> i = 11 \<and> (\<exists>line rest. contents request_buffer = line @ kCRLF @ rest \<and>
        contents (retrieveUntil request_buffer i) = kCRLF @ rest)"
proof -
  have inv: "Buffer_inv request_buffer"
    by (simp add: request_buffer_def Buffer_inv_def max_bytes_val kCRLF_def)
  have f: "findCRLF request_buffer = Some 11"
    by (simp add: request_buffer_def findCRLF_def contents_def readableBytes_def kCRLF_def)
  from find_crlf_line [OF inv] show ?thesis by (auto simp: f)
qed

text \<open>
  What is appended to a well-formed buffer comes back, after the bytes that were already
  there, from \<open>retrieveAllAsString\<close>, which leaves the buffer empty and well formed.
\<close>

theorem append_retrieve_roundtrip:
  assumes "Buffer_inv b" and "length xs \<le> vec_room b"
  shows "\<exists>b' b''. Buffer_append b xs (of_nat (length xs)) = Inr b' \<and>
    retrieveAllAsString b' = Inr (contents b @ xs, b'') \<and> Buffer_inv b'' \<and> contents b'' = []"
proof -
  from bq.put_room [OF assms] obtain b' where
    b': "Buffer_append b xs (of_nat (length xs)) = Inr b'" by blast
  have "length xs \<le> max_bytes" using assms(2) by (simp add: vec_room_def)
  with bq.put_content [OF assms(1) _ b'] have inv: "Buffer_inv b'"
    and c: "contents b' = contents b @ xs" by auto
  have "retrieveAllAsString b' = Inr (contents b', retrieve b' (readableBytes b'))"
    using retrieveAsString_post [OF inv] length_contents [OF inv]
    by (simp add: retrieveAllAsString_def)
  with b' c retrieve_post [OF inv] length_contents [OF inv] show ?thesis by simp
qed

theorem append_retrieve_roundtrip_witness:
  "\<exists>b' b''. Buffer_append tiny_buffer ''netsocket'' 9 = Inr b' \<and>
    retrieveAllAsString b' = Inr (''netsocket'', b'')"
  using append_retrieve_roundtrip [of tiny_buffer "''netsocket''"]
  by (auto simp: tiny_buffer_facts)

text \<open>
  \<open>retrieveAsString\<close> does not check its argument against the readable bytes: asked for
  more, it either reads beyond the vector or returns a string that is longer than the readable
  data, so that its tail is bytes that were never received, and empties the buffer.
\<close>

theorem retrieveAsString_overrun:
  assumes "Buffer_inv b" and "readableBytes b < len"
  shows "case retrieveAsString b len of
      Inl e \<Rightarrow> e = Out_of_bounds
    | Inr (s, b') \<Rightarrow> length s = unat len \<and> length (contents b) < length s \<and>
        take (length (contents b)) s = contents b \<and> contents b' = []"
proof -
  have lt: "length (contents b) < unat len"
    using assms by (simp add: length_contents word_less_nat_alt)
  have "contents (retrieve b len) = []"
    using retrieve_post [OF assms(1), of len] lt by simp
  then show ?thesis
    using lt contents_slice [OF assms(1)] length_contents [OF assms(1)] unat_readable [OF assms(1)]
    by (auto simp: retrieveAsString_def min_absorb1)
qed

theorem retrieveAsString_overrun_witness:
  "case retrieveAsString tiny_buffer 2 of
      Inl e \<Rightarrow> False | Inr (s, b') \<Rightarrow> length s = 2 \<and> contents tiny_buffer = []"
proof -
  have "readableBytes tiny_buffer < 2" by (simp add: tiny_buffer_def readableBytes_def)
  from retrieveAsString_overrun [OF tiny_buffer_facts(1) this] show ?thesis
    by (simp add: retrieveAsString_def tiny_buffer_facts)
      (simp add: tiny_buffer_def)
qed

end
