(* ===== verification/Channel.thy ===== *)
theory Channel
  imports Net_Prelude
begin

unbundle bit_operations_syntax

text \<open>
  The class of \<open>include/net/Channel.h\<close> and \<open>src/net/Channel.cc\<close>: a file descriptor with
  the events it is interested in, the events that \<open>epoll\<close> reported, its state in the poller and
  its callbacks. The bound \<open>std::function\<close> objects are values of a type parameter; what a
  callback does to the program is a parameter of \<open>handleEvent\<close>.
\<close>

section \<open>Event masks\<close>

definition EPOLLIN :: flags where "EPOLLIN = 0x001"
definition EPOLLPRI :: flags where "EPOLLPRI = 0x002"
definition EPOLLOUT :: flags where "EPOLLOUT = 0x004"
definition EPOLLERR :: flags where "EPOLLERR = 0x008"
definition EPOLLHUP :: flags where "EPOLLHUP = 0x010"
definition EPOLLRDHUP :: flags where "EPOLLRDHUP = 0x2000"

lemmas epoll_flags = EPOLLIN_def EPOLLPRI_def EPOLLOUT_def EPOLLERR_def EPOLLHUP_def
  EPOLLRDHUP_def

definition kNoneEvent :: flags where
  "kNoneEvent = 0"

definition kReadEvent :: flags where
  "kReadEvent = EPOLLIN OR EPOLLPRI"

definition kWriteEvent :: flags where
  "kWriteEvent = EPOLLOUT"

section \<open>State\<close>

type_synonym timestamp = "64 word"

text \<open>
  The tie is a weak pointer to an object, given by its number; the owner loop is given by its
  number too.
\<close>

record 'cb channel =
  ch_loop :: nat
  ch_fd :: int
  ch_events :: flags
  ch_revents :: flags
  ch_index :: int
  ch_tie :: "nat option"
  ch_tied :: bool
  readCallback :: "'cb option"
  writeCallback :: "'cb option"
  closeCallback :: "'cb option"
  errorCallback :: "'cb option"

definition Channel_new :: "nat \<Rightarrow> int \<Rightarrow> 'cb channel" where
  "Channel_new loop fd =
     \<lparr>ch_loop = loop, ch_fd = fd, ch_events = 0, ch_revents = 0, ch_index = - 1, ch_tie = None,
      ch_tied = False, readCallback = None, writeCallback = None, closeCallback = None,
      errorCallback = None\<rparr>"

definition Channel_tie :: "nat \<Rightarrow> 'cb channel \<Rightarrow> 'cb channel" where
  "Channel_tie obj ch = ch\<lparr>ch_tie := Some obj, ch_tied := True\<rparr>"

definition setReadCallback :: "'cb \<Rightarrow> 'cb channel \<Rightarrow> 'cb channel" where
  "setReadCallback cb ch = ch\<lparr>readCallback := Some cb\<rparr>"

definition setWriteCallback :: "'cb \<Rightarrow> 'cb channel \<Rightarrow> 'cb channel" where
  "setWriteCallback cb ch = ch\<lparr>writeCallback := Some cb\<rparr>"

definition setCloseCallback :: "'cb \<Rightarrow> 'cb channel \<Rightarrow> 'cb channel" where
  "setCloseCallback cb ch = ch\<lparr>closeCallback := Some cb\<rparr>"

definition setErrorCallback :: "'cb \<Rightarrow> 'cb channel \<Rightarrow> 'cb channel" where
  "setErrorCallback cb ch = ch\<lparr>errorCallback := Some cb\<rparr>"

definition Channel_fd :: "'cb channel \<Rightarrow> int" where
  "Channel_fd ch = ch_fd ch"

definition Channel_getEvents :: "'cb channel \<Rightarrow> flags" where
  "Channel_getEvents ch = ch_events ch"

definition Channel_index :: "'cb channel \<Rightarrow> int" where
  "Channel_index ch = ch_index ch"

definition set_index :: "int \<Rightarrow> 'cb channel \<Rightarrow> 'cb channel" where
  "set_index idex ch = ch\<lparr>ch_index := idex\<rparr>"

definition OwnerLoop :: "'cb channel \<Rightarrow> nat" where
  "OwnerLoop ch = ch_loop ch"

text \<open>A new channel has its loop and descriptor, is new to the poller and asks for nothing.\<close>

lemma Channel_new_get:
  "OwnerLoop (Channel_new loop fd) = loop" "Channel_fd (Channel_new loop fd) = fd"
  "Channel_getEvents (Channel_new loop fd) = kNoneEvent" "Channel_index (Channel_new loop fd) = - 1"
  "Channel_index (set_index i ch) = i" "Channel_fd (set_index i ch) = Channel_fd ch"
  by (simp_all add: Channel_new_def OwnerLoop_def Channel_fd_def Channel_getEvents_def
      Channel_index_def set_index_def kNoneEvent_def)

definition set_revents :: "flags \<Rightarrow> 'cb channel \<Rightarrow> 'cb channel" where
  "set_revents revt ch = ch\<lparr>ch_revents := revt\<rparr>"

definition isNoneEvent :: "'cb channel \<Rightarrow> bool" where
  "isNoneEvent ch \<longleftrightarrow> ch_events ch = kNoneEvent"

definition isWriting :: "'cb channel \<Rightarrow> bool" where
  "isWriting ch \<longleftrightarrow> ch_events ch AND kWriteEvent \<noteq> 0"

definition isReading :: "'cb channel \<Rightarrow> bool" where
  "isReading ch \<longleftrightarrow> ch_events ch AND kReadEvent \<noteq> 0"

section \<open>Changing the interest set\<close>

text \<open>
  \<open>Channel::update\<close> and \<open>Channel::remove\<close> go through the owner loop to its poller; the
  poller's operation \<open>upd\<close> takes the channel and the poller and returns both, changed.
\<close>

definition enableReading ::
  "('cb channel \<Rightarrow> 'p \<Rightarrow> ('cb channel \<times> 'p) result) \<Rightarrow> 'cb channel \<Rightarrow> 'p \<Rightarrow>
     ('cb channel \<times> 'p) result" where
  "enableReading upd ch p = upd (ch\<lparr>ch_events := ch_events ch OR kReadEvent\<rparr>) p"

definition disableReading ::
  "('cb channel \<Rightarrow> 'p \<Rightarrow> ('cb channel \<times> 'p) result) \<Rightarrow> 'cb channel \<Rightarrow> 'p \<Rightarrow>
     ('cb channel \<times> 'p) result" where
  "disableReading upd ch p = upd (ch\<lparr>ch_events := ch_events ch AND NOT kReadEvent\<rparr>) p"

definition enableWriting ::
  "('cb channel \<Rightarrow> 'p \<Rightarrow> ('cb channel \<times> 'p) result) \<Rightarrow> 'cb channel \<Rightarrow> 'p \<Rightarrow>
     ('cb channel \<times> 'p) result" where
  "enableWriting upd ch p = upd (ch\<lparr>ch_events := ch_events ch OR kWriteEvent\<rparr>) p"

definition disableWriting ::
  "('cb channel \<Rightarrow> 'p \<Rightarrow> ('cb channel \<times> 'p) result) \<Rightarrow> 'cb channel \<Rightarrow> 'p \<Rightarrow>
     ('cb channel \<times> 'p) result" where
  "disableWriting upd ch p = upd (ch\<lparr>ch_events := ch_events ch AND NOT kWriteEvent\<rparr>) p"

definition disableAll ::
  "('cb channel \<Rightarrow> 'p \<Rightarrow> ('cb channel \<times> 'p) result) \<Rightarrow> 'cb channel \<Rightarrow> 'p \<Rightarrow>
     ('cb channel \<times> 'p) result" where
  "disableAll upd ch p = upd (ch\<lparr>ch_events := kNoneEvent\<rparr>) p"

section \<open>Dispatching\<close>

text \<open>
  A callback acts on the program state \<open>'s\<close>; the channel is read from that state again before
  every test, as the code reads its members. \<open>run\<close> performs a callback, \<open>runRead\<close> a read
  callback, which is given the time of the poll.
\<close>

definition call_cb :: "('cb \<Rightarrow> 's \<Rightarrow> 's result) \<Rightarrow> 'cb option \<Rightarrow> 's \<Rightarrow> 's result" where
  "call_cb run cb s = (case cb of None \<Rightarrow> Inr s | Some c \<Rightarrow> run c s)"

definition handleEventWithGuard ::
  "('cb \<Rightarrow> 's \<Rightarrow> 's result) \<Rightarrow> ('cb \<Rightarrow> timestamp \<Rightarrow> 's \<Rightarrow> 's result) \<Rightarrow> ('s \<Rightarrow> 'cb channel) \<Rightarrow>
     timestamp \<Rightarrow> 's \<Rightarrow> 's result" where
  "handleEventWithGuard run runRead get t s =
     rbind (if ch_revents (get s) AND EPOLLHUP \<noteq> 0 \<and> \<not> ch_revents (get s) AND EPOLLIN \<noteq> 0
            then call_cb run (closeCallback (get s)) s else Inr s) (\<lambda>s.
     rbind (if ch_revents (get s) AND EPOLLERR \<noteq> 0
            then call_cb run (errorCallback (get s)) s else Inr s) (\<lambda>s.
     rbind (if ch_revents (get s) AND (EPOLLIN OR EPOLLPRI OR EPOLLRDHUP) \<noteq> 0
            then call_cb (\<lambda>c. runRead c t) (readCallback (get s)) s else Inr s) (\<lambda>s.
     if ch_revents (get s) AND EPOLLOUT \<noteq> 0
     then call_cb run (writeCallback (get s)) s else Inr s)))"

text \<open>\<open>alive s obj\<close>: the weak pointer to \<open>obj\<close> can be locked in the state \<open>s\<close>.\<close>

definition handleEvent ::
  "('s \<Rightarrow> nat \<Rightarrow> bool) \<Rightarrow> ('cb \<Rightarrow> 's \<Rightarrow> 's result) \<Rightarrow> ('cb \<Rightarrow> timestamp \<Rightarrow> 's \<Rightarrow> 's result) \<Rightarrow>
     ('s \<Rightarrow> 'cb channel) \<Rightarrow> timestamp \<Rightarrow> 's \<Rightarrow> 's result" where
  "handleEvent alive run runRead get t s =
     (if ch_tied (get s) then
        (case ch_tie (get s) of
           None \<Rightarrow> Inr s
         | Some obj \<Rightarrow>
            if alive s obj then handleEventWithGuard run runRead get t s else Inr s)
      else handleEventWithGuard run runRead get t s)"

section \<open>Masks of the interest set\<close>

lemma mask_values [simp]: "kReadEvent = 3" "kWriteEvent = 4" "kNoneEvent = 0"
  by (simp_all add: kReadEvent_def kWriteEvent_def kNoneEvent_def epoll_flags)

lemma or_and_absorb: "(e OR m) AND m = (m :: flags)"
  by (simp add: word_ao_absorbs)

lemma mask_laws [net_simps]:
  "(e OR 3) AND (3 :: flags) = 3"
  "(e OR 4) AND (4 :: flags) = 4"
  "(e OR 3) AND (4 :: flags) = e AND 4"
  "(e OR 4) AND (3 :: flags) = e AND 3"
  "(e AND NOT 3) AND (3 :: flags) = 0"
  "(e AND NOT 4) AND (4 :: flags) = 0"
  "(e AND NOT 3) AND (4 :: flags) = e AND 4"
  "(e AND NOT 4) AND (3 :: flags) = e AND 3"
  by (simp_all add: or_and_absorb bit.conj_disj_distrib2 and.assoc)

lemma or_nonzero: "m \<noteq> 0 \<Longrightarrow> e OR m \<noteq> (0 :: flags)"
  by (metis or_and_absorb and_zero_eq zero_and_eq)

lemma mask_effects:
  "ch_events ch' = ch_events ch OR kReadEvent \<Longrightarrow>
     isReading ch' \<and> isWriting ch' = isWriting ch \<and> \<not> isNoneEvent ch'"
  "ch_events ch' = ch_events ch OR kWriteEvent \<Longrightarrow>
     isWriting ch' \<and> isReading ch' = isReading ch \<and> \<not> isNoneEvent ch'"
  "ch_events ch' = ch_events ch AND NOT kReadEvent \<Longrightarrow>
     \<not> isReading ch' \<and> isWriting ch' = isWriting ch"
  "ch_events ch' = ch_events ch AND NOT kWriteEvent \<Longrightarrow>
     \<not> isWriting ch' \<and> isReading ch' = isReading ch"
  "ch_events ch' = kNoneEvent \<Longrightarrow> isNoneEvent ch' \<and> \<not> isReading ch' \<and> \<not> isWriting ch'"
  using mask_laws [of "ch_events ch"] or_nonzero [of 3 "ch_events ch"]
    or_nonzero [of 4 "ch_events ch"]
  by (auto simp: isReading_def isWriting_def isNoneEvent_def)

section \<open>The interface of the owner loop\<close>

text \<open>
  What a channel relies on when it changes its interest set. \<open>watched env p fd\<close> are the events
  the kernel reports for \<open>fd\<close>, \<open>attached\<close> says that the channel's index agrees with the
  kernel's interest list. \<open>env\<close> is the environment the operations run in, \<open>good env\<close> that it
  behaves as documented.
\<close>

locale channel_owner =
  fixes good :: "'k \<Rightarrow> bool"
    and watched :: "'p \<Rightarrow> int \<Rightarrow> flags option"
    and attached :: "'k \<Rightarrow> 'cb channel \<Rightarrow> 'p \<Rightarrow> bool"
    and upd :: "'k \<Rightarrow> 'cb channel \<Rightarrow> 'p \<Rightarrow> ('cb channel \<times> 'p) result"
  assumes upd_channel: "upd k ch p = Inr (ch', p') \<Longrightarrow> ch' = ch\<lparr>ch_index := ch_index ch'\<rparr>"
    and upd_attached: "good k \<Longrightarrow> attached k ch p \<Longrightarrow> upd k ch p = Inr (ch', p') \<Longrightarrow>
      attached k ch' p'"
    and upd_watched: "good k \<Longrightarrow> attached k ch p \<Longrightarrow> upd k ch p = Inr (ch', p') \<Longrightarrow>
      watched p' (ch_fd ch) = Some (ch_events ch) \<or>
      ch_events ch = 0 \<and> watched p' (ch_fd ch) = None"
    and upd_frame: "good k \<Longrightarrow> upd k ch p = Inr (ch', p') \<Longrightarrow> fd \<noteq> ch_fd ch \<Longrightarrow>
      watched p' fd = watched p fd"
    and upd_fault: "attached k ch p \<Longrightarrow> upd k ch p = Inl err \<Longrightarrow> err = Fatal_exit"
    and attached_events: "attached k (ch\<lparr>ch_events := e\<rparr>) p = attached k ch p"
begin

text \<open>What each of the five operations on the interest set leaves behind.\<close>

lemma set_events_post:
  assumes "good k" and "attached k ch p"
    and "upd k (ch\<lparr>ch_events := e\<rparr>) p = Inr (ch', p')"
  shows "attached k ch' p'" and "ch' = ch\<lparr>ch_events := e, ch_index := ch_index ch'\<rparr>"
    and "ch_events ch' = e" and "ch_fd ch' = ch_fd ch"
    and "watched p' (ch_fd ch) = Some e \<or> e = 0 \<and> watched p' (ch_fd ch) = None"
    and "fd \<noteq> ch_fd ch \<Longrightarrow> watched p' fd = watched p fd"
proof -
  have at: "attached k (ch\<lparr>ch_events := e\<rparr>) p" using assms(2) by (simp add: attached_events)
  show "attached k ch' p'" by (rule upd_attached [OF assms(1) at assms(3)])
  show eq: "ch' = ch\<lparr>ch_events := e, ch_index := ch_index ch'\<rparr>"
    using upd_channel [OF assms(3)] by simp
  have "ch_events (ch\<lparr>ch_events := e, ch_index := ch_index ch'\<rparr>) = e" by simp
  with eq show "ch_events ch' = e" by metis
  have "ch_fd (ch\<lparr>ch_events := e, ch_index := ch_index ch'\<rparr>) = ch_fd ch" by simp
  with eq show "ch_fd ch' = ch_fd ch" by metis
  show "watched p' (ch_fd ch) = Some e \<or> e = 0 \<and> watched p' (ch_fd ch) = None"
    using upd_watched [OF assms(1) at assms(3)] by simp
  show "watched p' fd = watched p fd" if "fd \<noteq> ch_fd ch"
    using upd_frame [OF assms(1) assms(3)] that by simp
qed

lemma enableWriting_post:
  assumes "good k" and "attached k ch p" and "enableWriting (upd k) ch p = Inr (ch', p')"
  shows "attached k ch' p' \<and> isWriting ch' \<and> isReading ch' = isReading ch \<and>
    watched p' (ch_fd ch) = Some (ch_events ch')"
  using set_events_post [OF assms(1,2) assms(3) [unfolded enableWriting_def]]
    mask_effects(2) [of ch' ch]
  by (auto simp: isNoneEvent_def)

lemma disableWriting_post:
  assumes "good k" and "attached k ch p" and "disableWriting (upd k) ch p = Inr (ch', p')"
  shows "attached k ch' p' \<and> \<not> isWriting ch' \<and> isReading ch' = isReading ch"
  using set_events_post [OF assms(1,2) assms(3) [unfolded disableWriting_def]]
    mask_effects(4) [of ch' ch]
  by auto

lemma enableReading_post:
  assumes "good k" and "attached k ch p" and "enableReading (upd k) ch p = Inr (ch', p')"
  shows "attached k ch' p' \<and> isReading ch' \<and> isWriting ch' = isWriting ch \<and>
    watched p' (ch_fd ch) = Some (ch_events ch')"
  using set_events_post [OF assms(1,2) assms(3) [unfolded enableReading_def]]
    mask_effects(1) [of ch' ch]
  by (auto simp: isNoneEvent_def)

lemma disableReading_post:
  assumes "good k" and "attached k ch p" and "disableReading (upd k) ch p = Inr (ch', p')"
  shows "attached k ch' p' \<and> \<not> isReading ch' \<and> isWriting ch' = isWriting ch"
  using set_events_post [OF assms(1,2) assms(3) [unfolded disableReading_def]]
    mask_effects(3) [of ch' ch]
  by auto

lemma disableAll_post:
  assumes "good k" and "attached k ch p" and "disableAll (upd k) ch p = Inr (ch', p')"
  shows "attached k ch' p' \<and> isNoneEvent ch' \<and> \<not> isReading ch' \<and> \<not> isWriting ch'"
  using set_events_post [OF assms(1,2) assms(3) [unfolded disableAll_def]]
    mask_effects(5) [of ch']
  by auto

end

section \<open>The calls of a dispatch\<close>

text \<open>
  The specification of a dispatch: the callbacks called for a mask of reported events, in
  order, the read callback with the poll time.
\<close>

definition calls_of :: "'cb option \<Rightarrow> timestamp option \<Rightarrow> ('cb \<times> timestamp option) list" where
  "calls_of cb t = (case cb of None \<Rightarrow> [] | Some c \<Rightarrow> [(c, t)])"

definition event_calls :: "'cb channel \<Rightarrow> timestamp \<Rightarrow> ('cb \<times> timestamp option) list" where
  "event_calls ch t =
     (let r = ch_revents ch in
      (if r AND EPOLLHUP \<noteq> 0 \<and> r AND EPOLLIN = 0 then calls_of (closeCallback ch) None else []) @
      (if r AND EPOLLERR \<noteq> 0 then calls_of (errorCallback ch) None else []) @
      (if r AND (EPOLLIN OR EPOLLPRI OR EPOLLRDHUP) \<noteq> 0
       then calls_of (readCallback ch) (Some t) else []) @
      (if r AND EPOLLOUT \<noteq> 0 then calls_of (writeCallback ch) None else []))"

fun run_calls ::
  "('cb \<Rightarrow> 's \<Rightarrow> 's result) \<Rightarrow> ('cb \<Rightarrow> timestamp \<Rightarrow> 's \<Rightarrow> 's result) \<Rightarrow>
     ('cb \<times> timestamp option) list \<Rightarrow> 's \<Rightarrow> 's result" where
  "run_calls run runRead [] s = Inr s"
| "run_calls run runRead ((c, None) # cs) s = rbind (run c s) (run_calls run runRead cs)"
| "run_calls run runRead ((c, Some t) # cs) s = rbind (runRead c t s) (run_calls run runRead cs)"

lemma run_calls_append:
  "run_calls run runRead (xs @ ys) s =
     rbind (run_calls run runRead xs s) (run_calls run runRead ys)"
  by (induction run runRead xs s rule: run_calls.induct)
    (auto simp: rbind_assoc rbind_def split: sum.splits)

text \<open>A callback leaves the reported events and the callbacks of the channel as they are.\<close>

definition dispatch_view ::
  "'cb channel \<Rightarrow> flags \<times> 'cb option \<times> 'cb option \<times> 'cb option \<times> 'cb option" where
  "dispatch_view ch =
     (ch_revents ch, closeCallback ch, errorCallback ch, readCallback ch, writeCallback ch)"

definition keeps_dispatch ::
  "('cb \<Rightarrow> 's \<Rightarrow> 's result) \<Rightarrow> ('cb \<Rightarrow> timestamp \<Rightarrow> 's \<Rightarrow> 's result) \<Rightarrow> ('s \<Rightarrow> 'cb channel) \<Rightarrow> bool"
  where
  "keeps_dispatch run runRead get \<longleftrightarrow>
     (\<forall>c s s'. run c s = Inr s' \<longrightarrow> dispatch_view (get s') = dispatch_view (get s)) \<and>
     (\<forall>c t s s'. runRead c t s = Inr s' \<longrightarrow> dispatch_view (get s') = dispatch_view (get s))"

lemma run_calls_keeps:
  assumes "keeps_dispatch run runRead get" and "run_calls run runRead cs s = Inr s'"
  shows "dispatch_view (get s') = dispatch_view (get s)"
  using assms(2)
proof (induction cs arbitrary: s)
  case (Cons c cs)
  obtain cb t where c: "c = (cb, t)" by (cases c)
  then obtain u where "run_calls run runRead cs u = Inr s'"
    and "dispatch_view (get u) = dispatch_view (get s)"
    using Cons.prems assms(1) by (cases t) (auto simp: rbind_Inr_iff keeps_dispatch_def)
  with Cons.IH show ?case by simp
qed simp

text \<open>One test of \<open>handleEventWithGuard\<close> is a list of at most one call.\<close>

lemma guarded_call:
  "(if P then call_cb run cb s else Inr s) =
     run_calls run runRead (if P then calls_of cb None else []) s"
  "(if P then call_cb (\<lambda>c. runRead c t) cb s else Inr s) =
     run_calls run runRead (if P then calls_of cb (Some t) else []) s"
  by (auto simp: call_cb_def calls_of_def rbind_def split: option.splits sum.splits)

lemma rbind_run_calls_cong:
  assumes "keeps_dispatch run runRead get"
    and "\<And>u. dispatch_view (get u) = dispatch_view (get s) \<Longrightarrow> f u = run_calls run runRead ds u"
  shows "rbind (run_calls run runRead cs s) f = run_calls run runRead (cs @ ds) s"
proof (cases "run_calls run runRead cs s")
  case (Inr u)
  with assms(2) [OF run_calls_keeps [OF assms(1) Inr]] show ?thesis
    by (simp add: run_calls_append)
qed (simp add: run_calls_append)

lemma guard_calls:
  assumes keep: "keeps_dispatch run runRead get"
  shows "handleEventWithGuard run runRead get t s =
    run_calls run runRead (event_calls (get s) t) s"
proof -
  let ?A = "\<lambda>ch. if ch_revents ch AND EPOLLHUP \<noteq> 0 \<and> ch_revents ch AND EPOLLIN = 0
    then calls_of (closeCallback ch) None else []"
  let ?B = "\<lambda>ch. if ch_revents ch AND EPOLLERR \<noteq> 0 then calls_of (errorCallback ch) None else []"
  let ?C = "\<lambda>ch. if ch_revents ch AND (EPOLLIN OR EPOLLPRI OR EPOLLRDHUP) \<noteq> 0
    then calls_of (readCallback ch) (Some t) else []"
  let ?D = "\<lambda>ch. if ch_revents ch AND EPOLLOUT \<noteq> 0 then calls_of (writeCallback ch) None else []"
  let ?r = "run_calls run runRead" and ?v = "\<lambda>u. dispatch_view (get u)"
  have same: "?B (get u) = ?B (get s)" "?C (get u) = ?C (get s)" "?D (get u) = ?D (get s)"
    if "?v u = ?v s" for u
    using that by (auto simp: dispatch_view_def)
  have d: "?r (?D (get u)) u = ?r (?D (get s)) u" if "?v u = ?v s" for u
    by (simp only: same(3) [OF that])
  have c: "rbind (?r (?C (get u)) u) (\<lambda>s. ?r (?D (get s)) s) = ?r (?C (get s) @ ?D (get s)) u"
    if "?v u = ?v s" for u
    unfolding same(2) [OF that] by (rule rbind_run_calls_cong [OF keep]) (rule d, simp add: that)
  have b: "rbind (?r (?B (get u)) u) (\<lambda>s. rbind (?r (?C (get s)) s) (\<lambda>s. ?r (?D (get s)) s)) =
      ?r (?B (get s) @ ?C (get s) @ ?D (get s)) u"
    if "?v u = ?v s" for u
    unfolding same(1) [OF that] by (rule rbind_run_calls_cong [OF keep]) (rule c, simp add: that)
  have "handleEventWithGuard run runRead get t s =
      rbind (?r (?A (get s)) s) (\<lambda>s. rbind (?r (?B (get s)) s)
        (\<lambda>s. rbind (?r (?C (get s)) s) (\<lambda>s. ?r (?D (get s)) s)))"
    unfolding handleEventWithGuard_def not_not
      guarded_call(2) [where run = run and runRead = runRead]
      guarded_call(1) [where run = run and runRead = runRead] ..
  also have "\<dots> = ?r (?A (get s) @ ?B (get s) @ ?C (get s) @ ?D (get s)) s"
    by (rule rbind_run_calls_cong [OF keep]) (rule b)
  finally show ?thesis by (simp add: event_calls_def Let_def)
qed

text \<open>
  C21: A dispatched event runs exactly the callbacks its reported mask asks for, in the order
  close, error, read (with the poll time), write, and stops at the first one that faults; the
  close callback is run on a hang-up only when nothing is left to read. A tied channel whose
  owner is gone runs none.
\<close>

theorem handleEvent_runs_calls:
  assumes "keeps_dispatch run runRead get"
  shows "handleEvent alive run runRead get t s =
    (if ch_tied (get s) \<and> (case ch_tie (get s) of None \<Rightarrow> True | Some obj \<Rightarrow> \<not> alive s obj)
     then Inr s else run_calls run runRead (event_calls (get s) t) s)"
  by (simp add: handleEvent_def guard_calls [OF assms] split: option.splits)

definition log_channel :: "string channel" where
  "log_channel = (setReadCallback ''read'' (setWriteCallback ''write''
     (setCloseCallback ''close'' (Channel_new 0 7))))\<lparr>ch_revents := 0x15\<rparr>"

theorem handleEvent_runs_calls_witness:
  "handleEvent (\<lambda>_ _. True) (\<lambda>c l. Inr (l @ [c])) (\<lambda>c t l. Inr (l @ [c])) (\<lambda>_. log_channel) 9 []
     = Inr [''read'', ''write'']"
proof -
  have "keeps_dispatch (\<lambda>c l. Inr (l @ [c])) (\<lambda>c t l. Inr (l @ [c])) (\<lambda>_. log_channel)"
    by (simp add: keeps_dispatch_def)
  from handleEvent_runs_calls [OF this, of "\<lambda>_ _. True" 9 "[]"] show ?thesis
    by (simp add: event_calls_def calls_of_def log_channel_def Channel_new_def Let_def
        setReadCallback_def setWriteCallback_def setCloseCallback_def epoll_flags)
qed

end
