(* ===== verification/Poller.thy ===== *)
theory Poller
  imports Channel
begin

text \<open>
  The epoll poller of \<open>include/net/Poller.h\<close>, \<open>include/net/Epollpoller.h\<close>,
  \<open>src/net/Poller.cc\<close>, \<open>src/net/DefaultPoller.cc\<close> and \<open>src/net/Epollpoller.cc\<close>. The kernel
  calls \<open>epoll_ctl\<close> and \<open>epoll_wait\<close> are parameters; the kernel's interest list is part of the
  state they act on.
\<close>

section \<open>State\<close>

text \<open>
  A channel pointer is a number. An entry of the interest list is the event mask and the
  channel pointer of \<open>epoll_event\<close>. The event array is modelled by its length.
\<close>

type_synonym epoll_event = "flags \<times> nat"
type_synonym interest_list = "int \<rightharpoonup> epoll_event"

record poller =
  channels :: "int \<rightharpoonup> nat"
  interest :: interest_list
  ev_size :: nat

datatype epoll_op = EPOLL_CTL_ADD | EPOLL_CTL_MOD | EPOLL_CTL_DEL

type_synonym epoll_ctl_fn =
  "epoll_op \<Rightarrow> int \<Rightarrow> epoll_event \<Rightarrow> interest_list \<Rightarrow> errno + interest_list"
type_synonym epoll_wait_fn = "nat \<Rightarrow> errno + epoll_event list"

definition kNew :: int where "kNew = - 1"
definition kAdded :: int where "kAdded = 1"
definition kDeleted :: int where "kDeleted = 2"

definition kInitEventListSize :: nat where
  "kInitEventListSize = 16"

text \<open>\<open>epoll_create1\<close> answers with a descriptor or an error, which is fatal.\<close>

definition Epollpoller_new :: "errno + int \<Rightarrow> poller result" where
  "Epollpoller_new epoll_create1 =
     (case epoll_create1 of
        Inl e \<Rightarrow> Inl Fatal_exit
      | Inr epfd \<Rightarrow> Inr \<lparr>channels = Map.empty, interest = Map.empty, ev_size = kInitEventListSize\<rparr>)"

text \<open>\<open>Poller::newDefaultPoller\<close>: a null pointer when \<open>MUDUO_USE_POLL\<close> is set.\<close>

definition newDefaultPoller :: "bool \<Rightarrow> errno + int \<Rightarrow> poller option result" where
  "newDefaultPoller use_poll epoll_create1 =
     (if use_poll then Inr None
      else rbind (Epollpoller_new epoll_create1) (\<lambda>p. Inr (Some p)))"

definition Poller_hasChannel :: "poller \<Rightarrow> nat \<Rightarrow> 'cb channel \<Rightarrow> bool" where
  "Poller_hasChannel p cid ch =
     (case channels p (ch_fd ch) of None \<Rightarrow> False | Some c \<Rightarrow> c = cid)"

section \<open>Registering channels\<close>

definition Epollpoller_update ::
  "epoll_ctl_fn \<Rightarrow> epoll_op \<Rightarrow> nat \<Rightarrow> 'cb channel \<Rightarrow> poller \<Rightarrow> poller result" where
  "Epollpoller_update ctl operation cid ch p =
     (case ctl operation (ch_fd ch) (ch_events ch, cid) (interest p) of
        Inr it \<Rightarrow> Inr (p\<lparr>interest := it\<rparr>)
      | Inl e \<Rightarrow> if operation = EPOLL_CTL_DEL then Inr p else Inl Fatal_exit)"

definition Epollpoller_updateChannel ::
  "epoll_ctl_fn \<times> nat \<Rightarrow> 'cb channel \<Rightarrow> poller \<Rightarrow> ('cb channel \<times> poller) result" where
  "Epollpoller_updateChannel k ch p =
     (case k of (ctl, cid) \<Rightarrow>
      let index = ch_index ch in
      if index = kNew \<or> index = kDeleted then
        let p1 = (if index = kNew then p\<lparr>channels := (channels p)(ch_fd ch \<mapsto> cid)\<rparr> else p);
            ch1 = ch\<lparr>ch_index := kAdded\<rparr>
        in rbind (Epollpoller_update ctl EPOLL_CTL_ADD cid ch1 p1) (\<lambda>p2. Inr (ch1, p2))
      else if isNoneEvent ch then
        rbind (Epollpoller_update ctl EPOLL_CTL_DEL cid ch p)
          (\<lambda>p1. Inr (ch\<lparr>ch_index := kDeleted\<rparr>, p1))
      else
        rbind (Epollpoller_update ctl EPOLL_CTL_MOD cid ch p) (\<lambda>p1. Inr (ch, p1)))"

definition Epollpoller_removeChannel ::
  "epoll_ctl_fn \<times> nat \<Rightarrow> 'cb channel \<Rightarrow> poller \<Rightarrow> ('cb channel \<times> poller) result" where
  "Epollpoller_removeChannel k ch p =
     rbind (disableAll (Epollpoller_updateChannel k) ch
              (p\<lparr>channels := (channels p)(ch_fd ch := None)\<rparr>))
       (\<lambda>(ch1, p1). if ch_index ch1 = kAdded then Epollpoller_updateChannel k ch1 p1
                     else Inr (ch1, p1))"

section \<open>Polling\<close>

text \<open>The channels are kept in a store, read and written through their pointers.\<close>

fun fillActiveChannels ::
  "epoll_event list \<Rightarrow> (nat \<Rightarrow> 'cb channel) \<Rightarrow> nat list \<Rightarrow> (nat \<Rightarrow> 'cb channel) \<times> nat list" where
  "fillActiveChannels [] chans active = (chans, active)"
| "fillActiveChannels ((events, cid) # evs) chans active =
     fillActiveChannels evs (chans(cid := set_revents events (chans cid))) (active @ [cid])"

definition Epollpoller_poll ::
  "epoll_wait_fn \<Rightarrow> (nat \<Rightarrow> 'cb channel) \<Rightarrow> poller \<Rightarrow> nat list \<Rightarrow>
     (nat \<Rightarrow> 'cb channel) \<times> poller \<times> nat list" where
  "Epollpoller_poll epoll_wait chans p active =
     (case epoll_wait (ev_size p) of
        Inl e \<Rightarrow> (chans, p, active)
      | Inr evs \<Rightarrow>
         if 0 < length evs then
           let (chans', active') = fillActiveChannels evs chans active;
               p' = (if length evs = ev_size p then p\<lparr>ev_size := ev_size p * 2\<rparr> else p)
           in (chans', p', active')
         else (chans, p, active))"

section \<open>What the kernel documents\<close>

text \<open>
  \<open>epoll_ctl(2)\<close>: adding succeeds only for a descriptor that is not in the interest list,
  changing and deleting only for one that is (EEXIST, ENOENT); on success the list is changed as
  asked; deleting a registered descriptor succeeds.
\<close>

definition epoll_ctl_doc :: "epoll_ctl_fn \<Rightarrow> bool" where
  "epoll_ctl_doc ctl \<longleftrightarrow>
     (\<forall>fd ev it it'. ctl EPOLL_CTL_ADD fd ev it = Inr it' \<longrightarrow> it fd = None \<and> it' = it(fd \<mapsto> ev)) \<and>
     (\<forall>fd ev it it'. ctl EPOLL_CTL_MOD fd ev it = Inr it' \<longrightarrow> it fd \<noteq> None \<and> it' = it(fd \<mapsto> ev)) \<and>
     (\<forall>fd ev it it'. ctl EPOLL_CTL_DEL fd ev it = Inr it' \<longrightarrow>
        it fd \<noteq> None \<and> it' = it(fd := None)) \<and>
     (\<forall>fd ev it. it fd \<noteq> None \<longrightarrow> (\<exists>it'. ctl EPOLL_CTL_DEL fd ev it = Inr it'))"

text \<open>The kernel has the memory to serve every request that is not in error.\<close>

definition epoll_ctl_serves :: "epoll_ctl_fn \<Rightarrow> bool" where
  "epoll_ctl_serves ctl \<longleftrightarrow>
     (\<forall>fd ev it. it fd = None \<longrightarrow> (\<exists>it'. ctl EPOLL_CTL_ADD fd ev it = Inr it')) \<and>
     (\<forall>fd ev it. it fd \<noteq> None \<longrightarrow> (\<exists>it'. ctl EPOLL_CTL_MOD fd ev it = Inr it'))"

text \<open>\<open>epoll_wait(2)\<close>: at most as many events as the array holds.\<close>

definition epoll_wait_doc :: "epoll_wait_fn \<Rightarrow> bool" where
  "epoll_wait_doc w \<longleftrightarrow> (\<forall>n evs. w n = Inr evs \<longrightarrow> length evs \<le> n)"

lemma epoll_ctl_docD:
  assumes "epoll_ctl_doc ctl"
  shows "ctl EPOLL_CTL_ADD fd ev it = Inr it' \<Longrightarrow> it fd = None \<and> it' = it(fd \<mapsto> ev)"
    and "ctl EPOLL_CTL_MOD fd ev it = Inr it' \<Longrightarrow> it fd \<noteq> None \<and> it' = it(fd \<mapsto> ev)"
    and "ctl EPOLL_CTL_DEL fd ev it = Inr it' \<Longrightarrow> it fd \<noteq> None \<and> it' = it(fd := None)"
    and "it fd \<noteq> None \<Longrightarrow> \<exists>it'. ctl EPOLL_CTL_DEL fd ev it = Inr it'"
  using assms unfolding epoll_ctl_doc_def by (elim conjE, metis)+

text \<open>A kernel of this kind, for the witnesses.\<close>

definition simple_epoll_ctl :: epoll_ctl_fn where
  "simple_epoll_ctl operation fd ev it =
     (case operation of
        EPOLL_CTL_ADD \<Rightarrow> (case it fd of None \<Rightarrow> Inr (it(fd \<mapsto> ev)) | Some _ \<Rightarrow> Inl 17)
      | EPOLL_CTL_MOD \<Rightarrow> (case it fd of None \<Rightarrow> Inl 2 | Some _ \<Rightarrow> Inr (it(fd \<mapsto> ev)))
      | EPOLL_CTL_DEL \<Rightarrow> (case it fd of None \<Rightarrow> Inl 2 | Some _ \<Rightarrow> Inr (it(fd := None))))"

lemma simple_epoll_ctl_doc: "epoll_ctl_doc simple_epoll_ctl" "epoll_ctl_serves simple_epoll_ctl"
  by (auto simp: epoll_ctl_doc_def epoll_ctl_serves_def simple_epoll_ctl_def
      split: option.splits)

section \<open>A channel and its poller in step\<close>

definition watched_events :: "poller \<Rightarrow> int \<Rightarrow> flags option" where
  "watched_events p fd = map_option fst (interest p fd)"

text \<open>
  The index of the channel says whether the kernel watches its descriptor, and then on behalf of
  this channel.
\<close>

definition in_step :: "epoll_ctl_fn \<times> nat \<Rightarrow> 'cb channel \<Rightarrow> poller \<Rightarrow> bool" where
  "in_step k ch p \<longleftrightarrow>
     ch_index ch \<in> {kNew, kAdded, kDeleted} \<and>
     (ch_index ch = kAdded \<longleftrightarrow> interest p (ch_fd ch) \<noteq> None) \<and>
     (ch_index ch = kAdded \<longrightarrow> map_option snd (interest p (ch_fd ch)) = Some (snd k))"

lemma kIndex_distinct [simp]:
  "kNew \<noteq> kAdded" "kAdded \<noteq> kNew" "kDeleted \<noteq> kAdded" "kAdded \<noteq> kDeleted"
  "kNew \<noteq> kDeleted" "kDeleted \<noteq> kNew"
  by (simp_all add: kNew_def kAdded_def kDeleted_def)

text \<open>The three effects of \<open>updateChannel\<close> on a channel in step.\<close>

lemma updateChannel_add:
  assumes "epoll_ctl_doc ctl" and "in_step (ctl, cid) ch p" and "ch_index ch \<noteq> kAdded"
    and "Epollpoller_updateChannel (ctl, cid) ch p = Inr (ch', p')"
  shows "ch' = ch\<lparr>ch_index := kAdded\<rparr> \<and>
    interest p' = (interest p)(ch_fd ch \<mapsto> (ch_events ch, cid)) \<and>
    channels p' = (if ch_index ch = kNew then (channels p)(ch_fd ch \<mapsto> cid) else channels p) \<and>
    ev_size p' = ev_size p"
  using assms
  by (auto simp: Epollpoller_updateChannel_def Epollpoller_update_def Let_def rbind_Inr_iff
      in_step_def dest: epoll_ctl_docD(1) split: sum.splits if_splits)

lemma updateChannel_del:
  assumes "epoll_ctl_doc ctl" and "in_step (ctl, cid) ch p" and "ch_index ch = kAdded"
    and "isNoneEvent ch"
  shows "Epollpoller_updateChannel (ctl, cid) ch p =
    Inr (ch\<lparr>ch_index := kDeleted\<rparr>, p\<lparr>interest := (interest p)(ch_fd ch := None)\<rparr>)"
proof -
  have "interest p (ch_fd ch) \<noteq> None" using assms(2,3) by (simp add: in_step_def)
  then obtain it where it: "ctl EPOLL_CTL_DEL (ch_fd ch) (ch_events ch, cid) (interest p) = Inr it"
    using epoll_ctl_docD(4) [OF assms(1)] by blast
  with epoll_ctl_docD(3) [OF assms(1) it] assms(3,4) show ?thesis
    by (simp add: Epollpoller_updateChannel_def Epollpoller_update_def)
qed

lemma updateChannel_mod:
  assumes "epoll_ctl_doc ctl" and "in_step (ctl, cid) ch p" and "ch_index ch = kAdded"
    and "\<not> isNoneEvent ch" and "Epollpoller_updateChannel (ctl, cid) ch p = Inr (ch', p')"
  shows "ch' = ch \<and> p' = p\<lparr>interest := (interest p)(ch_fd ch \<mapsto> (ch_events ch, cid))\<rparr>"
  using assms
  by (auto simp: Epollpoller_updateChannel_def Epollpoller_update_def rbind_Inr_iff
      dest: epoll_ctl_docD(2) split: sum.splits)

lemma updateChannel_fault: "Epollpoller_updateChannel k ch p = Inl e \<Longrightarrow> e = Fatal_exit"
  by (auto simp: Epollpoller_updateChannel_def Epollpoller_update_def Let_def rbind_Inl_iff
      split: sum.splits if_splits prod.splits)

lemma updateChannel_channel:
  "Epollpoller_updateChannel k ch p = Inr (ch', p') \<Longrightarrow> ch' = ch\<lparr>ch_index := ch_index ch'\<rparr>"
  by (auto simp: Epollpoller_updateChannel_def Let_def rbind_Inr_iff
      split: if_splits prod.splits)

lemma updateChannel_total:
  assumes "epoll_ctl_doc ctl" and "epoll_ctl_serves ctl" and "in_step (ctl, cid) ch p"
  shows "\<exists>ch' p'. Epollpoller_updateChannel (ctl, cid) ch p = Inr (ch', p')"
proof (cases "ch_index ch = kAdded")
  case True
  then obtain it where "ctl EPOLL_CTL_MOD (ch_fd ch) (ch_events ch, cid) (interest p) = Inr it"
    using assms(2,3) unfolding in_step_def epoll_ctl_serves_def by metis
  with True show ?thesis
    using updateChannel_del [OF assms(1,3)]
    by (cases "isNoneEvent ch") (auto simp: Epollpoller_updateChannel_def Epollpoller_update_def)
next
  case False
  then obtain it where "ctl EPOLL_CTL_ADD (ch_fd ch) (ch_events ch, cid) (interest p) = Inr it"
    using assms(2,3) unfolding in_step_def epoll_ctl_serves_def by metis
  with False assms(3) show ?thesis
    by (auto simp: Epollpoller_updateChannel_def Epollpoller_update_def in_step_def Let_def)
qed

text \<open>The poller provides the interface the channels rely on.\<close>

interpretation po: channel_owner "\<lambda>k. epoll_ctl_doc (fst k)" watched_events in_step
  Epollpoller_updateChannel
proof unfold_locales
  fix k :: "epoll_ctl_fn \<times> nat" and ch ch' :: "'cb channel" and p p' e fd and e' :: flags
  obtain ctl cid where k: "k = (ctl, cid)" by (cases k)
  show "Epollpoller_updateChannel k ch p = Inr (ch', p') \<Longrightarrow> ch' = ch\<lparr>ch_index := ch_index ch'\<rparr>"
    by (rule updateChannel_channel)
  show "in_step k ch p \<Longrightarrow> Epollpoller_updateChannel k ch p = Inl e \<Longrightarrow> e = Fatal_exit"
    using updateChannel_fault by blast
  show "in_step k (ch\<lparr>ch_events := e'\<rparr>) p = in_step k ch p"
    by (simp add: in_step_def)
  show "in_step k ch' p'" "watched_events p' (ch_fd ch) = Some (ch_events ch) \<or>
      ch_events ch = 0 \<and> watched_events p' (ch_fd ch) = None"
    if doc: "epoll_ctl_doc (fst k)" and st: "in_step k ch p"
      and up: "Epollpoller_updateChannel k ch p = Inr (ch', p')"
  proof -
    have doc: "epoll_ctl_doc ctl" and st: "in_step (ctl, cid) ch p"
      and up: "Epollpoller_updateChannel (ctl, cid) ch p = Inr (ch', p')"
      using that by (simp_all add: k)
    consider (add) "ch_index ch \<noteq> kAdded" | (del) "ch_index ch = kAdded" "isNoneEvent ch"
      | (modify) "ch_index ch = kAdded" "\<not> isNoneEvent ch" by blast
    then have "in_step k ch' p' \<and> (watched_events p' (ch_fd ch) = Some (ch_events ch) \<or>
      ch_events ch = 0 \<and> watched_events p' (ch_fd ch) = None)"
    proof cases
      case add
      from updateChannel_add [OF doc st add up] show ?thesis
        by (auto simp: in_step_def watched_events_def k)
    next
      case del
      with up updateChannel_del [OF doc st del] show ?thesis
        by (auto simp: in_step_def watched_events_def isNoneEvent_def k)
    next
      case modify
      with st updateChannel_mod [OF doc st modify up] show ?thesis
        by (auto simp: in_step_def watched_events_def k)
    qed
    then show "in_step k ch' p'" "watched_events p' (ch_fd ch) = Some (ch_events ch) \<or>
      ch_events ch = 0 \<and> watched_events p' (ch_fd ch) = None" by blast+
  qed
  show "watched_events p' fd = watched_events p fd"
    if doc: "epoll_ctl_doc (fst k)" and up: "Epollpoller_updateChannel k ch p = Inr (ch', p')"
      and fd: "fd \<noteq> ch_fd ch"
    using that
    by (auto simp: Epollpoller_updateChannel_def Epollpoller_update_def Let_def k rbind_Inr_iff
        watched_events_def dest: epoll_ctl_docD split: sum.splits if_splits)
qed

section \<open>Removing a channel\<close>

lemma in_step_frame [net_simps]:
  "in_step k ch (p\<lparr>channels := m\<rparr>) = in_step k ch p"
  "in_step k (ch\<lparr>ch_events := e\<rparr>) p = in_step k ch p"
  "in_step k (ch\<lparr>ch_revents := e\<rparr>) p = in_step k ch p"
  by (simp_all add: in_step_def)

lemma updateChannel_add_total:
  assumes "epoll_ctl_doc ctl" and "epoll_ctl_serves ctl" and "in_step (ctl, cid) ch p"
    and "ch_index ch \<noteq> kAdded"
  shows "Epollpoller_updateChannel (ctl, cid) ch p =
    Inr (ch\<lparr>ch_index := kAdded\<rparr>,
         p\<lparr>channels := (if ch_index ch = kNew then (channels p)(ch_fd ch \<mapsto> cid) else channels p),
           interest := (interest p)(ch_fd ch \<mapsto> (ch_events ch, cid))\<rparr>)"
proof -
  from updateChannel_total [OF assms(1,2,3)] obtain ch' p' where
    u: "Epollpoller_updateChannel (ctl, cid) ch p = Inr (ch', p')" by blast
  from updateChannel_add [OF assms(1,3,4) u] show ?thesis
    by (simp add: u)
qed

lemma removeChannel_eq:
  assumes "epoll_ctl_doc ctl" and "epoll_ctl_serves ctl" and "in_step (ctl, cid) ch p"
  shows "Epollpoller_removeChannel (ctl, cid) ch p =
    Inr (ch\<lparr>ch_events := 0, ch_index := kDeleted\<rparr>,
         p\<lparr>channels := (channels p)(ch_fd ch := if ch_index ch = kNew then Some cid else None),
           interest := (interest p)(ch_fd ch := None)\<rparr>)"
proof -
  let ?p = "p\<lparr>channels := (channels p)(ch_fd ch := None)\<rparr>" and ?c = "ch\<lparr>ch_events := 0\<rparr>"
  have st: "in_step (ctl, cid) ?c ?p"
    using assms(3) by (simp add: in_step_frame)
  show ?thesis
  proof (cases "ch_index ch = kAdded")
    case True
    then show ?thesis
      using updateChannel_del [OF assms(1) st]
      by (simp add: Epollpoller_removeChannel_def disableAll_def isNoneEvent_def)
  next
    case False
    let ?p1 = "?p\<lparr>channels := (if ch_index ch = kNew then (channels ?p)(ch_fd ch \<mapsto> cid)
        else channels ?p), interest := (interest p)(ch_fd ch \<mapsto> (0, cid))\<rparr>"
    have u: "Epollpoller_updateChannel (ctl, cid) ?c ?p = Inr (?c\<lparr>ch_index := kAdded\<rparr>, ?p1)"
      using updateChannel_add_total [OF assms(1,2) st] False by simp
    have st1: "in_step (ctl, cid) (?c\<lparr>ch_index := kAdded\<rparr>) ?p1"
      by (simp add: in_step_def)
    have "Epollpoller_updateChannel (ctl, cid) (?c\<lparr>ch_index := kAdded\<rparr>) ?p1 =
        Inr (?c\<lparr>ch_index := kDeleted\<rparr>, ?p1\<lparr>interest := (interest ?p1)(ch_fd ch := None)\<rparr>)"
      using updateChannel_del [OF assms(1) st1] by (simp add: isNoneEvent_def)
    with u show ?thesis
      by (simp add: Epollpoller_removeChannel_def disableAll_def)
  qed
qed

section \<open>Filling the active list\<close>

lemma fill_active: "snd (fillActiveChannels evs chans active) = active @ map snd evs"
  by (induction evs arbitrary: chans active) auto

lemma fill_other:
  "cid \<notin> snd ` set evs \<Longrightarrow> fst (fillActiveChannels evs chans active) cid = chans cid"
  by (induction evs arbitrary: chans active) auto

lemma fill_revents:
  "distinct (map snd evs) \<Longrightarrow> (e, cid) \<in> set evs \<Longrightarrow>
     fst (fillActiveChannels evs chans active) cid = set_revents e (chans cid)"
proof (induction evs arbitrary: chans active)
  case (Cons ev evs)
  obtain events c where ev: "ev = (events, c)" by (cases ev)
  show ?case
  proof (cases "c = cid")
    case True
    with Cons.prems ev have "cid \<notin> snd ` set evs" and "events = e" by force+
    with ev True show ?thesis by (simp add: fill_other)
  next
    case False
    with Cons ev show ?thesis by simp
  qed
qed simp

section \<open>Runs of interest changes\<close>

datatype interest_op = EnableReading | DisableReading | EnableWriting | DisableWriting | DisableAll
  | Remove

fun interest_step ::
  "epoll_ctl_fn \<times> nat \<Rightarrow> interest_op \<Rightarrow> 'cb channel \<times> poller \<Rightarrow> ('cb channel \<times> poller) result" where
  "interest_step k EnableReading (ch, p) = enableReading (Epollpoller_updateChannel k) ch p"
| "interest_step k DisableReading (ch, p) = disableReading (Epollpoller_updateChannel k) ch p"
| "interest_step k EnableWriting (ch, p) = enableWriting (Epollpoller_updateChannel k) ch p"
| "interest_step k DisableWriting (ch, p) = disableWriting (Epollpoller_updateChannel k) ch p"
| "interest_step k DisableAll (ch, p) = disableAll (Epollpoller_updateChannel k) ch p"
| "interest_step k Remove (ch, p) = Epollpoller_removeChannel k ch p"

fun interest_run ::
  "epoll_ctl_fn \<times> nat \<Rightarrow> interest_op list \<Rightarrow> 'cb channel \<times> poller \<Rightarrow> ('cb channel \<times> poller) result"
  where
  "interest_run k [] s = Inr s"
| "interest_run k (op # ops) s = rbind (interest_step k op s) (interest_run k ops)"

text \<open>In step, and what the kernel watches for the descriptor is the channel's mask.\<close>

definition in_sync :: "epoll_ctl_fn \<times> nat \<Rightarrow> 'cb channel \<times> poller \<Rightarrow> bool" where
  "in_sync k s \<longleftrightarrow> in_step k (fst s) (snd s) \<and>
     watched_events (snd s) (ch_fd (fst s)) =
       (if ch_index (fst s) = kAdded then Some (ch_events (fst s)) else None)"

lemma updateChannel_in_sync:
  assumes "epoll_ctl_doc ctl" and "epoll_ctl_serves ctl" and "in_step (ctl, cid) ch p"
  shows "\<exists>s'. Epollpoller_updateChannel (ctl, cid) ch p = Inr s' \<and> in_sync (ctl, cid) s' \<and>
    ch_fd (fst s') = ch_fd ch \<and> ch_events (fst s') = ch_events ch \<and>
    (\<forall>fd. fd \<noteq> ch_fd ch \<longrightarrow> watched_events (snd s') fd = watched_events p fd)"
proof -
  from updateChannel_total [OF assms] obtain ch' p' where
    u: "Epollpoller_updateChannel (ctl, cid) ch p = Inr (ch', p')" by blast
  have "in_sync (ctl, cid) (ch', p')"
  proof -
    consider (add) "ch_index ch \<noteq> kAdded" | (del) "ch_index ch = kAdded" "isNoneEvent ch"
      | (modify) "ch_index ch = kAdded" "\<not> isNoneEvent ch" by blast
    then show ?thesis
    proof cases
      case add
      from updateChannel_add [OF assms(1,3) add u] show ?thesis
        by (auto simp: in_sync_def in_step_def watched_events_def)
    next
      case del
      with u updateChannel_del [OF assms(1,3) del] show ?thesis
        by (auto simp: in_sync_def in_step_def watched_events_def)
    next
      case modify
      with updateChannel_mod [OF assms(1,3) modify u] show ?thesis
        by (auto simp: in_sync_def in_step_def watched_events_def)
    qed
  qed
  moreover have "ch_fd ch' = ch_fd ch \<and> ch_events ch' = ch_events ch"
    using updateChannel_channel [OF u] by (metis channel.select_convs(2,3) channel.surjective
        channel.update_convs(5))
  moreover have "\<forall>fd. fd \<noteq> ch_fd ch \<longrightarrow> watched_events p' fd = watched_events p fd"
    using po.upd_frame [OF _ u] assms(1) by simp
  ultimately show ?thesis using u by auto
qed

lemma interest_step_in_sync:
  assumes "epoll_ctl_doc ctl" and "epoll_ctl_serves ctl" and "in_sync (ctl, cid) s"
  shows "\<exists>s'. interest_step (ctl, cid) op s = Inr s' \<and> in_sync (ctl, cid) s' \<and>
    ch_fd (fst s') = ch_fd (fst s) \<and>
    (\<forall>fd. fd \<noteq> ch_fd (fst s) \<longrightarrow> watched_events (snd s') fd = watched_events (snd s) fd)"
proof -
  obtain ch p where s: "s = (ch, p)" by (cases s)
  have st: "in_step (ctl, cid) (ch\<lparr>ch_events := e\<rparr>) p" for e
    using assms(3) by (simp add: in_sync_def s in_step_frame)
  note u = updateChannel_in_sync [OF assms(1,2) st]
  show ?thesis
  proof (cases op)
    case EnableReading
    then show ?thesis using u by (simp add: s enableReading_def) fastforce
  next
    case DisableReading
    then show ?thesis using u by (simp add: s disableReading_def) fastforce
  next
    case EnableWriting
    then show ?thesis using u by (simp add: s enableWriting_def) fastforce
  next
    case DisableWriting
    then show ?thesis using u by (simp add: s disableWriting_def) fastforce
  next
    case DisableAll
    then show ?thesis using u by (simp add: s disableAll_def) fastforce
  next
    case Remove
    have "in_step (ctl, cid) ch p" using assms(3) by (simp add: in_sync_def s)
    from removeChannel_eq [OF assms(1,2) this] Remove show ?thesis
      by (simp add: s in_sync_def in_step_def watched_events_def)
  qed
qed

lemma interest_run_in_sync:
  assumes "epoll_ctl_doc ctl" and "epoll_ctl_serves ctl" and "in_sync (ctl, cid) s"
  shows "\<exists>s'. interest_run (ctl, cid) ops s = Inr s' \<and> in_sync (ctl, cid) s' \<and>
    ch_fd (fst s') = ch_fd (fst s) \<and>
    (\<forall>fd. fd \<noteq> ch_fd (fst s) \<longrightarrow> watched_events (snd s') fd = watched_events (snd s) fd)"
  using assms(3)
proof (induction ops arbitrary: s)
  case (Cons op ops)
  from interest_step_in_sync [OF assms(1,2) Cons.prems, of op] obtain s1 where
    s1: "interest_step (ctl, cid) op s = Inr s1" "in_sync (ctl, cid) s1"
      "ch_fd (fst s1) = ch_fd (fst s)"
      "\<forall>fd. fd \<noteq> ch_fd (fst s) \<longrightarrow> watched_events (snd s1) fd = watched_events (snd s) fd" by blast
  from Cons.IH [OF s1(2)] s1 show ?case by fastforce
qed simp

section \<open>Properties\<close>

text \<open>
  C8: Whatever sequence of enabling, disabling and removing a channel goes through, starting from
  a new channel on a descriptor the kernel does not watch, no operation fails on a kernel that
  serves every correct request, and after it the kernel watches the descriptor with exactly the
  channel's current mask when the channel's index is \<open>kAdded\<close>, and not at all otherwise; other
  descriptors are untouched.
\<close>

theorem interest_list_tracks_channel:
  assumes "epoll_ctl_doc ctl" and "epoll_ctl_serves ctl" and "interest p fd = None"
  shows "\<exists>ch' p'. interest_run (ctl, cid) ops (Channel_new loop fd :: 'cb channel, p)
      = Inr (ch', p') \<and>
    watched_events p' fd = (if ch_index ch' = kAdded then Some (ch_events ch') else None) \<and>
    (\<forall>fd'. fd' \<noteq> fd \<longrightarrow> watched_events p' fd' = watched_events p fd')"
proof -
  have "in_sync (ctl, cid) (Channel_new loop fd :: 'cb channel, p)"
    using assms(3)
    by (auto simp: in_sync_def in_step_def Channel_new_def watched_events_def kNew_def kAdded_def)
  from interest_run_in_sync [OF assms(1,2) this, of ops] show ?thesis
    by (auto simp: in_sync_def Channel_new_def)
qed

definition empty_poller :: poller where
  "empty_poller = \<lparr>channels = Map.empty, interest = Map.empty, ev_size = 16\<rparr>"

theorem interest_list_tracks_channel_witness:
  "\<exists>ch' p'. interest_run (simple_epoll_ctl, 3) [EnableReading, EnableWriting, DisableReading]
      (Channel_new 0 7 :: unit channel, empty_poller) = Inr (ch', p') \<and>
    watched_events p' 7 = (if ch_index ch' = kAdded then Some (ch_events ch') else None)"
proof -
  have none: "interest empty_poller 7 = None" by (simp add: empty_poller_def)
  show ?thesis
    using interest_list_tracks_channel [where 'cb = unit, OF simple_epoll_ctl_doc none, of 3
        "[EnableReading, EnableWriting, DisableReading]" 0] by blast
qed

text \<open>
  Removing a channel takes its descriptor out of the kernel's interest list and marks it
  deleted, whether it was being watched or not. The poller's own table forgets the channel only
  if it had been registered before: removing a channel that was never added leaves its pointer
  in \<open>channels_\<close>.
\<close>

theorem removeChannel_unregisters:
  assumes "epoll_ctl_doc ctl" and "epoll_ctl_serves ctl" and "in_step (ctl, cid) ch p"
  shows "\<exists>ch' p'. Epollpoller_removeChannel (ctl, cid) ch p = Inr (ch', p') \<and>
    interest p' = (interest p)(ch_fd ch := None) \<and> isNoneEvent ch' \<and> ch_index ch' = kDeleted \<and>
    channels p' = (channels p)(ch_fd ch := if ch_index ch = kNew then Some cid else None)"
  by (simp add: removeChannel_eq [OF assms] isNoneEvent_def)

theorem removeChannel_unregisters_witness:
  "\<exists>ch' p'. Epollpoller_removeChannel (simple_epoll_ctl, 3) (Channel_new 0 7 :: unit channel)
      empty_poller = Inr (ch', p') \<and> channels p' 7 = Some 3 \<and> interest p' 7 = None"
proof -
  have "in_step (simple_epoll_ctl, 3) (Channel_new 0 7 :: unit channel) empty_poller"
    by (simp add: in_step_def Channel_new_def empty_poller_def kNew_def kAdded_def)
  from removeChannel_unregisters [OF simple_epoll_ctl_doc this] show ?thesis
    by (auto simp: Channel_new_def kNew_def)
qed

text \<open>
  Disabling everything on a watched channel takes it off the interest list, but doing it
  again puts the descriptor back, with an empty mask, for which the kernel still reports errors
  and hang-ups.
\<close>

theorem disableAll_twice_rewatches:
  assumes "epoll_ctl_doc ctl" and "epoll_ctl_serves ctl" and "in_step (ctl, cid) ch p"
    and "ch_index ch = kAdded"
  shows "\<exists>ch1 p1 ch2 p2.
    interest_step (ctl, cid) DisableAll (ch, p) = Inr (ch1, p1) \<and>
    watched_events p1 (ch_fd ch) = None \<and>
    interest_step (ctl, cid) DisableAll (ch1, p1) = Inr (ch2, p2) \<and>
    watched_events p2 (ch_fd ch) = Some kNoneEvent \<and> ch_index ch2 = kAdded"
proof -
  let ?c = "ch\<lparr>ch_events := 0\<rparr>" and ?p = "p\<lparr>interest := (interest p)(ch_fd ch := None)\<rparr>"
  have st: "in_step (ctl, cid) ?c p" using assms(3) by (simp add: in_step_frame)
  have u1: "interest_step (ctl, cid) DisableAll (ch, p) = Inr (?c\<lparr>ch_index := kDeleted\<rparr>, ?p)"
    using updateChannel_del [OF assms(1) st] assms(4) by (simp add: disableAll_def isNoneEvent_def)
  have st2: "in_step (ctl, cid) (?c\<lparr>ch_index := kDeleted\<rparr>) ?p"
    by (simp add: in_step_def)
  have "interest_step (ctl, cid) DisableAll (?c\<lparr>ch_index := kDeleted\<rparr>, ?p) =
      Inr (?c\<lparr>ch_index := kAdded\<rparr>, ?p\<lparr>interest := (interest ?p)(ch_fd ch \<mapsto> (0, cid))\<rparr>)"
  proof -
    have eq: "?c\<lparr>ch_index := kDeleted, ch_events := kNoneEvent\<rparr> = ?c\<lparr>ch_index := kDeleted\<rparr>"
      by (cases ch) simp
    show ?thesis
      unfolding interest_step.simps disableAll_def eq
      using updateChannel_add_total [OF assms(1,2) st2] by simp
  qed
  with u1 show ?thesis by (simp add: watched_events_def)
qed

theorem disableAll_twice_rewatches_witness:
  "\<exists>ch1 p1 ch2 p2 (ch :: unit channel) p.
    interest_step (simple_epoll_ctl, 3) DisableAll (ch, p) = Inr (ch1, p1) \<and>
    watched_events p1 7 = None \<and>
    interest_step (simple_epoll_ctl, 3) DisableAll (ch1, p1) = Inr (ch2, p2) \<and>
    watched_events p2 7 = Some kNoneEvent"
proof -
  let ?ch = "(Channel_new 0 7 :: unit channel)\<lparr>ch_events := 3, ch_index := kAdded\<rparr>"
  let ?p = "empty_poller\<lparr>interest := [7 \<mapsto> (3, 3)]\<rparr>"
  have "in_step (simple_epoll_ctl, 3) ?ch ?p" by (simp add: in_step_def Channel_new_def)
  from disableAll_twice_rewatches [OF simple_epoll_ctl_doc this] show ?thesis
    by (fastforce simp: Channel_new_def)
qed

text \<open>
  C22: A poll reports to the loop, after the channels already listed, the channels of the events
  the kernel returned, in its order, each with exactly its returned mask in \<open>revents_\<close>, leaves
  all other channels alone, and doubles the event array exactly when the kernel filled it.
\<close>

theorem poll_reports_events:
  assumes "epoll_wait_doc epoll_wait" and "epoll_wait (ev_size p) = Inr evs"
    and "distinct (map snd evs)"
  shows "\<exists>chans' p'. Epollpoller_poll epoll_wait chans p active
      = (chans', p', active @ map snd evs) \<and>
    (\<forall>(e, cid) \<in> set evs. chans' cid = set_revents e (chans cid)) \<and>
    (\<forall>cid. cid \<notin> snd ` set evs \<longrightarrow> chans' cid = chans cid) \<and>
    ev_size p' = (if evs \<noteq> [] \<and> length evs = ev_size p then 2 * ev_size p else ev_size p) \<and>
    length evs \<le> ev_size p \<and> interest p' = interest p \<and> channels p' = channels p"
proof -
  have le: "length evs \<le> ev_size p"
    using assms(1,2) by (auto simp: epoll_wait_doc_def)
  show ?thesis
  proof (cases "evs = []")
    case True
    with assms(2) le show ?thesis by (simp add: Epollpoller_poll_def)
  next
    case False
    have "fillActiveChannels evs chans active =
        (fst (fillActiveChannels evs chans active), active @ map snd evs)"
      using fill_active [of evs chans active] by (metis prod.collapse)
    with False assms(2) le show ?thesis
      using fill_revents [OF assms(3), of _ _ chans active] fill_other [of _ evs chans active]
      by (auto simp: Epollpoller_poll_def split: prod.splits)
  qed
qed

theorem poll_reports_events_witness:
  "\<exists>chans' p'. Epollpoller_poll (\<lambda>n. Inr (if n = 0 then [] else [(1, 4)]))
      (\<lambda>cid. Channel_new 0 (int cid) :: unit channel) empty_poller [] = (chans', p', [4]) \<and>
    chans' 4 = set_revents 1 (Channel_new 0 4)"
proof -
  have "epoll_wait_doc (\<lambda>n. Inr (if n = 0 then [] else [(1, 4)]))"
    by (simp add: epoll_wait_doc_def)
  from poll_reports_events [OF this, of empty_poller "[(1, 4)]"
      "\<lambda>cid. Channel_new 0 (int cid) :: unit channel" "[]"]
  show ?thesis by (auto simp: empty_poller_def)
qed

end
