(* ===== verification/EventLoop.thy ===== *)
theory EventLoop
  imports Poller
begin

text \<open>
  The event loop of \<open>include/net/EventLoop.h\<close> and \<open>src/net/EventLoop.cc\<close>: first its
  operations as functions on the loop's state, then the loop itself as the code runs it on one
  thread, and last the protocol by which other threads queue work and wake the loop, as a step
  relation over interleavings.
\<close>

section \<open>State\<close>

text \<open>
  A functor is a value of the type parameter \<open>'f\<close>, a callback of \<open>'cb\<close>. \<open>el_efd\<close> is the
  counter of the kernel's eventfd; a null poller pointer is \<open>None\<close>.
\<close>

record ('f, 'cb) evloop =
  el_looping :: bool
  el_quit :: bool
  el_calling :: bool
  el_thread :: nat
  el_poller :: "poller option"
  el_wakeupfd :: int
  el_wakeup :: "'cb channel"
  el_efd :: "64 word"
  el_active :: "nat list"
  el_pollTime :: timestamp
  el_pending :: "'f list"

text \<open>
  \<open>write\<close> on an eventfd adds to the counter or fails; \<open>read\<close> returns the counter and the
  value it leaves, or fails.
\<close>

type_synonym efd_write_fn = "64 word \<Rightarrow> 64 word \<Rightarrow> errno + 64 word"
type_synonym efd_read_fn = "64 word \<Rightarrow> errno + 64 word \<times> 64 word"

section \<open>Operations\<close>

definition creatEventfd :: "errno + int \<Rightarrow> int result" where
  "creatEventfd eventfd = (case eventfd of Inl e \<Rightarrow> Inl Fatal_exit | Inr fd \<Rightarrow> Inr fd)"

definition EventLoop_updateChannel ::
  "epoll_ctl_fn \<times> nat \<Rightarrow> 'cb channel \<Rightarrow> ('f, 'cb) evloop \<Rightarrow>
     ('cb channel \<times> ('f, 'cb) evloop) result" where
  "EventLoop_updateChannel k ch l =
     (case el_poller l of
        None \<Rightarrow> Inl Null_dereference
      | Some p \<Rightarrow> rbind (Epollpoller_updateChannel k ch p)
                    (\<lambda>(ch', p'). Inr (ch', l\<lparr>el_poller := Some p'\<rparr>)))"

definition EventLoop_removeChannel ::
  "epoll_ctl_fn \<times> nat \<Rightarrow> 'cb channel \<Rightarrow> ('f, 'cb) evloop \<Rightarrow>
     ('cb channel \<times> ('f, 'cb) evloop) result" where
  "EventLoop_removeChannel k ch l =
     (case el_poller l of
        None \<Rightarrow> Inl Null_dereference
      | Some p \<Rightarrow> rbind (Epollpoller_removeChannel k ch p)
                    (\<lambda>(ch', p'). Inr (ch', l\<lparr>el_poller := Some p'\<rparr>)))"

text \<open>
  A timer that fires once after \<open>sec\<close> seconds: its descriptor, -1 when \<open>timerfd_create\<close> fails, and
  the descriptor, seconds and nanoseconds of the call of \<open>timerfd_settime\<close>, whose result is ignored.
\<close>

definition createTimerfd :: "errno + int \<Rightarrow> int \<Rightarrow> int \<times> (int \<times> int \<times> int)" where
  "createTimerfd timerfd_create sec =
     (let tfd = (case timerfd_create of Inl e \<Rightarrow> - 1 | Inr fd \<Rightarrow> fd) in (tfd, (tfd, sec, 0)))"

text \<open>
  The constructor: the poller and the eventfd are created, a second loop on the same thread is
  fatal, and the wakeup channel is registered for reading. \<open>t_loop\<close> is the thread's
  \<open>t_loopInThisThread\<close>; the new value is returned.
\<close>

definition EventLoop_new ::
  "bool \<Rightarrow> errno + int \<Rightarrow> errno + int \<Rightarrow> epoll_ctl_fn \<times> nat \<Rightarrow> 'cb \<Rightarrow> nat \<Rightarrow> nat \<Rightarrow> nat option \<Rightarrow>
     (('f, 'cb) evloop \<times> nat option) result" where
  "EventLoop_new use_poll epoll_create1 eventfd k handleRead_cb self tid t_loop =
     rbind (newDefaultPoller use_poll epoll_create1) (\<lambda>poller.
     rbind (creatEventfd eventfd) (\<lambda>fd.
     let l = \<lparr>el_looping = False, el_quit = False, el_calling = False, el_thread = tid,
              el_poller = poller, el_wakeupfd = fd, el_wakeup = Channel_new self fd,
              el_efd = 0, el_active = [], el_pollTime = 0, el_pending = []\<rparr>
     in if t_loop \<noteq> None then Inl Fatal_exit
        else
          let ch = setReadCallback handleRead_cb (el_wakeup l)
          in rbind (enableReading (EventLoop_updateChannel k) ch l)
               (\<lambda>(ch', l'). Inr (l'\<lparr>el_wakeup := ch'\<rparr>, Some self))))"

text \<open>The destructor takes the wakeup channel off the poller and clears the thread's loop.\<close>

definition EventLoop_delete ::
  "epoll_ctl_fn \<times> nat \<Rightarrow> ('f, 'cb) evloop \<Rightarrow> (('f, 'cb) evloop \<times> nat option) result" where
  "EventLoop_delete k l =
     rbind (EventLoop_removeChannel k (el_wakeup l) l)
       (\<lambda>(ch, l'). Inr (l'\<lparr>el_wakeup := ch\<rparr>, None))"

definition isInLoopThread :: "nat \<Rightarrow> ('f, 'cb) evloop \<Rightarrow> bool" where
  "isInLoopThread tid l \<longleftrightarrow> el_thread l = tid"

definition pollReturnTime :: "('f, 'cb) evloop \<Rightarrow> timestamp" where
  "pollReturnTime l = el_pollTime l"

definition EventLoop_handleRead :: "efd_read_fn \<Rightarrow> ('f, 'cb) evloop \<Rightarrow> ('f, 'cb) evloop" where
  "EventLoop_handleRead efd_read l =
     (case efd_read (el_efd l) of Inl e \<Rightarrow> l | Inr (v, rest) \<Rightarrow> l\<lparr>el_efd := rest\<rparr>)"

definition wakeup :: "efd_write_fn \<Rightarrow> ('f, 'cb) evloop \<Rightarrow> ('f, 'cb) evloop" where
  "wakeup efd_write l =
     (case efd_write (el_efd l) 1 of Inl e \<Rightarrow> l | Inr c \<Rightarrow> l\<lparr>el_efd := c\<rparr>)"

text \<open>\<open>tid\<close> is the thread that calls.\<close>

definition EventLoop_quit :: "efd_write_fn \<Rightarrow> nat \<Rightarrow> ('f, 'cb) evloop \<Rightarrow> ('f, 'cb) evloop" where
  "EventLoop_quit efd_write tid l =
     (let l1 = l\<lparr>el_quit := True\<rparr>
      in if \<not> isInLoopThread tid l1 then wakeup efd_write l1 else l1)"

text \<open>The locked part of \<open>queueInLoop\<close>, and the whole.\<close>

definition push_functor :: "'f \<Rightarrow> ('f, 'cb) evloop \<Rightarrow> ('f, 'cb) evloop" where
  "push_functor cb l = l\<lparr>el_pending := el_pending l @ [cb]\<rparr>"

definition queueInLoop ::
  "efd_write_fn \<Rightarrow> nat \<Rightarrow> 'f \<Rightarrow> ('f, 'cb) evloop \<Rightarrow> ('f, 'cb) evloop" where
  "queueInLoop efd_write tid cb l =
     (let l1 = push_functor cb l
      in if \<not> isInLoopThread tid l1 \<or> el_calling l1 then wakeup efd_write l1 else l1)"

section \<open>The loop of a channel\<close>

text \<open>Operations on a channel through its loop are those on the loop's poller.\<close>

definition loop_in_step :: "epoll_ctl_fn \<times> nat \<Rightarrow> 'cb channel \<Rightarrow> ('f, 'cb) evloop \<Rightarrow> bool" where
  "loop_in_step k ch l \<longleftrightarrow> (case el_poller l of None \<Rightarrow> False | Some p \<Rightarrow> in_step k ch p)"

definition loop_watched :: "('f, 'cb) evloop \<Rightarrow> int \<Rightarrow> flags option" where
  "loop_watched l fd = (case el_poller l of None \<Rightarrow> None | Some p \<Rightarrow> watched_events p fd)"

lemma loop_updateE:
  assumes "EventLoop_updateChannel k ch l = Inr (ch', l')"
  obtains p p' where "el_poller l = Some p" and "l' = l\<lparr>el_poller := Some p'\<rparr>"
    and "Epollpoller_updateChannel k ch p = Inr (ch', p')"
  using assms that by (auto simp: EventLoop_updateChannel_def rbind_Inr_iff split: option.splits)

lemma loop_update_frame:
  assumes "EventLoop_updateChannel k ch l = Inr (ch', l')"
  shows "el_pending l' = el_pending l" "el_thread l' = el_thread l" "el_calling l' = el_calling l"
    "el_quit l' = el_quit l"
  using assms by (auto elim!: loop_updateE)

text \<open>The loop, too, provides the interface the channels rely on.\<close>

interpretation lo: channel_owner "\<lambda>k. epoll_ctl_doc (fst k)" loop_watched loop_in_step
  EventLoop_updateChannel
proof unfold_locales
  fix k :: "epoll_ctl_fn \<times> nat" and ch ch' :: "'cb channel" and l l' :: "('f, 'cb) evloop"
    and e fd and e' :: flags
  show "EventLoop_updateChannel k ch l = Inr (ch', l') \<Longrightarrow> ch' = ch\<lparr>ch_index := ch_index ch'\<rparr>"
    by (auto elim!: loop_updateE intro: updateChannel_channel)
  show "loop_in_step k ch l \<Longrightarrow> EventLoop_updateChannel k ch l = Inl e \<Longrightarrow> e = Fatal_exit"
    using updateChannel_fault [of k ch _ e]
    by (auto simp: EventLoop_updateChannel_def loop_in_step_def rbind_Inl_iff
        split: option.splits)
  show "loop_in_step k (ch\<lparr>ch_events := e'\<rparr>) l = loop_in_step k ch l"
    by (auto simp: loop_in_step_def in_step_def split: option.splits)
  show "loop_in_step k ch' l'"
    if "epoll_ctl_doc (fst k)" "loop_in_step k ch l" "EventLoop_updateChannel k ch l = Inr (ch', l')"
    using that po.upd_attached [of k ch]
    by (auto elim!: loop_updateE simp: loop_in_step_def)
  show "loop_watched l' (ch_fd ch) = Some (ch_events ch) \<or>
      ch_events ch = 0 \<and> loop_watched l' (ch_fd ch) = None"
    if doc: "epoll_ctl_doc (fst k)" and st: "loop_in_step k ch l"
      and lup: "EventLoop_updateChannel k ch l = Inr (ch', l')"
  proof -
    obtain p p' where p: "el_poller l = Some p" "l' = l\<lparr>el_poller := Some p'\<rparr>"
      and up: "Epollpoller_updateChannel k ch p = Inr (ch', p')"
      using loop_updateE [OF lup] .
    with st po.upd_watched [OF doc _ up] show ?thesis
      by (simp add: loop_in_step_def loop_watched_def)
  qed
  show "loop_watched l' fd = loop_watched l fd"
    if "epoll_ctl_doc (fst k)" "EventLoop_updateChannel k ch l = Inr (ch', l')" "fd \<noteq> ch_fd ch"
    using that po.upd_frame [of k ch]
    by (auto elim!: loop_updateE simp: loop_watched_def)
qed

section \<open>A program around a loop\<close>

text \<open>
  The functors and callbacks act on the whole program state \<open>'s\<close>, of which the loop and the
  channels are parts: \<open>h_loop\<close> reads the loop and \<open>h_upd\<close> changes it, \<open>h_chan\<close> and
  \<open>h_chans\<close> do so for the channels.
\<close>

record ('s, 'f, 'cb) host =
  h_loop :: "'s \<Rightarrow> ('f, 'cb) evloop"
  h_upd :: "(('f, 'cb) evloop \<Rightarrow> ('f, 'cb) evloop) \<Rightarrow> 's \<Rightarrow> 's"
  h_chan :: "'s \<Rightarrow> nat \<Rightarrow> 'cb channel"
  h_chans :: "(nat \<Rightarrow> 'cb channel) \<Rightarrow> 's \<Rightarrow> 's"
  h_alive :: "'s \<Rightarrow> nat \<Rightarrow> bool"
  h_functor :: "'f \<Rightarrow> 's \<Rightarrow> 's result"
  h_callback :: "'cb \<Rightarrow> 's \<Rightarrow> 's result"
  h_readback :: "'cb \<Rightarrow> timestamp \<Rightarrow> 's \<Rightarrow> 's result"

definition runInLoop ::
  "('s, 'f, 'cb) host \<Rightarrow> efd_write_fn \<Rightarrow> nat \<Rightarrow> 'f \<Rightarrow> 's \<Rightarrow> 's result" where
  "runInLoop H efd_write tid cb s =
     (if isInLoopThread tid (h_loop H s) then h_functor H cb s
      else Inr (h_upd H (queueInLoop efd_write tid cb) s))"

fun run_functors :: "('f \<Rightarrow> 's \<Rightarrow> 's result) \<Rightarrow> 'f list \<Rightarrow> 's \<Rightarrow> 's result" where
  "run_functors run [] s = Inr s"
| "run_functors run (f # fs) s = rbind (run f s) (run_functors run fs)"

definition doPendingFunctors :: "('s, 'f, 'cb) host \<Rightarrow> 's \<Rightarrow> 's result" where
  "doPendingFunctors H s =
     (let s1 = h_upd H (\<lambda>l. l\<lparr>el_calling := True\<rparr>) s;
          functors = el_pending (h_loop H s1);
          s2 = h_upd H (\<lambda>l. l\<lparr>el_pending := []\<rparr>) s1
      in rbind (run_functors (h_functor H) functors s2)
           (\<lambda>s3. Inr (h_upd H (\<lambda>l. l\<lparr>el_calling := False\<rparr>) s3)))"

fun handle_active ::
  "('s, 'f, 'cb) host \<Rightarrow> timestamp \<Rightarrow> nat list \<Rightarrow> 's \<Rightarrow> 's result" where
  "handle_active H t [] s = Inr s"
| "handle_active H t (cid # cids) s =
     rbind (handleEvent (h_alive H) (h_callback H) (h_readback H) (\<lambda>s. h_chan H s cid) t s)
       (handle_active H t cids)"

text \<open>One pass of the \<open>while\<close> loop, given what \<open>epoll_wait\<close> and the clock answer.\<close>

definition loop_pass ::
  "('s, 'f, 'cb) host \<Rightarrow> epoll_wait_fn \<times> timestamp \<Rightarrow> 's \<Rightarrow> 's result" where
  "loop_pass H poll s =
     (case poll of (epoll_wait, now) \<Rightarrow>
      let s1 = h_upd H (\<lambda>l. l\<lparr>el_active := []\<rparr>) s in
      case el_poller (h_loop H s1) of
        None \<Rightarrow> Inl Null_dereference
      | Some p \<Rightarrow>
         let (chans, p', active) = Epollpoller_poll epoll_wait (h_chan H s1) p [];
             s2 = h_upd H (\<lambda>l. l\<lparr>el_poller := Some p', el_active := active, el_pollTime := now\<rparr>)
                    (h_chans H chans s1)
         in rbind (handle_active H now active s2) (doPendingFunctors H))"

text \<open>
  The loop over the answers of a number of polls. The second component says whether the loop
  has ended; if not, it waits in the next poll.
\<close>

fun loop_while ::
  "('s, 'f, 'cb) host \<Rightarrow> (epoll_wait_fn \<times> timestamp) list \<Rightarrow> 's \<Rightarrow> ('s \<times> bool) result" where
  "loop_while H [] s =
     (if el_quit (h_loop H s) then Inr (h_upd H (\<lambda>l. l\<lparr>el_looping := False\<rparr>) s, True)
      else Inr (s, False))"
| "loop_while H (poll # polls) s =
     (if el_quit (h_loop H s) then Inr (h_upd H (\<lambda>l. l\<lparr>el_looping := False\<rparr>) s, True)
      else rbind (loop_pass H poll s) (loop_while H polls))"

definition EventLoop_loop ::
  "('s, 'f, 'cb) host \<Rightarrow> (epoll_wait_fn \<times> timestamp) list \<Rightarrow> 's \<Rightarrow> ('s \<times> bool) result" where
  "EventLoop_loop H polls s =
     loop_while H polls (h_upd H (\<lambda>l. l\<lparr>el_looping := True, el_quit := False\<rparr>) s)"

section \<open>The kernel's eventfd\<close>

text \<open>
  \<open>eventfd(2)\<close>: a write of 1 adds 1, or fails when the counter is at its maximum; a read
  succeeds for a positive counter and resets it.
\<close>

definition efd_write_doc :: "efd_write_fn \<Rightarrow> bool" where
  "efd_write_doc w \<longleftrightarrow>
     (\<forall>c. case w c 1 of Inl e \<Rightarrow> c \<noteq> 0 | Inr c' \<Rightarrow> unat c' = unat c + 1)"

definition efd_read_doc :: "efd_read_fn \<Rightarrow> bool" where
  "efd_read_doc r \<longleftrightarrow>
     (\<forall>c. case r c of Inl e \<Rightarrow> c = 0 | Inr (v, c') \<Rightarrow> c \<noteq> 0 \<and> v = c \<and> c' = 0)"

definition simple_efd_write :: efd_write_fn where
  "simple_efd_write c v =
     (if unat c + unat v < 18446744073709551615 then Inr (c + v) else Inl 11)"

lemma simple_efd_write_doc: "efd_write_doc simple_efd_write"
  by (auto simp: efd_write_doc_def simple_efd_write_def unat_add_size)

lemma wakeup_readable: "efd_write_doc w \<Longrightarrow> el_efd (wakeup w l) \<noteq> 0"
  by (auto simp: efd_write_doc_def wakeup_def split: sum.splits dest: spec [of _ "el_efd l"])

lemma wakeup_frame [simp]:
  "el_pending (wakeup w l) = el_pending l" "el_calling (wakeup w l) = el_calling l"
  "el_thread (wakeup w l) = el_thread l" "el_quit (wakeup w l) = el_quit l"
  "el_poller (wakeup w l) = el_poller l" "el_looping (wakeup w l) = el_looping l"
  by (auto simp: wakeup_def split: sum.splits)

lemma queueInLoop_frame [simp]:
  "el_pending (queueInLoop w tid f l) = el_pending l @ [f]"
  "el_calling (queueInLoop w tid f l) = el_calling l"
  "el_thread (queueInLoop w tid f l) = el_thread l"
  "el_quit (queueInLoop w tid f l) = el_quit l"
  "el_poller (queueInLoop w tid f l) = el_poller l"
  by (auto simp: queueInLoop_def push_functor_def Let_def)

section \<open>Laws of a program around a loop\<close>

text \<open>
  The loop is a part of the program state that \<open>h_upd\<close> changes and nothing else does on the
  way: what the loop's own control flow relies on.
\<close>

locale loop_host =
  fixes H :: "('s, 'f, 'cb) host"
  assumes loop_upd: "h_loop H (h_upd H f s) = f (h_loop H s)"
    and upd_upd: "h_upd H g (h_upd H f s) = h_upd H (\<lambda>l. g (f l)) s"
begin

text \<open>
  For functors that record themselves in \<open>log\<close>: one call of \<open>doPendingFunctors\<close> performs
  exactly the functors that were pending, in the order they were queued, each once; what they
  queue themselves stays pending.
\<close>

lemma run_functors_done:
  assumes "\<And>f s s'. h_functor H f s = Inr s' \<Longrightarrow> log s' = log s @ [f]"
    and "run_functors (h_functor H) fs s = Inr s'"
  shows "log s' = log s @ fs"
  using assms(2)
proof (induction fs arbitrary: s)
  case (Cons f fs)
  then obtain u where "h_functor H f s = Inr u" "run_functors (h_functor H) fs u = Inr s'"
    by (auto simp: rbind_Inr_iff)
  with Cons.IH assms(1) show ?case by fastforce
qed simp

lemma doPendingFunctors_done:
  assumes "\<And>f s s'. h_functor H f s = Inr s' \<Longrightarrow> log s' = log s @ [f]"
    and "\<And>g s. log (h_upd H g s) = log s"
    and "doPendingFunctors H s = Inr s'"
  shows "log s' = log s @ el_pending (h_loop H s) \<and> \<not> el_calling (h_loop H s')"
proof -
  let ?s1 = "h_upd H (\<lambda>l. l\<lparr>el_calling := True\<rparr>) s"
  let ?s2 = "h_upd H (\<lambda>l. l\<lparr>el_pending := []\<rparr>) ?s1"
  obtain u where u: "run_functors (h_functor H) (el_pending (h_loop H ?s1)) ?s2 = Inr u"
    and s': "s' = h_upd H (\<lambda>l. l\<lparr>el_calling := False\<rparr>) u"
    using assms(3) by (auto simp: doPendingFunctors_def Let_def rbind_Inr_iff)
  from run_functors_done [of log, OF assms(1) u] show ?thesis
    by (simp add: s' assms(2) loop_upd)
qed

lemma loop_forgets_quit:
  "EventLoop_loop H polls (h_upd H (\<lambda>l. l\<lparr>el_quit := q\<rparr>) s) = EventLoop_loop H polls s"
  by (simp add: EventLoop_loop_def upd_upd)

lemma loop_stops_on_quit:
  "el_quit (h_loop H s) \<Longrightarrow> \<exists>s'. loop_while H polls s = Inr (s', True)"
  by (cases polls) simp_all

end

section \<open>The wakeup protocol\<close>

text \<open>
  Where the loop's thread is: before \<open>loop()\<close>, waiting in the poll, handling events, between
  setting the flag and taking the pending functors, running them, at the loop condition, or out
  of the loop.
\<close>

datatype loop_pc = Starting | At_poll | Handling | Calling | Running | Checking | Stopped

text \<open>
  \<open>ls_owed\<close> counts the calls of other threads that have changed the loop under its lock and
  have not yet written to the eventfd. The histories \<open>ls_queued\<close> and \<open>ls_done\<close> list the
  functors queued and performed; \<open>ls_early\<close> records that the loop's own thread queued a
  functor before it entered the loop.
\<close>

record ('f, 'cb) loop_sys =
  ls_loop :: "('f, 'cb) evloop"
  ls_pc :: loop_pc
  ls_batch :: "'f list"
  ls_owed :: nat
  ls_queued :: "'f list"
  ls_done :: "'f list"
  ls_early :: bool

definition loop_sys_init :: "('f, 'cb) loop_sys \<Rightarrow> bool" where
  "loop_sys_init s \<longleftrightarrow>
     ls_pc s = Starting \<and> ls_batch s = [] \<and> ls_owed s = 0 \<and> ls_queued s = [] \<and> ls_done s = [] \<and>
     \<not> ls_early s \<and> el_pending (ls_loop s) = [] \<and> \<not> el_calling (ls_loop s) \<and>
     \<not> el_quit (ls_loop s)"

inductive loop_sys_step ::
  "efd_write_fn \<Rightarrow> efd_read_fn \<Rightarrow> ('f, 'cb) loop_sys \<Rightarrow> ('f, 'cb) loop_sys \<Rightarrow> bool"
  for w :: efd_write_fn and r :: efd_read_fn where
  other_push:
    "loop_sys_step w r s (s\<lparr>ls_loop := push_functor f (ls_loop s), ls_owed := Suc (ls_owed s),
       ls_queued := ls_queued s @ [f]\<rparr>)"
| other_quit:
    "loop_sys_step w r s (s\<lparr>ls_loop := (ls_loop s)\<lparr>el_quit := True\<rparr>, ls_owed := Suc (ls_owed s)\<rparr>)"
| other_wakeup:
    "ls_owed s = Suc n \<Longrightarrow>
     loop_sys_step w r s (s\<lparr>ls_loop := wakeup w (ls_loop s), ls_owed := n\<rparr>)"
| own_queue:
    "ls_pc s \<in> {Starting, Handling, Running} \<Longrightarrow> tid = el_thread (ls_loop s) \<Longrightarrow>
     loop_sys_step w r s (s\<lparr>ls_loop := queueInLoop w tid f (ls_loop s),
       ls_queued := ls_queued s @ [f], ls_early := (ls_early s \<or> ls_pc s = Starting)\<rparr>)"
| own_quit:
    "ls_pc s \<in> {Handling, Running} \<Longrightarrow> tid = el_thread (ls_loop s) \<Longrightarrow>
     loop_sys_step w r s (s\<lparr>ls_loop := EventLoop_quit w tid (ls_loop s)\<rparr>)"
| enter:
    "ls_pc s = Starting \<Longrightarrow>
     loop_sys_step w r s (s\<lparr>ls_loop := (ls_loop s)\<lparr>el_looping := True, el_quit := False\<rparr>,
       ls_pc := Checking\<rparr>)"
| poll_returns:
    "ls_pc s = At_poll \<Longrightarrow> loop_sys_step w r s (s\<lparr>ls_pc := Handling\<rparr>)"
| read_wakeup:
    "ls_pc s = Handling \<Longrightarrow>
     loop_sys_step w r s (s\<lparr>ls_loop := EventLoop_handleRead r (ls_loop s)\<rparr>)"
| set_calling:
    "ls_pc s = Handling \<Longrightarrow>
     loop_sys_step w r s (s\<lparr>ls_loop := (ls_loop s)\<lparr>el_calling := True\<rparr>, ls_pc := Calling\<rparr>)"
| take_pending:
    "ls_pc s = Calling \<Longrightarrow>
     loop_sys_step w r s (s\<lparr>ls_batch := el_pending (ls_loop s),
       ls_loop := (ls_loop s)\<lparr>el_pending := []\<rparr>, ls_pc := Running\<rparr>)"
| perform:
    "ls_pc s = Running \<Longrightarrow> ls_batch s = f # fs \<Longrightarrow>
     loop_sys_step w r s (s\<lparr>ls_batch := fs, ls_done := ls_done s @ [f]\<rparr>)"
| clear_calling:
    "ls_pc s = Running \<Longrightarrow> ls_batch s = [] \<Longrightarrow>
     loop_sys_step w r s (s\<lparr>ls_loop := (ls_loop s)\<lparr>el_calling := False\<rparr>, ls_pc := Checking\<rparr>)"
| again:
    "ls_pc s = Checking \<Longrightarrow> \<not> el_quit (ls_loop s) \<Longrightarrow>
     loop_sys_step w r s (s\<lparr>ls_pc := At_poll\<rparr>)"
| stop:
    "ls_pc s = Checking \<Longrightarrow> el_quit (ls_loop s) \<Longrightarrow>
     loop_sys_step w r s (s\<lparr>ls_loop := (ls_loop s)\<lparr>el_looping := False\<rparr>, ls_pc := Stopped\<rparr>)"

text \<open>A wakeup is on its way, or the eventfd is readable.\<close>

definition wake_pending :: "('f, 'cb) loop_sys \<Rightarrow> bool" where
  "wake_pending s \<longleftrightarrow> el_efd (ls_loop s) \<noteq> 0 \<or> 0 < ls_owed s"

definition loop_sys_inv :: "('f, 'cb) loop_sys \<Rightarrow> bool" where
  "loop_sys_inv s \<longleftrightarrow>
     (el_calling (ls_loop s) \<longleftrightarrow> ls_pc s \<in> {Calling, Running}) \<and>
     (ls_batch s \<noteq> [] \<longrightarrow> ls_pc s = Running) \<and>
     ls_queued s = ls_done s @ ls_batch s @ el_pending (ls_loop s) \<and>
     (\<not> ls_early s \<longrightarrow> ls_pc s \<in> {Starting, Running, Checking, At_poll} \<longrightarrow>
        el_pending (ls_loop s) \<noteq> [] \<longrightarrow> wake_pending s) \<and>
     (ls_pc s = At_poll \<longrightarrow> el_quit (ls_loop s) \<longrightarrow> wake_pending s)"

lemma loop_sys_inv_init: "loop_sys_init s \<Longrightarrow> loop_sys_inv s"
  by (simp add: loop_sys_init_def loop_sys_inv_def)

lemmas loop_sys_defs = loop_sys_inv_def wake_pending_def push_functor_def queueInLoop_def
  isInLoopThread_def EventLoop_quit_def EventLoop_handleRead_def Let_def

lemma loop_sys_inv_step:
  assumes "efd_write_doc w"
  shows "loop_sys_step w r s t \<Longrightarrow> loop_sys_inv s \<Longrightarrow> loop_sys_inv t"
proof (induction rule: loop_sys_step.induct)
  case (other_push s f)
  then show ?case by (simp add: loop_sys_defs)
next
  case (other_quit s)
  then show ?case by (simp add: loop_sys_defs)
next
  case (other_wakeup s n)
  then show ?case using wakeup_readable [OF assms, of "ls_loop s"] by (simp add: loop_sys_defs)
next
  case (own_queue s tid f)
  then show ?case
    using wakeup_readable [OF assms, of "push_functor f (ls_loop s)"]
    by (cases "ls_pc s") (simp_all add: loop_sys_defs)
next
  case (own_quit s tid)
  then show ?case by (cases "ls_pc s") (simp_all add: loop_sys_defs)
next
  case (read_wakeup s)
  then show ?case by (auto simp: loop_sys_defs split: sum.splits)
qed (auto simp: loop_sys_defs)

interpretation lw: invariant_machine "\<lambda>k. efd_write_doc (fst k)" loop_sys_init
  "\<lambda>k. loop_sys_step (fst k) (snd k)" loop_sys_inv
  by unfold_locales (auto intro: loop_sys_inv_init loop_sys_inv_step)

section \<open>Properties\<close>

text \<open>
  C4: No wakeup is lost. In every interleaving of the loop's thread with threads that queue
  functors or ask it to quit, when the loop is about to wait in the poll while a functor is
  pending or a quit is requested, the eventfd is readable or the thread that asked has yet to
  write to it, so the wait ends; the only exception is a functor that the loop's own thread
  queued before it called \<open>loop()\<close>.
\<close>

theorem no_lost_wakeup:
  assumes "efd_write_doc w" and "reachable loop_sys_init (loop_sys_step w r) s"
    and "ls_pc s = At_poll"
    and "el_pending (ls_loop s) \<noteq> [] \<and> \<not> ls_early s \<or> el_quit (ls_loop s)"
  shows "el_efd (ls_loop s) \<noteq> 0 \<or> 0 < ls_owed s"
proof -
  have "loop_sys_inv s"
    using lw.reachable_inv [of "(w, r)" s] assms(1,2) by simp
  with assms(3,4) show ?thesis by (auto simp: loop_sys_inv_def wake_pending_def)
qed

text \<open>A loop for the witnesses.\<close>

definition idle_loop :: "(nat, unit) evloop" where
  "idle_loop = \<lparr>el_looping = False, el_quit = False, el_calling = False, el_thread = 1,
     el_poller = Some empty_poller, el_wakeupfd = 5, el_wakeup = Channel_new 0 5, el_efd = 0,
     el_active = [], el_pollTime = 0, el_pending = []\<rparr>"

definition idle_sys :: "(nat, unit) loop_sys" where
  "idle_sys = \<lparr>ls_loop = idle_loop, ls_pc = Starting, ls_batch = [], ls_owed = 0,
     ls_queued = [], ls_done = [], ls_early = False\<rparr>"

lemma idle_sys_reachable: "reachable loop_sys_init step idle_sys"
  by (rule reach_init) (simp add: loop_sys_init_def idle_sys_def idle_loop_def)

definition entered :: "(nat, unit) loop_sys \<Rightarrow> (nat, unit) loop_sys" where
  "entered s = s\<lparr>ls_loop := (ls_loop s)\<lparr>el_looping := True, el_quit := False\<rparr>, ls_pc := Checking\<rparr>"

theorem no_lost_wakeup_witness:
  "\<exists>s :: (nat, unit) loop_sys. reachable loop_sys_init (loop_sys_step simple_efd_write (\<lambda>c. Inr (c, 0))) s \<and>
    ls_pc s = At_poll \<and> el_pending (ls_loop s) = [42] \<and> (el_efd (ls_loop s) \<noteq> 0 \<or> 0 < ls_owed s)"
proof -
  let ?a = "entered idle_sys"
  let ?b = "?a\<lparr>ls_pc := At_poll\<rparr>"
  let ?c = "?b\<lparr>ls_loop := push_functor 42 (ls_loop ?b), ls_owed := Suc (ls_owed ?b),
    ls_queued := ls_queued ?b @ [42]\<rparr>"
  let ?step = "loop_sys_step simple_efd_write (\<lambda>c. Inr (c, 0))"
  have "?step idle_sys ?a"
    unfolding entered_def by (rule enter) (simp add: idle_sys_def)
  moreover have "?step ?a ?b"
    by (rule again) (simp_all add: entered_def)
  moreover have "?step ?b ?c" by (rule other_push)
  ultimately have "is_run ?step idle_sys [?a, ?b, ?c]" by simp
  then have r: "reachable loop_sys_init ?step ?c"
    by (rule reachable_run [OF idle_sys_reachable]) simp
  have c: "ls_pc ?c = At_poll" "el_pending (ls_loop ?c) = [42]" "\<not> ls_early ?c"
    by (simp_all add: entered_def idle_sys_def idle_loop_def push_functor_def)
  have "el_pending (ls_loop ?c) \<noteq> [] \<and> \<not> ls_early ?c \<or> el_quit (ls_loop ?c)"
    unfolding c(2) using c(3) by simp
  note w = no_lost_wakeup [OF simple_efd_write_doc r c(1) this]
  show ?thesis by (intro exI [of _ ?c] conjI r c(1,2) w)
qed

text \<open>
  C20: Queued functors are performed in the order they were queued, each at most once and none
  skipped: at any time the functors queued so far are those performed, then those the loop has
  taken to run, then those still pending.
\<close>

theorem functors_fifo_exactly_once:
  assumes "efd_write_doc w" and "reachable loop_sys_init (loop_sys_step w r) s"
  shows "ls_queued s = ls_done s @ ls_batch s @ el_pending (ls_loop s)"
  using lw.reachable_inv [of "(w, r)" s] assms by (simp add: loop_sys_inv_def)

theorem functors_fifo_exactly_once_witness:
  "ls_queued (idle_sys\<lparr>ls_loop := push_functor 7 idle_loop, ls_owed := 1, ls_queued := [7]\<rparr>) = [7] @ []"
proof -
  let ?t = "idle_sys\<lparr>ls_loop := push_functor 7 (ls_loop idle_sys), ls_owed := Suc (ls_owed idle_sys),
    ls_queued := ls_queued idle_sys @ [7]\<rparr>"
  let ?step = "loop_sys_step simple_efd_write (\<lambda>c. Inr (c, 0))"
  have "reachable loop_sys_init ?step ?t"
    by (rule reach_step [OF idle_sys_reachable]) (rule other_push)
  from functors_fifo_exactly_once [OF simple_efd_write_doc this] show ?thesis
    by (simp add: idle_sys_def idle_loop_def push_functor_def)
qed

text \<open>
  The exception is real: if the loop's own thread queues a functor before it enters
  \<open>loop()\<close>, as a thread-init callback may, no wakeup is written, and the loop can reach its
  first poll with the functor pending, nothing readable and no wakeup under way.
\<close>

theorem early_functor_sleeps:
  "\<exists>s :: (nat, unit) loop_sys. reachable loop_sys_init (loop_sys_step w r) s \<and>
    ls_pc s = At_poll \<and> el_pending (ls_loop s) \<noteq> [] \<and>
    el_efd (ls_loop s) = 0 \<and> ls_owed s = 0"
proof -
  let ?a = "idle_sys\<lparr>ls_loop := queueInLoop w 1 42 (ls_loop idle_sys),
    ls_queued := ls_queued idle_sys @ [42], ls_early := (ls_early idle_sys \<or> ls_pc idle_sys = Starting)\<rparr>"
  let ?b = "entered ?a"
  let ?c = "?b\<lparr>ls_pc := At_poll\<rparr>"
  let ?step = "loop_sys_step w r"
  have "?step idle_sys ?a"
    by (rule own_queue) (simp_all add: idle_sys_def idle_loop_def)
  moreover have "?step ?a ?b"
    unfolding entered_def by (rule enter) (simp add: idle_sys_def)
  moreover have "?step ?b ?c"
    by (rule again) (simp_all add: entered_def)
  ultimately have "is_run ?step idle_sys [?a, ?b, ?c]" by simp
  then have "reachable loop_sys_init ?step ?c"
    by (rule reachable_run [OF idle_sys_reachable]) simp
  moreover have "el_efd (ls_loop ?c) = 0"
    by (simp add: entered_def idle_sys_def idle_loop_def queueInLoop_def push_functor_def
        isInLoopThread_def)
  moreover have "ls_pc ?c = At_poll" "el_pending (ls_loop ?c) \<noteq> []" "ls_owed ?c = 0"
    by (simp_all add: entered_def idle_sys_def idle_loop_def)
  ultimately show ?thesis by (intro exI [of _ ?c] conjI)
qed

end
