(* ===== verification/Sockets.thy ===== *)
theory Sockets
  imports Net_Prelude
begin

unbundle bit_operations_syntax

text \<open>
  Addresses and sockets: \<open>include/net/InetAddress.h\<close>, \<open>src/net/InetAddress.cc\<close>,
  \<open>include/net/Socket.h\<close> and \<open>src/net/Socket.cc\<close>. A \<open>Socket\<close> is the wrapper's descriptor
  with the state the kernel keeps for it; what the kernel answers to a call is a parameter.
\<close>

section \<open>Addresses\<close>

text \<open>
  The port is the 16-bit word in memory on a little-endian host, the address its four bytes in
  memory order, which is network order.
\<close>

type_synonym octets = "8 word \<times> 8 word \<times> 8 word \<times> 8 word"

record InetAddress =
  sin_family :: "16 word"
  sin_port :: "16 word"
  sin_addr :: octets

definition AF_INET :: "16 word" where "AF_INET = 2"

definition htons :: "16 word \<Rightarrow> 16 word" where
  "htons p = push_bit 8 p OR drop_bit 8 p"

definition ntohs :: "16 word \<Rightarrow> 16 word" where
  "ntohs p = push_bit 8 p OR drop_bit 8 p"

text \<open>
  \<open>inet_addr\<close> parses the address text; the constructors use its result unchecked. The \<open>uint\<close>
  port is narrowed by the call of \<open>htons\<close>.
\<close>

definition InetAddress_ip_port :: "(string \<Rightarrow> octets) \<Rightarrow> string \<Rightarrow> 32 word \<Rightarrow> InetAddress" where
  "InetAddress_ip_port inet_addr ip port =
     \<lparr>sin_family = AF_INET, sin_port = htons (ucast port), sin_addr = inet_addr ip\<rparr>"

definition InetAddress_port :: "(string \<Rightarrow> octets) \<Rightarrow> 32 word \<Rightarrow> InetAddress" where
  "InetAddress_port inet_addr port =
     \<lparr>sin_family = AF_INET, sin_port = htons (ucast port), sin_addr = inet_addr ''192.168.88.133''\<rparr>"

definition setSockAddr :: "InetAddress \<Rightarrow> InetAddress \<Rightarrow> InetAddress" where
  "setSockAddr addr a = addr"

text \<open>\<open>inet_ntop\<close> of an IPv4 address: four decimal numbers with dots between.\<close>

fun inet_ntop :: "octets \<Rightarrow> string" where
  "inet_ntop (a, b, c, d) =
     show_nat (unat a) @ CHR ''.'' # show_nat (unat b) @ CHR ''.'' # show_nat (unat c) @
     CHR ''.'' # show_nat (unat d)"

definition toIp :: "InetAddress \<Rightarrow> string" where
  "toIp a = inet_ntop (sin_addr a)"

definition toPort :: "InetAddress \<Rightarrow> 16 word" where
  "toPort a = ntohs (sin_port a)"

definition toIpPort :: "InetAddress \<Rightarrow> string" where
  "toIpPort a = inet_ntop (sin_addr a) @ CHR '':'' # show_nat (unat (ntohs (sin_port a)))"

text \<open>
  \<open>inet_addr(3)\<close> reads dotted decimal notation, and answers \<open>INADDR_NONE\<close>, which is
  255.255.255.255, to a text that is no address.
\<close>

definition INADDR_NONE :: octets where "INADDR_NONE = (255, 255, 255, 255)"

definition inet_addr_doc :: "(string \<Rightarrow> octets) \<Rightarrow> bool" where
  "inet_addr_doc f \<longleftrightarrow> (\<forall>a. f (inet_ntop a) = a) \<and> f [] = INADDR_NONE"

section \<open>Sockets\<close>

record Socket =
  sk_fd :: int
  sk_bound :: "InetAddress option"
  sk_listening :: bool
  sk_shut_wr :: bool
  sk_open :: bool
  sk_nodelay :: bool
  sk_reuseaddr :: bool
  sk_reuseport :: bool
  sk_keepalive :: bool

definition Socket_new :: "int \<Rightarrow> Socket" where
  "Socket_new fd = \<lparr>sk_fd = fd, sk_bound = None, sk_listening = False, sk_shut_wr = False,
     sk_open = True, sk_nodelay = False, sk_reuseaddr = False, sk_reuseport = False,
     sk_keepalive = False\<rparr>"

definition Socket_fd :: "Socket \<Rightarrow> int" where
  "Socket_fd k = sk_fd k"

text \<open>The destructor closes the descriptor.\<close>

definition Socket_delete :: "Socket \<Rightarrow> Socket" where
  "Socket_delete k = k\<lparr>sk_open := False\<rparr>"

definition bindAddress :: "errno option \<Rightarrow> InetAddress \<Rightarrow> Socket \<Rightarrow> Socket result" where
  "bindAddress err a k = (case err of None \<Rightarrow> Inr (k\<lparr>sk_bound := Some a\<rparr>) | Some e \<Rightarrow> Inl Fatal_exit)"

definition Socket_listen :: "errno option \<Rightarrow> Socket \<Rightarrow> Socket result" where
  "Socket_listen err k =
     (case err of None \<Rightarrow> Inr (k\<lparr>sk_listening := True\<rparr>) | Some e \<Rightarrow> Inl Fatal_exit)"

text \<open>\<open>accept4\<close> answers with a descriptor and the peer, or fails, when -1 is returned.\<close>

definition Socket_accept :: "errno + int \<times> InetAddress \<Rightarrow> InetAddress \<Rightarrow> int \<times> InetAddress" where
  "Socket_accept accept4 peeraddr =
     (case accept4 of
        Inl e \<Rightarrow> (- 1, peeraddr)
      | Inr (connfd, addr) \<Rightarrow>
         (connfd, if connfd \<ge> 0 then setSockAddr addr peeraddr else peeraddr))"

definition shutdonwWrite :: "errno option \<Rightarrow> Socket \<Rightarrow> Socket" where
  "shutdonwWrite err k = (case err of None \<Rightarrow> k\<lparr>sk_shut_wr := True\<rparr> | Some e \<Rightarrow> k)"

text \<open>The answers of \<open>setsockopt\<close> are ignored.\<close>

definition setTcpNoDelay :: "errno option \<Rightarrow> bool \<Rightarrow> Socket \<Rightarrow> Socket" where
  "setTcpNoDelay err on k = (if err = None then k\<lparr>sk_nodelay := on\<rparr> else k)"

definition setReuseAddr :: "errno option \<Rightarrow> bool \<Rightarrow> Socket \<Rightarrow> Socket" where
  "setReuseAddr err on k = (if err = None then k\<lparr>sk_reuseaddr := on\<rparr> else k)"

definition setReusePort :: "errno option \<Rightarrow> bool \<Rightarrow> Socket \<Rightarrow> Socket" where
  "setReusePort err on k = (if err = None then k\<lparr>sk_reuseport := on\<rparr> else k)"

definition setKeepAlive :: "errno option \<Rightarrow> bool \<Rightarrow> Socket \<Rightarrow> Socket" where
  "setKeepAlive err on k = (if err = None then k\<lparr>sk_keepalive := on\<rparr> else k)"

lemma shutdonwWrite_frame [simp]:
  "sk_fd (shutdonwWrite err k) = sk_fd k"
  "sk_shut_wr (shutdonwWrite err k) = (sk_shut_wr k \<or> err = None)"
  "sk_open (shutdonwWrite err k) = sk_open k"
  by (auto simp: shutdonwWrite_def split: option.splits)

section \<open>Text of an address\<close>

lemma ntohs_htons [simp]: "ntohs (htons p) = p"
  unfolding ntohs_def htons_def
  by (rule bit_word_eqI)
    (auto simp: bit_or_iff bit_push_bit_iff bit_drop_bit_eq dest: bit_imp_le_length)

lemma digits_no_sep [simp]:
  "CHR ''.'' \<notin> set (show_nat n)" "CHR '':'' \<notin> set (show_nat n)" "CHR ''#'' \<notin> set (show_nat n)"
  "CHR ''-'' \<notin> set (show_nat n)"
  using show_nat_digits [of _ n] by fastforce+

lemma inet_ntop_no_sep [simp]:
  "CHR '':'' \<notin> set (inet_ntop a)" "CHR ''#'' \<notin> set (inet_ntop a)"
  by (cases a; simp)+

lemma unat_inj: "unat (a :: 'a :: len word) = unat b \<Longrightarrow> a = b"
  by (rule unsigned_word_eqI)

lemma inet_ntop_inj [simp]: "inet_ntop a = inet_ntop b \<longleftrightarrow> a = b"
  by (cases a; cases b) (auto simp: append_sep_eq dest: unat_inj)

lemma inet_ntop_nonempty: "inet_ntop a \<noteq> []"
  by (cases a) simp

text \<open>A parser of this kind, for the witnesses.\<close>

definition until_dot :: "string \<Rightarrow> string" where
  "until_dot = takeWhile (\<lambda>c. c \<noteq> CHR ''.'')"

definition after_dot :: "string \<Rightarrow> string" where
  "after_dot t = tl (dropWhile (\<lambda>c. c \<noteq> CHR ''.'') t)"

definition read_octet :: "string \<Rightarrow> 8 word" where
  "read_octet t = word_of_nat (read_nat t)"

definition simple_inet_addr :: "string \<Rightarrow> octets" where
  "simple_inet_addr t =
     (if t = [] then INADDR_NONE
      else (read_octet (until_dot t), read_octet (until_dot (after_dot t)),
            read_octet (until_dot (after_dot (after_dot t))),
            read_octet (after_dot (after_dot (after_dot t)))))"

lemma dot_split [simp]:
  "CHR ''.'' \<notin> set xs \<Longrightarrow> until_dot (xs @ CHR ''.'' # ys) = xs"
  "CHR ''.'' \<notin> set xs \<Longrightarrow> after_dot (xs @ CHR ''.'' # ys) = ys"
  by (induction xs) (auto simp: until_dot_def after_dot_def)

lemma read_octet_show [simp]: "read_octet (show_nat (unat w)) = w"
  by (simp add: read_octet_def)

lemma simple_inet_addr_doc: "inet_addr_doc simple_inet_addr"
  by (auto simp: inet_addr_doc_def simple_inet_addr_def inet_ntop_nonempty)

section \<open>Properties\<close>

text \<open>
  C34: An address built from the dotted text of an address and a port number prints back as that
  text, and as text, colon, port in \<open>toIpPort\<close>; the port is the given number modulo 65536.
\<close>

theorem address_text_roundtrip:
  assumes "inet_addr_doc inet_addr"
  shows "toIp (InetAddress_ip_port inet_addr (inet_ntop a) port) = inet_ntop a \<and>
    unat (toPort (InetAddress_ip_port inet_addr (inet_ntop a) port)) = unat port mod 65536 \<and>
    toIpPort (InetAddress_ip_port inet_addr (inet_ntop a) port) =
      inet_ntop a @ CHR '':'' # show_nat (unat port mod 65536)"
  using assms [unfolded inet_addr_doc_def, THEN conjunct1, THEN spec, of a]
  by (simp add: toIp_def toPort_def toIpPort_def InetAddress_ip_port_def
      unsigned_ucast_eq take_bit_eq_mod)

theorem address_text_roundtrip_witness:
  "toIpPort (InetAddress_ip_port simple_inet_addr (inet_ntop (192, 168, 88, 133)) 54321) =
     inet_ntop (192, 168, 88, 133) @ CHR '':'' # show_nat 54321"
  using address_text_roundtrip [OF simple_inet_addr_doc, of "(192, 168, 88, 133)" 54321] by simp

text \<open>
  \<open>toIpPort\<close> is the same text only for the same address and port.
\<close>

theorem toIpPort_injective:
  "toIpPort a = toIpPort b \<longleftrightarrow> sin_addr a = sin_addr b \<and> toPort a = toPort b"
  by (auto simp: toIpPort_def toPort_def append_sep_eq dest: unat_inj)

end
