(* ===== verification/Acceptor.thy ===== *)
theory Acceptor
  imports Sockets EventLoop
begin

text \<open>
  The acceptor of \<open>include/net/Acceptor.h\<close> and \<open>src/net/Acceptor.cc\<close>: the listening
  socket, its channel on the main loop and the callback that takes over accepted descriptors.
  A bound callback is a value of \<open>'n\<close>.
\<close>

section \<open>State and construction\<close>

record ('n, 'cb) acceptor =
  acceptsockfd :: Socket
  acceptChannel :: "'cb channel"
  newConnectionCallback :: "'n option"
  listenning :: bool

text \<open>
  \<open>createNonblocking\<close>: a failure of \<open>socket\<close> is logged at level FATAL through \<open>AsyncLog\<close>,
  which does not end the process; the -1 is returned.
\<close>

definition createNonblocking :: "errno + int \<Rightarrow> int" where
  "createNonblocking sock = (case sock of Inl e \<Rightarrow> - 1 | Inr fd \<Rightarrow> fd)"

text \<open>What the kernel answers to the calls of the constructor.\<close>

record acceptor_calls =
  ac_socket :: "errno + int"
  ac_keepalive :: "errno option"
  ac_reuseaddr :: "errno option"
  ac_reuseport :: "errno option"
  ac_nodelay :: "errno option"
  ac_bind :: "errno option"

text \<open>The parameter \<open>reuesport\<close> is not used.\<close>

definition Acceptor_new ::
  "acceptor_calls \<Rightarrow> nat \<Rightarrow> 'cb \<Rightarrow> InetAddress \<Rightarrow> bool \<Rightarrow> ('n, 'cb) acceptor result" where
  "Acceptor_new kern loop handleRead_cb listenAddr reuesport =
     (let sk = Socket_new (createNonblocking (ac_socket kern));
          ch = Channel_new loop (sk_fd sk);
          sk1 = setKeepAlive (ac_keepalive kern) True sk;
          sk2 = setReuseAddr (ac_reuseaddr kern) True sk1;
          sk3 = setReusePort (ac_reuseport kern) True sk2;
          sk4 = setTcpNoDelay (ac_nodelay kern) True sk3
      in rbind (bindAddress (ac_bind kern) listenAddr sk4)
           (\<lambda>sk5. Inr \<lparr>acceptsockfd = sk5, acceptChannel = setReadCallback handleRead_cb ch,
                       newConnectionCallback = None, listenning = False\<rparr>))"

definition setNewConnecitonCallback :: "'n \<Rightarrow> ('n, 'cb) acceptor \<Rightarrow> ('n, 'cb) acceptor" where
  "setNewConnecitonCallback cb a = a\<lparr>newConnectionCallback := Some cb\<rparr>"

definition lisntenning :: "('n, 'cb) acceptor \<Rightarrow> bool" where
  "lisntenning a = listenning a"

text \<open>\<open>k\<close> is \<open>epoll_ctl\<close> and the number of the accept channel.\<close>

definition Acceptor_listen ::
  "epoll_ctl_fn \<times> nat \<Rightarrow> errno option \<Rightarrow> ('n, 'cb) acceptor \<Rightarrow> ('f, 'cb) evloop \<Rightarrow>
     (('n, 'cb) acceptor \<times> ('f, 'cb) evloop) result" where
  "Acceptor_listen k err a l =
     (let a1 = a\<lparr>listenning := True\<rparr>
      in rbind (Socket_listen err (acceptsockfd a1)) (\<lambda>sk.
         rbind (enableReading (EventLoop_updateChannel k) (acceptChannel a1) l) (\<lambda>(ch, l1).
         Inr (a1\<lparr>acceptsockfd := sk, acceptChannel := ch\<rparr>, l1))))"

text \<open>The destructor; the socket member is destroyed after its body.\<close>

definition Acceptor_delete ::
  "epoll_ctl_fn \<times> nat \<Rightarrow> ('n, 'cb) acceptor \<Rightarrow> ('f, 'cb) evloop \<Rightarrow>
     (('n, 'cb) acceptor \<times> ('f, 'cb) evloop) result" where
  "Acceptor_delete k a l =
     rbind (disableAll (EventLoop_updateChannel k) (acceptChannel a) l) (\<lambda>(ch, l1).
     rbind (EventLoop_removeChannel k ch l1) (\<lambda>(ch1, l2).
     Inr (a\<lparr>acceptChannel := ch1, acceptsockfd := Socket_delete (acceptsockfd a)\<rparr>, l2)))"

text \<open>
  \<open>handleRead\<close>: \<open>deliver\<close> runs the callback on a descriptor and its peer, \<open>close_fd\<close> closes a
  descriptor; \<open>peer0\<close> is the uninitialised address object.
\<close>

definition Acceptor_handleRead ::
  "('n \<Rightarrow> int \<Rightarrow> InetAddress \<Rightarrow> 's \<Rightarrow> 's result) \<Rightarrow> (int \<Rightarrow> 's \<Rightarrow> 's) \<Rightarrow> InetAddress \<Rightarrow>
     errno + int \<times> InetAddress \<Rightarrow> ('n, 'cb) acceptor \<Rightarrow> 's \<Rightarrow> 's result" where
  "Acceptor_handleRead deliver close_fd peer0 accept4 a s =
     (let (connfd, peer) = Socket_accept accept4 peer0
      in if connfd > 0 then
           (case newConnectionCallback a of
              Some cb \<Rightarrow> deliver cb connfd peer s
            | None \<Rightarrow> Inr (close_fd connfd s))
         else Inr s)"

section \<open>Accepting\<close>

text \<open>
  Every descriptor above 0 that \<open>accept4\<close> returns is handed with its peer address to the
  callback or, when there is none, closed. Descriptor 0 is neither: it is taken for an error
  and leaks, and an error changes nothing.
\<close>

lemma accepted_descriptor_delivered:
  "Acceptor_handleRead deliver close_fd peer0 accept4 a s =
     (case accept4 of
        Inl e \<Rightarrow> Inr s
      | Inr (fd, peer) \<Rightarrow>
         if fd > 0 then
           (case newConnectionCallback a of
              None \<Rightarrow> Inr (close_fd fd s) | Some cb \<Rightarrow> deliver cb fd peer s)
         else Inr s)"
  by (auto simp: Acceptor_handleRead_def Socket_accept_def setSockAddr_def
      split: sum.splits prod.splits option.splits)

section \<open>Properties\<close>

text \<open>
  A listening acceptor is one whose socket listens and whose descriptor the main loop's
  poller watches for reading; if \<open>listen\<close> fails the process ends.
\<close>

theorem Acceptor_listen_watches:
  assumes "epoll_ctl_doc (fst k)" and "loop_in_step k (acceptChannel a) l"
    and "Acceptor_listen k err a l = Inr (a', l')"
  shows "err = None \<and> lisntenning a' \<and> sk_listening (acceptsockfd a') \<and>
    isReading (acceptChannel a') \<and> loop_in_step k (acceptChannel a') l' \<and>
    loop_watched l' (ch_fd (acceptChannel a)) = Some (ch_events (acceptChannel a'))"
proof -
  obtain sk ch where sk: "Socket_listen err (acceptsockfd a) = Inr sk"
    and ch: "enableReading (EventLoop_updateChannel k) (acceptChannel a) l = Inr (ch, l')"
    and a': "a' = a\<lparr>listenning := True, acceptsockfd := sk, acceptChannel := ch\<rparr>"
    using assms(3) by (auto simp: Acceptor_listen_def Let_def rbind_Inr_iff)
  show ?thesis
    using lo.enableReading_post [OF assms(1,2) ch] sk
    by (auto simp: a' lisntenning_def Socket_listen_def split: option.splits)
qed

definition listen_calls :: acceptor_calls where
  "listen_calls = \<lparr>ac_socket = Inr 6, ac_keepalive = None, ac_reuseaddr = None,
     ac_reuseport = None, ac_nodelay = None, ac_bind = None\<rparr>"

theorem Acceptor_listen_watches_witness:
  "\<exists>a l'. Acceptor_listen (simple_epoll_ctl, 2) None
      \<lparr>acceptsockfd = Socket_new 6, acceptChannel = Channel_new 0 6,
       newConnectionCallback = (None :: unit option), listenning = False\<rparr> idle_loop = Inr (a, l') \<and>
    lisntenning a \<and> loop_watched l' 6 = Some (ch_events (acceptChannel a))"
proof -
  let ?a = "\<lparr>acceptsockfd = Socket_new 6, acceptChannel = Channel_new 0 6 :: unit channel,
       newConnectionCallback = (None :: unit option), listenning = False\<rparr>"
  have st: "loop_in_step (simple_epoll_ctl, 2) (acceptChannel ?a) idle_loop"
    by (simp add: loop_in_step_def idle_loop_def empty_poller_def in_step_def Channel_new_def
        kNew_def kAdded_def)
  have "\<exists>r. Acceptor_listen (simple_epoll_ctl, 2) None ?a idle_loop = Inr r"
    by (simp add: Acceptor_listen_def Socket_listen_def enableReading_def
        EventLoop_updateChannel_def Epollpoller_updateChannel_def Epollpoller_update_def
        simple_epoll_ctl_def idle_loop_def empty_poller_def Channel_new_def kNew_def Let_def)
  then obtain a' l' where r: "Acceptor_listen (simple_epoll_ctl, 2) None ?a idle_loop = Inr (a', l')"
    by auto
  have "epoll_ctl_doc (fst (simple_epoll_ctl, 2 :: nat))"
    by (simp add: simple_epoll_ctl_doc)
  from Acceptor_listen_watches [OF this st r] r show ?thesis
    by (auto simp: Channel_new_def)
qed

end
