(* ===== verification/Connection.thy ===== *)
theory Connection
  imports Sockets Buffer EventLoop
begin

text \<open>
  The TCP connection of \<open>include/net/Connection.h\<close> and \<open>src/net/Connection.cc\<close>: its
  state machine, its two buffers, sending from the loop's thread and from others, and the
  handlers of its channel. The user's callbacks are given by a function that answers each event
  with the calls it makes on the connection.
\<close>

section \<open>State\<close>

datatype StateE = kDisconnected | kConnecting | kConnected | kDisconnecting

text \<open>
  The functors a connection binds for its loop. A send carries what \<open>buf.c_str()\<close> points to,
  the number of the string object, and the length; \<open>'a\<close> stands for the user's callback objects.
\<close>

datatype 'a conn_task =
    SendInLoop nat size_t
  | ShutdownInLoop
  | WriteComplete 'a
  | HighWater 'a size_t
  | ConnectEstablished
  | ConnectDestroyed

text \<open>The functions bound as channel callbacks, the loop's own wakeup handler among them.\<close>

datatype conn_cb =
  Loop_handleRead | Conn_handleRead | Conn_handleWrite | Conn_handleError | Conn_handleClose

record 'a connection =
  co_id :: nat
  co_name :: string
  co_state :: StateE
  co_sock :: Socket
  co_channel :: "conn_cb channel"
  co_localAddr :: InetAddress
  co_peerAddr :: InetAddress
  cn_connectionCallback :: "'a option"
  cn_messageCallback :: "'a option"
  cn_writeCompleteCallback :: "'a option"
  cn_highWaterMarkCallback :: "'a option"
  cn_closeCallback :: "'a option"
  highWaterMark :: size_t
  InputBuffer :: Buffer
  OutputBuffer :: Buffer

text \<open>
  A connection with its loop. \<open>w_wire\<close> and \<open>w_accepted\<close> are histories: the bytes the kernel
  has taken from the connection, and the data of the sends it did not refuse. \<open>w_strings\<close> holds
  the string objects that are alive, \<open>w_next\<close> the next free address, \<open>w_errors\<close> the socket
  errors logged and \<open>w_app\<close> the user's state.
\<close>

record ('a, 'u) world =
  w_conn :: "'a connection"
  w_loop :: "('a conn_task, conn_cb) evloop"
  w_wire :: bytes
  w_accepted :: bytes
  w_strings :: "nat \<Rightarrow> bytes option"
  w_next :: nat
  w_errors :: "int list"
  w_app :: 'u

text \<open>
  What the kernel answers: \<open>epoll_ctl\<close>; \<open>write\<close>, which depends on whether the write side is
  shut down and on what it has taken before; \<open>readv\<close>; the eventfd; \<open>getsockopt\<close> of
  \<open>SO_ERROR\<close>; \<open>shutdown\<close>; \<open>setsockopt\<close>.
\<close>

record kernel =
  kn_ctl :: epoll_ctl_fn
  kn_write :: "bool \<Rightarrow> bytes \<Rightarrow> write_fn"
  kn_readv :: readv_fn
  kn_efd_write :: efd_write_fn
  kn_efd_read :: efd_read_fn
  kn_getsockopt :: "errno + int"
  kn_shutdown :: "errno option"
  kn_setsockopt :: "errno option"

text \<open>The events a user's callback is called for, and the calls it can make.\<close>

datatype app_event =
    On_connection
  | On_message timestamp
  | On_write_complete
  | On_high_water size_t
  | On_close

datatype api_call =
    Call_send nat
  | Call_send_chars bytes "32 word"
  | Call_shutdown
  | Call_retrieve size_t
  | Call_retrieveAll

type_synonym ('a, 'u) app = "'a \<Rightarrow> app_event \<Rightarrow> 'a connection \<Rightarrow> 'u \<Rightarrow> api_call list \<times> 'u"

section \<open>Construction\<close>

text \<open>
  \<open>self\<close> is the number of the connection object and of its channel, \<open>loop\<close> the number of its
  loop, a null pointer when \<open>None\<close>.
\<close>

definition conn_CheckLoopNotNull :: "nat option \<Rightarrow> nat result" where
  "conn_CheckLoopNotNull loop = (case loop of None \<Rightarrow> Inl Fatal_exit | Some l \<Rightarrow> Inr l)"

definition Connection_new ::
  "kernel \<Rightarrow> nat \<Rightarrow> nat option \<Rightarrow> string \<Rightarrow> int \<Rightarrow> InetAddress \<Rightarrow> InetAddress \<Rightarrow>
     'a connection result" where
  "Connection_new K self loop name sockfd localAddr peerAddr =
     rbind (conn_CheckLoopNotNull loop) (\<lambda>l.
     rbind (Buffer_new kInitialSize) (\<lambda>b.
     Inr \<lparr>co_id = self, co_name = name, co_state = kConnecting,
          co_sock = setKeepAlive (kn_setsockopt K) True (Socket_new sockfd),
          co_channel =
            setCloseCallback Conn_handleClose
            (setErrorCallback Conn_handleError
            (setWriteCallback Conn_handleWrite
            (setReadCallback Conn_handleRead (Channel_new l sockfd)))),
          co_localAddr = localAddr, co_peerAddr = peerAddr,
          cn_connectionCallback = None, cn_messageCallback = None,
          cn_writeCompleteCallback = None, cn_highWaterMarkCallback = None,
          cn_closeCallback = None, highWaterMark = 64 * 1024 * 1024,
          InputBuffer = b, OutputBuffer = b\<rparr>))"

definition setConnectionCallback :: "'a option \<Rightarrow> 'a connection \<Rightarrow> 'a connection" where
  "setConnectionCallback cb c = c\<lparr>cn_connectionCallback := cb\<rparr>"

definition setMessageCallback :: "'a option \<Rightarrow> 'a connection \<Rightarrow> 'a connection" where
  "setMessageCallback cb c = c\<lparr>cn_messageCallback := cb\<rparr>"

definition setWriteCompleteCallback :: "'a option \<Rightarrow> 'a connection \<Rightarrow> 'a connection" where
  "setWriteCompleteCallback cb c = c\<lparr>cn_writeCompleteCallback := cb\<rparr>"

definition setHighWaterMarkCallback :: "'a option \<Rightarrow> 'a connection \<Rightarrow> 'a connection" where
  "setHighWaterMarkCallback cb c = c\<lparr>cn_highWaterMarkCallback := cb\<rparr>"

definition conn_setCloseCallback :: "'a option \<Rightarrow> 'a connection \<Rightarrow> 'a connection" where
  "conn_setCloseCallback cb c = c\<lparr>cn_closeCallback := cb\<rparr>"

definition connected :: "'a connection \<Rightarrow> bool" where
  "connected c \<longleftrightarrow> co_state c = kConnected"

definition conn_getName :: "'a connection \<Rightarrow> string" where
  "conn_getName c = co_name c"

definition conn_localAddr :: "'a connection \<Rightarrow> InetAddress" where
  "conn_localAddr c = co_localAddr c"

definition conn_peerAddr :: "'a connection \<Rightarrow> InetAddress" where
  "conn_peerAddr c = co_peerAddr c"

text \<open>\<open>loop_\<close> and the channel's loop are set together by the constructor and never again.\<close>

definition conn_loop :: "'a connection \<Rightarrow> nat" where
  "conn_loop c = OwnerLoop (co_channel c)"

section \<open>Access to the parts\<close>

definition setState :: "StateE \<Rightarrow> ('a, 'u) world \<Rightarrow> ('a, 'u) world" where
  "setState st s = s\<lparr>w_conn := (w_conn s)\<lparr>co_state := st\<rparr>\<rparr>"

text \<open>An operation of the channel that goes through its loop.\<close>

definition on_channel ::
  "((conn_cb channel \<Rightarrow> ('a conn_task, conn_cb) evloop \<Rightarrow>
        (conn_cb channel \<times> ('a conn_task, conn_cb) evloop) result) \<Rightarrow>
      conn_cb channel \<Rightarrow> ('a conn_task, conn_cb) evloop \<Rightarrow>
        (conn_cb channel \<times> ('a conn_task, conn_cb) evloop) result) \<Rightarrow>
     kernel \<Rightarrow> ('a, 'u) world \<Rightarrow> ('a, 'u) world result" where
  "on_channel op K s =
     rbind (op (EventLoop_updateChannel (kn_ctl K, co_id (w_conn s)))
              (co_channel (w_conn s)) (w_loop s))
       (\<lambda>(ch, l). Inr (s\<lparr>w_conn := (w_conn s)\<lparr>co_channel := ch\<rparr>, w_loop := l\<rparr>))"

definition queue_task ::
  "kernel \<Rightarrow> nat \<Rightarrow> 'a conn_task \<Rightarrow> ('a, 'u) world \<Rightarrow> ('a, 'u) world" where
  "queue_task K tid f s = s\<lparr>w_loop := queueInLoop (kn_efd_write K) tid f (w_loop s)\<rparr>"

text \<open>\<open>runInLoop\<close> of a functor whose effect is \<open>run\<close>.\<close>

definition run_or_queue ::
  "kernel \<Rightarrow> nat \<Rightarrow> 'a conn_task \<Rightarrow> (('a, 'u) world \<Rightarrow> ('a, 'u) world result) \<Rightarrow>
     ('a, 'u) world \<Rightarrow> ('a, 'u) world result" where
  "run_or_queue K tid f run s =
     (if isInLoopThread tid (w_loop s) then run s else Inr (queue_task K tid f s))"

section \<open>Sending\<close>

definition EWOULDBLOCK :: errno where "EWOULDBLOCK = 11"
definition EPIPE :: errno where "EPIPE = 32"
definition ECONNRESET :: errno where "ECONNRESET = 104"

text \<open>
  The direct write of \<open>sendInLoop\<close>: the number of bytes written, the number that remains,
  \<open>faultError\<close>, and the state with a write-complete functor queued when nothing remains.
\<close>

definition direct_write ::
  "kernel \<Rightarrow> nat \<Rightarrow> bytes \<Rightarrow> size_t \<Rightarrow> ('a, 'u) world \<Rightarrow>
     nat \<times> size_t \<times> bool \<times> ('a, 'u) world" where
  "direct_write K tid data len s =
     (case kn_write K (sk_shut_wr (co_sock (w_conn s))) (w_wire s) (take (unat len) data) of
        Inr n \<Rightarrow>
          let remaining = len - of_nat n;
              s1 = s\<lparr>w_wire := w_wire s @ take n data\<rparr>
          in (n, remaining, False,
              case cn_writeCompleteCallback (w_conn s) of
                None \<Rightarrow> s1
              | Some cb \<Rightarrow> if remaining = 0 then queue_task K tid (WriteComplete cb) s1 else s1)
      | Inl e \<Rightarrow> (0, len, e \<noteq> EWOULDBLOCK \<and> (e = EPIPE \<or> e = ECONNRESET), s))"

text \<open>The high-water check of \<open>sendInLoop\<close>, and the part that buffers what remains.\<close>

definition mark_high_water ::
  "kernel \<Rightarrow> nat \<Rightarrow> size_t \<Rightarrow> ('a, 'u) world \<Rightarrow> ('a, 'u) world" where
  "mark_high_water K tid remaining s =
     (let c = w_conn s; oldLen = readableBytes (OutputBuffer c)
      in case cn_highWaterMarkCallback c of
           None \<Rightarrow> s
         | Some cb \<Rightarrow>
            if highWaterMark c \<le> oldLen + remaining \<and> oldLen < highWaterMark c
            then queue_task K tid (HighWater cb (oldLen + remaining)) s else s)"

definition buffer_rest ::
  "kernel \<Rightarrow> nat \<Rightarrow> bytes \<Rightarrow> size_t \<Rightarrow> ('a, 'u) world \<Rightarrow> ('a, 'u) world result" where
  "buffer_rest K tid rest remaining s =
     (let s1 = mark_high_water K tid remaining s
      in rbind (Buffer_append (OutputBuffer (w_conn s1)) rest remaining) (\<lambda>b.
         let s2 = s1\<lparr>w_conn := (w_conn s1)\<lparr>OutputBuffer := b\<rparr>\<rparr>
         in if \<not> isWriting (co_channel (w_conn s2)) then on_channel enableWriting K s2
            else Inr s2))"

definition sendInLoop ::
  "kernel \<Rightarrow> nat \<Rightarrow> bytes \<Rightarrow> size_t \<Rightarrow> ('a, 'u) world \<Rightarrow> ('a, 'u) world result" where
  "sendInLoop K tid data len s =
     (if co_state (w_conn s) = kDisconnected then Inr s
      else if length data < unat len then Inl Out_of_bounds
      else
        let (nwrote, remaining, faultError, s1) =
              (if \<not> isWriting (co_channel (w_conn s)) \<and> readableBytes (OutputBuffer (w_conn s)) = 0
               then direct_write K tid data len s else (0, len, False, s));
            s2 = (if faultError then s1
                  else s1\<lparr>w_accepted := w_accepted s1 @ take (unat len) data\<rparr>)
        in if \<not> faultError \<and> 0 < remaining then buffer_rest K tid (drop nwrote data) remaining s2
           else Inr s2)"

text \<open>
  \<open>send(const std::string &)\<close> on the string object \<open>ptr\<close>: another thread binds the pointer to
  its characters.
\<close>

definition Connection_send ::
  "kernel \<Rightarrow> nat \<Rightarrow> nat \<Rightarrow> ('a, 'u) world \<Rightarrow> ('a, 'u) world result" where
  "Connection_send K tid ptr s =
     (case w_strings s ptr of
        None \<Rightarrow> Inl Use_after_free
      | Some buf \<Rightarrow>
         if connected (w_conn s) then
           if isInLoopThread tid (w_loop s) then sendInLoop K tid buf (of_nat (length buf)) s
           else run_or_queue K tid (SendInLoop ptr (of_nat (length buf)))
                  (sendInLoop K tid buf (of_nat (length buf))) s
         else Inr s)"

text \<open>
  \<open>send(const char *, int)\<close>: the string made from the characters lives until the call returns.
\<close>

definition Connection_send_chars ::
  "kernel \<Rightarrow> nat \<Rightarrow> bytes \<Rightarrow> 32 word \<Rightarrow> ('a, 'u) world \<Rightarrow> ('a, 'u) world result" where
  "Connection_send_chars K tid data len s =
     (if sint len < 0 then Inl Length_error
      else if length data < nat (sint len) then Inl Out_of_bounds
      else
        let ptr = w_next s;
            s1 = s\<lparr>w_strings := (w_strings s)(ptr \<mapsto> take (nat (sint len)) data), w_next := Suc ptr\<rparr>
        in rbind (Connection_send K tid ptr s1)
             (\<lambda>s2. Inr (s2\<lparr>w_strings := (w_strings s2)(ptr := None)\<rparr>)))"

section \<open>Shutting down\<close>

definition shutdownInLoop :: "kernel \<Rightarrow> ('a, 'u) world \<Rightarrow> ('a, 'u) world" where
  "shutdownInLoop K s =
     (if \<not> isWriting (co_channel (w_conn s))
      then s\<lparr>w_conn := (w_conn s)\<lparr>co_sock := shutdonwWrite (kn_shutdown K) (co_sock (w_conn s))\<rparr>\<rparr>
      else s)"

definition Connection_shutdown ::
  "kernel \<Rightarrow> nat \<Rightarrow> ('a, 'u) world \<Rightarrow> ('a, 'u) world result" where
  "Connection_shutdown K tid s =
     (if co_state (w_conn s) = kConnected
      then run_or_queue K tid ShutdownInLoop (\<lambda>s. Inr (shutdownInLoop K s))
             (setState kDisconnecting s)
      else Inr s)"

section \<open>Calling the user\<close>

fun run_api ::
  "kernel \<Rightarrow> nat \<Rightarrow> api_call list \<Rightarrow> ('a, 'u) world \<Rightarrow> ('a, 'u) world result" where
  "run_api K tid [] s = Inr s"
| "run_api K tid (Call_send ptr # cs) s = rbind (Connection_send K tid ptr s) (run_api K tid cs)"
| "run_api K tid (Call_send_chars d n # cs) s =
     rbind (Connection_send_chars K tid d n s) (run_api K tid cs)"
| "run_api K tid (Call_shutdown # cs) s = rbind (Connection_shutdown K tid s) (run_api K tid cs)"
| "run_api K tid (Call_retrieve n # cs) s =
     run_api K tid cs (s\<lparr>w_conn := (w_conn s)\<lparr>InputBuffer := retrieve (InputBuffer (w_conn s)) n\<rparr>\<rparr>)"
| "run_api K tid (Call_retrieveAll # cs) s =
     run_api K tid cs (s\<lparr>w_conn := (w_conn s)\<lparr>InputBuffer := retrieveAll (InputBuffer (w_conn s))\<rparr>\<rparr>)"

definition call_user ::
  "kernel \<Rightarrow> ('a, 'u) app \<Rightarrow> nat \<Rightarrow> 'a option \<Rightarrow> app_event \<Rightarrow> ('a, 'u) world \<Rightarrow>
     ('a, 'u) world result" where
  "call_user K app tid cb ev s =
     (case cb of
        None \<Rightarrow> Inl Bad_function_call
      | Some c \<Rightarrow>
         let (calls, u) = app c ev (w_conn s) (w_app s) in run_api K tid calls (s\<lparr>w_app := u\<rparr>))"

section \<open>Handlers of the channel\<close>

definition handleClose ::
  "kernel \<Rightarrow> ('a, 'u) app \<Rightarrow> nat \<Rightarrow> ('a, 'u) world \<Rightarrow> ('a, 'u) world result" where
  "handleClose K app tid s =
     rbind (on_channel disableAll K (setState kDisconnected s)) (\<lambda>s1.
     rbind (call_user K app tid (cn_connectionCallback (w_conn s1)) On_connection s1) (\<lambda>s2.
     call_user K app tid (cn_closeCallback (w_conn s2)) On_close s2))"

text \<open>\<open>getsockopt\<close> answers with the pending error; the handler only logs.\<close>

definition handleError :: "kernel \<Rightarrow> ('a, 'u) world \<Rightarrow> ('a, 'u) world" where
  "handleError K s =
     (let err = (case kn_getsockopt K of Inl e \<Rightarrow> e | Inr optval \<Rightarrow> optval)
      in s\<lparr>w_errors := w_errors s @ [err]\<rparr>)"

definition handleRead ::
  "kernel \<Rightarrow> ('a, 'u) app \<Rightarrow> nat \<Rightarrow> timestamp \<Rightarrow> ('a, 'u) world \<Rightarrow> ('a, 'u) world result" where
  "handleRead K app tid receiveTime s =
     rbind (readFd (kn_readv K) (InputBuffer (w_conn s))) (\<lambda>(n, savedErrno, b).
     let s1 = s\<lparr>w_conn := (w_conn s)\<lparr>InputBuffer := b\<rparr>\<rparr>
     in if n > 0
        then call_user K app tid (cn_messageCallback (w_conn s1)) (On_message receiveTime) s1
        else if n = 0 then handleClose K app tid s1
        else Inr (handleError K s1))"

definition handleWrite :: "kernel \<Rightarrow> nat \<Rightarrow> ('a, 'u) world \<Rightarrow> ('a, 'u) world result" where
  "handleWrite K tid s =
     (if isWriting (co_channel (w_conn s)) then
        let out = OutputBuffer (w_conn s);
            (n, savedErrno) = writeFd (kn_write K (sk_shut_wr (co_sock (w_conn s))) (w_wire s)) out;
            s1 = s\<lparr>w_wire := w_wire s @ take (nat n) (contents out)\<rparr>
        in if n > 0 then
             let s2 = s1\<lparr>w_conn := (w_conn s1)\<lparr>OutputBuffer := retrieve out (of_int n)\<rparr>\<rparr>
             in if readableBytes (OutputBuffer (w_conn s2)) = 0 then
                  rbind (on_channel disableWriting K s2) (\<lambda>s3.
                  let s4 = (case cn_writeCompleteCallback (w_conn s3) of
                              None \<Rightarrow> s3 | Some cb \<Rightarrow> queue_task K tid (WriteComplete cb) s3)
                  in if co_state (w_conn s4) = kDisconnecting then Inr (shutdownInLoop K s4)
                     else Inr s4)
                else Inr s2
           else Inr s1
      else Inr s)"

section \<open>Establishing and destroying\<close>

definition connectEstablished ::
  "kernel \<Rightarrow> ('a, 'u) app \<Rightarrow> nat \<Rightarrow> ('a, 'u) world \<Rightarrow> ('a, 'u) world result" where
  "connectEstablished K app tid s =
     (let s1 = setState kConnected s;
          s2 = s1\<lparr>w_conn := (w_conn s1)
                    \<lparr>co_channel := Channel_tie (co_id (w_conn s1)) (co_channel (w_conn s1))\<rparr>\<rparr>
      in rbind (on_channel enableReading K s2) (\<lambda>s3.
         call_user K app tid (cn_connectionCallback (w_conn s3)) On_connection s3))"

definition channel_remove :: "kernel \<Rightarrow> ('a, 'u) world \<Rightarrow> ('a, 'u) world result" where
  "channel_remove K s =
     rbind (EventLoop_removeChannel (kn_ctl K, co_id (w_conn s)) (co_channel (w_conn s)) (w_loop s))
       (\<lambda>(ch, l). Inr (s\<lparr>w_conn := (w_conn s)\<lparr>co_channel := ch\<rparr>, w_loop := l\<rparr>))"

definition connectDestroyed ::
  "kernel \<Rightarrow> ('a, 'u) app \<Rightarrow> nat \<Rightarrow> ('a, 'u) world \<Rightarrow> ('a, 'u) world result" where
  "connectDestroyed K app tid s =
     rbind (if co_state (w_conn s) = kConnected then
              rbind (on_channel disableAll K (setState kDisconnected s)) (\<lambda>s1.
              call_user K app tid (cn_connectionCallback (w_conn s1)) On_connection s1)
            else Inr s)
       (channel_remove K)"

section \<open>The connection in its loop\<close>

fun run_task ::
  "kernel \<Rightarrow> ('a, 'u) app \<Rightarrow> nat \<Rightarrow> 'a conn_task \<Rightarrow> ('a, 'u) world \<Rightarrow> ('a, 'u) world result" where
  "run_task K app tid (SendInLoop ptr len) s =
     (case w_strings s ptr of
        None \<Rightarrow> Inl Use_after_free | Some data \<Rightarrow> sendInLoop K tid data len s)"
| "run_task K app tid ShutdownInLoop s = Inr (shutdownInLoop K s)"
| "run_task K app tid (WriteComplete cb) s = call_user K app tid (Some cb) On_write_complete s"
| "run_task K app tid (HighWater cb n) s = call_user K app tid (Some cb) (On_high_water n) s"
| "run_task K app tid ConnectEstablished s = connectEstablished K app tid s"
| "run_task K app tid ConnectDestroyed s = connectDestroyed K app tid s"

text \<open>
  The wakeup handler ignores the poll time; the read handler of the connection is bound with a
  placeholder for it and is set as read callback only.
\<close>

fun run_callback ::
  "kernel \<Rightarrow> ('a, 'u) app \<Rightarrow> nat \<Rightarrow> conn_cb \<Rightarrow> ('a, 'u) world \<Rightarrow> ('a, 'u) world result" where
  "run_callback K app tid Conn_handleWrite s = handleWrite K tid s"
| "run_callback K app tid Conn_handleError s = Inr (handleError K s)"
| "run_callback K app tid Conn_handleClose s = handleClose K app tid s"
| "run_callback K app tid Conn_handleRead s = Inl Bad_function_call"
| "run_callback K app tid Loop_handleRead s =
     Inr (s\<lparr>w_loop := EventLoop_handleRead (kn_efd_read K) (w_loop s)\<rparr>)"

definition run_readback ::
  "kernel \<Rightarrow> ('a, 'u) app \<Rightarrow> nat \<Rightarrow> conn_cb \<Rightarrow> timestamp \<Rightarrow> ('a, 'u) world \<Rightarrow>
     ('a, 'u) world result" where
  "run_readback K app tid cb t s =
     (if cb = Conn_handleRead then handleRead K app tid t s else run_callback K app tid cb s)"

text \<open>
  The loop's channels are the connection's, under its number, and the wakeup channel. The
  connection object is alive as long as it is in the world.
\<close>

definition conn_host ::
  "kernel \<Rightarrow> ('a, 'u) app \<Rightarrow> nat \<Rightarrow> (('a, 'u) world, 'a conn_task, conn_cb) host" where
  "conn_host K app tid =
     \<lparr>h_loop = w_loop,
      h_upd = (\<lambda>f s. s\<lparr>w_loop := f (w_loop s)\<rparr>),
      h_chan = (\<lambda>s cid. if cid = co_id (w_conn s) then co_channel (w_conn s)
                        else el_wakeup (w_loop s)),
      h_chans = (\<lambda>f s. s\<lparr>w_conn := (w_conn s)\<lparr>co_channel := f (co_id (w_conn s))\<rparr>,
                         w_loop := (w_loop s)\<lparr>el_wakeup := f 0\<rparr>\<rparr>),
      h_alive = (\<lambda>s obj. obj = co_id (w_conn s)),
      h_functor = run_task K app tid,
      h_callback = run_callback K app tid,
      h_readback = run_readback K app tid\<rparr>"

interpretation ch: loop_host "conn_host K app tid"
  by unfold_locales (simp_all add: conn_host_def)

lemma run_or_queue_runInLoop:
  "run_or_queue K tid f (run_task K app tid f) s =
     runInLoop (conn_host K app tid) (kn_efd_write K) tid f s"
  by (simp add: run_or_queue_def runInLoop_def conn_host_def queue_task_def)

section \<open>The invariant of a connection\<close>

text \<open>
  The kernel as documented: \<open>write\<close> takes no more than it is given and fails with \<open>EPIPE\<close> once
  the write side is shut down.
\<close>

definition kernel_doc :: "kernel \<Rightarrow> bool" where
  "kernel_doc K \<longleftrightarrow> epoll_ctl_doc (kn_ctl K) \<and> readv_doc (kn_readv K) \<and>
     (\<forall>shut wire bs n. kn_write K shut wire bs = Inr n \<longrightarrow> n \<le> length bs) \<and>
     (\<forall>wire bs. bs \<noteq> [] \<longrightarrow> kn_write K True wire bs = Inl EPIPE)"

abbreviation (input) conn_up :: "StateE \<Rightarrow> bool" where
  "conn_up st \<equiv> st = kConnected \<or> st = kDisconnecting"

abbreviation out_bytes :: "('a, 'u) world \<Rightarrow> bytes" where
  "out_bytes s \<equiv> contents (OutputBuffer (w_conn s))"

text \<open>The buffers are well formed, and what was accepted is on the wire or in the output buffer.\<close>

definition stream_inv :: "('a, 'u) world \<Rightarrow> bool" where
  "stream_inv s \<longleftrightarrow> Buffer_inv (InputBuffer (w_conn s)) \<and> Buffer_inv (OutputBuffer (w_conn s)) \<and>
     (\<forall>ptr buf. w_strings s ptr = Some buf \<longrightarrow> length buf \<le> max_bytes) \<and>
     w_wire s @ out_bytes s = w_accepted s"

text \<open>The channel and the loop's poller agree; \<open>in_step\<close> does not depend on \<open>epoll_ctl\<close>.\<close>

definition attached_inv :: "('a, 'u) world \<Rightarrow> bool" where
  "attached_inv s \<longleftrightarrow>
     (\<forall>ctl. loop_in_step (ctl, co_id (w_conn s)) (co_channel (w_conn s)) (w_loop s)) \<and>
     (conn_up (co_state (w_conn s)) \<longrightarrow>
        loop_watched (w_loop s) (ch_fd (co_channel (w_conn s)))
          = Some (ch_events (co_channel (w_conn s))))"

text \<open>What the state of the connection says of its channel, its output and its socket.\<close>

definition mode_inv :: "('a, 'u) world \<Rightarrow> bool" where
  "mode_inv s \<longleftrightarrow>
     (let c = w_conn s; out = out_bytes s in
      (conn_up (co_state c) \<longrightarrow> isReading (co_channel c) \<and>
         (isWriting (co_channel c) \<longleftrightarrow> out \<noteq> []) \<and> (sk_shut_wr (co_sock c) \<longrightarrow> out = [])) \<and>
      (co_state c = kConnecting \<longrightarrow>
         out = [] \<and> isNoneEvent (co_channel c) \<and> \<not> sk_shut_wr (co_sock c)) \<and>
      (co_state c = kDisconnected \<longrightarrow> isNoneEvent (co_channel c)))"

definition conn_inv :: "('a, 'u) world \<Rightarrow> bool" where
  "conn_inv s \<longleftrightarrow> stream_inv s \<and> attached_inv s \<and> mode_inv s"

lemmas conn_inv_defs = conn_inv_def stream_inv_def attached_inv_def mode_inv_def Let_def

lemma loop_in_step_ctl: "loop_in_step (ctl, cid) ch l = loop_in_step (ctl', cid) ch l"
  by (simp add: loop_in_step_def in_step_def split: option.splits)

lemma loop_in_step_frame:
  "el_poller l' = el_poller l \<Longrightarrow> loop_in_step k ch l' = loop_in_step k ch l"
  "el_poller l' = el_poller l \<Longrightarrow> loop_watched l' fd = loop_watched l fd"
  by (simp_all add: loop_in_step_def loop_watched_def)

lemma in_step_tie [simp]:
  "loop_in_step k (Channel_tie obj ch) l = loop_in_step k ch l"
  "loop_in_step k (ch\<lparr>ch_revents := r\<rparr>) l = loop_in_step k ch l"
  "isReading (Channel_tie obj ch) = isReading ch" "isWriting (Channel_tie obj ch) = isWriting ch"
  "isNoneEvent (Channel_tie obj ch) = isNoneEvent ch"
  "ch_events (Channel_tie obj ch) = ch_events ch" "ch_fd (Channel_tie obj ch) = ch_fd ch"
  by (simp_all add: loop_in_step_def in_step_def Channel_tie_def isReading_def isWriting_def
      isNoneEvent_def split: option.splits)

lemma kernel_docD: "kernel_doc K \<Longrightarrow> epoll_ctl_doc (kn_ctl K)" "kernel_doc K \<Longrightarrow> readv_doc (kn_readv K)"
  by (simp_all add: kernel_doc_def)

text \<open>A functor in the queue changes nothing the invariant reads.\<close>

lemma queue_task_simps [simp]:
  "w_conn (queue_task K tid f s) = w_conn s" "w_wire (queue_task K tid f s) = w_wire s"
  "w_accepted (queue_task K tid f s) = w_accepted s"
  "w_strings (queue_task K tid f s) = w_strings s" "w_app (queue_task K tid f s) = w_app s"
  "w_next (queue_task K tid f s) = w_next s"
  "el_poller (w_loop (queue_task K tid f s)) = el_poller (w_loop s)"
  "el_pending (w_loop (queue_task K tid f s)) = el_pending (w_loop s) @ [f]"
  "el_thread (w_loop (queue_task K tid f s)) = el_thread (w_loop s)"
  "loop_in_step k ch (w_loop (queue_task K tid f s)) = loop_in_step k ch (w_loop s)"
  "loop_watched (w_loop (queue_task K tid f s)) fd = loop_watched (w_loop s) fd"
  by (simp_all add: queue_task_def loop_in_step_def loop_watched_def)

lemma queue_task_inv [net_inv]: "conn_inv (queue_task K tid f s) = conn_inv s"
  by (simp add: conn_inv_defs)

text \<open>The five ways a handler changes the interest set, as one.\<close>

definition sets_events ::
  "((conn_cb channel \<Rightarrow> ('a conn_task, conn_cb) evloop \<Rightarrow>
        (conn_cb channel \<times> ('a conn_task, conn_cb) evloop) result) \<Rightarrow>
      conn_cb channel \<Rightarrow> ('a conn_task, conn_cb) evloop \<Rightarrow>
        (conn_cb channel \<times> ('a conn_task, conn_cb) evloop) result) \<Rightarrow>
     (flags \<Rightarrow> flags) \<Rightarrow> bool" where
  "sets_events op g \<longleftrightarrow>
     (\<forall>upd ch l. op upd ch l = upd (ch\<lparr>ch_events := g (ch_events ch)\<rparr>) l)"

lemma sets_events_ops:
  "sets_events enableReading (\<lambda>e. e OR kReadEvent)"
  "sets_events enableWriting (\<lambda>e. e OR kWriteEvent)"
  "sets_events disableWriting (\<lambda>e. e AND NOT kWriteEvent)"
  "sets_events disableAll (\<lambda>e. 0)"
  by (simp_all add: sets_events_def enableReading_def enableWriting_def disableWriting_def
      disableAll_def)

lemma on_channelE:
  assumes "on_channel op K s = Inr t" and "sets_events op g" and "epoll_ctl_doc (kn_ctl K)"
    and "\<forall>ctl. loop_in_step (ctl, co_id (w_conn s)) (co_channel (w_conn s)) (w_loop s)"
  obtains ch l where "t = s\<lparr>w_conn := (w_conn s)\<lparr>co_channel := ch\<rparr>, w_loop := l\<rparr>"
    and "ch_events ch = g (ch_events (co_channel (w_conn s)))"
    and "ch_fd ch = ch_fd (co_channel (w_conn s))"
    and "\<forall>ctl. loop_in_step (ctl, co_id (w_conn s)) ch l"
    and "loop_watched l (ch_fd ch) = Some (ch_events ch) \<or> ch_events ch = 0"
    and "el_pending l = el_pending (w_loop s)" and "el_thread l = el_thread (w_loop s)"
proof -
  let ?ch = "co_channel (w_conn s)" and ?k = "(kn_ctl K, co_id (w_conn s))"
  obtain ch l where u: "EventLoop_updateChannel ?k
      (?ch\<lparr>ch_events := g (ch_events ?ch)\<rparr>) (w_loop s) = Inr (ch, l)"
    and t: "t = s\<lparr>w_conn := (w_conn s)\<lparr>co_channel := ch\<rparr>, w_loop := l\<rparr>"
    using assms(1)
    by (auto simp: on_channel_def assms(2) [unfolded sets_events_def, rule_format] rbind_Inr_iff)
  have doc: "epoll_ctl_doc (fst ?k)" using assms(3) by simp
  have st: "loop_in_step ?k ?ch (w_loop s)" using assms(4) by simp
  note post = lo.set_events_post [OF doc st u]
  have "\<forall>ctl. loop_in_step (ctl, co_id (w_conn s)) ch l"
    using post(1) loop_in_step_ctl by blast
  then show thesis
    using post(3,4,5) loop_update_frame [OF u] by (intro that [OF t]) auto
qed

section \<open>The operations keep the invariant\<close>

lemma direct_write_post:
  assumes "kernel_doc K" and "unat len \<le> length data"
    and "direct_write K tid data len s = (n, remaining, faultError, s1)"
  shows "n \<le> unat len \<and> unat remaining = unat len - n \<and> (faultError \<longrightarrow> n = 0) \<and>
    w_wire s1 = w_wire s @ take n data \<and> w_conn s1 = w_conn s \<and>
    w_accepted s1 = w_accepted s \<and> w_strings s1 = w_strings s \<and>
    el_poller (w_loop s1) = el_poller (w_loop s) \<and>
    (sk_shut_wr (co_sock (w_conn s)) \<and> len \<noteq> 0 \<longrightarrow> faultError)"
proof (cases "kn_write K (sk_shut_wr (co_sock (w_conn s))) (w_wire s) (take (unat len) data)")
  case (Inl e)
  have "e = EPIPE" if "sk_shut_wr (co_sock (w_conn s))" "len \<noteq> 0"
  proof -
    have "take (unat len) data \<noteq> []"
      using that(2) assms(2) by (auto simp: size_eq_zero_iff)
    with that(1) assms(1) Inl show ?thesis by (simp add: kernel_doc_def)
  qed
  with assms(3) Inl show ?thesis
    by (auto simp: direct_write_def EPIPE_def EWOULDBLOCK_def)
next
  case (Inr m)
  have m: "m \<le> unat len"
    using assms(1,2) Inr unfolding kernel_doc_def by fastforce
  have "unat (of_nat m :: size_t) = m"
    using m unat_size_less [of len] by (intro unat_of_nat_size) linarith
  then have "unat (len - of_nat m) = unat len - m"
    using m by (simp add: unat_diff_size)
  moreover have "\<not> (sk_shut_wr (co_sock (w_conn s)) \<and> len \<noteq> 0)"
  proof
    assume a: "sk_shut_wr (co_sock (w_conn s)) \<and> len \<noteq> 0"
    then have "take (unat len) data \<noteq> []"
      using assms(2) by (auto simp: size_eq_zero_iff)
    with a assms(1) Inr show False by (simp add: kernel_doc_def)
  qed
  ultimately show ?thesis
    using assms(3) Inr m
    by (auto simp: direct_write_def Let_def split: option.splits if_splits)
qed

lemma mark_high_water_simps [simp]:
  "w_conn (mark_high_water K tid n s) = w_conn s"
  "w_wire (mark_high_water K tid n s) = w_wire s"
  "w_accepted (mark_high_water K tid n s) = w_accepted s"
  "w_strings (mark_high_water K tid n s) = w_strings s"
  "loop_in_step k ch (w_loop (mark_high_water K tid n s)) = loop_in_step k ch (w_loop s)"
  "loop_watched (w_loop (mark_high_water K tid n s)) fd = loop_watched (w_loop s) fd"
  by (auto simp: mark_high_water_def Let_def split: option.splits)

lemma buffer_rest_inv:
  assumes "kernel_doc K" and "attached_inv s" and "mode_inv s"
    and "Buffer_inv (InputBuffer (w_conn s))" and "Buffer_inv (OutputBuffer (w_conn s))"
    and "\<forall>ptr buf. w_strings s ptr = Some buf \<longrightarrow> length buf \<le> max_bytes"
    and "w_wire s @ out_bytes s @ take (unat remaining) rest = w_accepted s"
    and "unat remaining \<le> length rest" and "length rest \<le> max_bytes" and "0 < remaining"
    and "conn_up (co_state (w_conn s))" and "\<not> sk_shut_wr (co_sock (w_conn s))"
    and "buffer_rest K tid rest remaining s = Inr t"
  shows "conn_inv t \<and> co_state (w_conn t) = co_state (w_conn s) \<and>
    isWriting (co_channel (w_conn t)) \<and>
    out_bytes t = out_bytes s @ take (unat remaining) rest \<and> w_wire t = w_wire s"
proof -
  let ?c = "w_conn s"
  define s1 where "s1 = mark_high_water K tid remaining s"
  note s1 = mark_high_water_simps [where K = K and tid = tid and n = remaining and s = s, folded s1_def]
  obtain b where b: "Buffer_append (OutputBuffer ?c) rest remaining = Inr b"
    and t: "(if \<not> isWriting (co_channel ?c)
        then on_channel enableWriting K (s1\<lparr>w_conn := ?c\<lparr>OutputBuffer := b\<rparr>\<rparr>)
        else Inr (s1\<lparr>w_conn := ?c\<lparr>OutputBuffer := b\<rparr>\<rparr>)) = Inr t"
    using assms(13) by (auto simp: buffer_rest_def s1_def [symmetric] s1 Let_def rbind_Inr_iff cong: if_cong)
  have "remaining \<le> vector_max"
    using assms(8,9) by (simp add: word_le_nat_alt max_bytes_val)
  from append_post [OF assms(5) this assms(8) b]
  have bi: "Buffer_inv b" and bc: "contents b = out_bytes s @ take (unat remaining) rest"
    by auto
  have ne: "contents b \<noteq> []"
    using assms(8,10) by (auto simp: bc word_less_nat_alt)
  show ?thesis
  proof (cases "isWriting (co_channel ?c)")
    case True
    then have tt: "t = s1\<lparr>w_conn := ?c\<lparr>OutputBuffer := b\<rparr>\<rparr>" using t by simp
    from assms(2,3,4,6,7,11,12) bi bc ne True show ?thesis
      unfolding conn_inv_defs tt by (simp add: s1) auto
  next
    case False
    let ?s2 = "s1\<lparr>w_conn := ?c\<lparr>OutputBuffer := b\<rparr>\<rparr>"
    have on: "on_channel enableWriting K ?s2 = Inr t"
      using t False by simp
    have doc: "epoll_ctl_doc (kn_ctl K)" using assms(1) by (simp add: kernel_doc_def)
    have att: "\<forall>ctl. loop_in_step (ctl, co_id (w_conn ?s2)) (co_channel (w_conn ?s2)) (w_loop ?s2)"
      using assms(2) s1 by (simp add: attached_inv_def)
    from on sets_events_ops(2) doc att obtain ch l where
      tt: "t = ?s2\<lparr>w_conn := (w_conn ?s2)\<lparr>co_channel := ch\<rparr>, w_loop := l\<rparr>"
      and ev: "ch_events ch = ch_events (co_channel ?c) OR kWriteEvent"
      and fd: "ch_fd ch = ch_fd (co_channel ?c)"
      and st: "\<forall>ctl. loop_in_step (ctl, co_id ?c) ch l"
      and wa: "loop_watched l (ch_fd ch) = Some (ch_events ch) \<or> ch_events ch = 0"
      by (rule on_channelE) simp
    from mask_effects(2) [OF ev] have
      "isWriting ch" "isReading ch = isReading (co_channel ?c)" "ch_events ch \<noteq> 0"
      by (auto simp: isNoneEvent_def)
    with st wa fd assms(3,4,6,7,11,12) bi bc ne show ?thesis
      unfolding conn_inv_defs tt by (simp add: s1) auto
  qed
qed

lemma conn_inv_up:
  assumes "conn_inv s" and "conn_up (co_state (w_conn s))"
  shows "isReading (co_channel (w_conn s))"
    and "isWriting (co_channel (w_conn s)) \<longleftrightarrow> out_bytes s \<noteq> []"
    and "sk_shut_wr (co_sock (w_conn s)) \<Longrightarrow> out_bytes s = []"
    and "loop_watched (w_loop s) (ch_fd (co_channel (w_conn s)))
          = Some (ch_events (co_channel (w_conn s)))"
  using assms by (auto simp: conn_inv_def mode_inv_def attached_inv_def Let_def)

lemma sendInLoop_direct:
  assumes K: "kernel_doc K" and inv: "conn_inv s" and up: "conn_up (co_state (w_conn s))"
    and len: "unat len \<le> length data" "length data \<le> max_bytes"
    and empty: "\<not> isWriting (co_channel (w_conn s))" "out_bytes s = []"
    and send: "sendInLoop K tid data len s = Inr t"
  shows "conn_inv t \<and> co_state (w_conn t) = co_state (w_conn s)"
proof -
  obtain n remaining fe s1 where d: "direct_write K tid data len s = (n, remaining, fe, s1)"
    by (metis prod_cases4)
  note post = direct_write_post [OF K len(1) d]
  have st: "loop_in_step k ch (w_loop s1) = loop_in_step k ch (w_loop s)"
    "loop_watched (w_loop s1) fd = loop_watched (w_loop s) fd" for k ch fd
    using loop_in_step_frame [of "w_loop s1" "w_loop s"] post by blast+
  let ?s2 = "if fe then s1 else s1\<lparr>w_accepted := w_accepted s1 @ take (unat len) data\<rparr>"
  have r0: "readableBytes (OutputBuffer (w_conn s)) = 0"
    using inv empty(2) by (simp add: readable_eq_0_iff conn_inv_def stream_inv_def)
  have t: "(if \<not> fe \<and> 0 < remaining then buffer_rest K tid (drop n data) remaining ?s2 else Inr ?s2)
      = Inr t"
    using send up len(1) empty(1) r0 d by (auto simp: sendInLoop_def Let_def)
  have wire: "w_wire s = w_accepted s"
    using inv empty(2) by (simp add: conn_inv_def stream_inv_def)
  have split: "take n data @ take (unat len - n) (drop n data) = take (unat len) data"
    using post by (metis le_add_diff_inverse take_add)
  show ?thesis
  proof (cases "\<not> fe \<and> 0 < remaining")
    case True
    with t have bt: "buffer_rest K tid (drop n data) remaining ?s2 = Inr t" by simp
    have "len \<noteq> 0" using True post by (auto simp: word_less_nat_alt)
    then have ns: "\<not> sk_shut_wr (co_sock (w_conn s))" using True post by blast
    have "conn_inv t \<and> co_state (w_conn t) = co_state (w_conn ?s2) \<and>
        isWriting (co_channel (w_conn t)) \<and>
        out_bytes t = out_bytes ?s2 @ take (unat remaining) (drop n data) \<and> w_wire t = w_wire ?s2"
    proof (rule buffer_rest_inv [OF K _ _ _ _ _ _ _ _ _ _ _ bt])
      show "attached_inv ?s2" "mode_inv ?s2"
        using inv post by (simp_all add: conn_inv_def attached_inv_def mode_inv_def st)
      show "w_wire ?s2 @ out_bytes ?s2 @ take (unat remaining) (drop n data) = w_accepted ?s2"
        using post True empty(2) split wire by simp
      show "unat remaining \<le> length (drop n data)" using post len(1) by simp
      show "length (drop n data) \<le> max_bytes" using len(2) by simp
    qed (use inv post True up ns in \<open>simp_all add: conn_inv_def stream_inv_def\<close>)
    with post show ?thesis by simp
  next
    case False
    then have tt: "t = ?s2" using t by auto
    have "fe \<or> n = unat len" using False post by (auto simp: word_less_nat_alt)
    then show ?thesis
      using inv post wire empty(2)
      by (auto simp: tt conn_inv_def stream_inv_def attached_inv_def mode_inv_def st)
  qed
qed

lemma sendInLoop_inv:
  assumes K: "kernel_doc K" and inv: "conn_inv s" and st: "co_state (w_conn s) \<noteq> kConnecting"
    and len: "length data \<le> max_bytes" and send: "sendInLoop K tid data len s = Inr t"
  shows "conn_inv t \<and> co_state (w_conn t) = co_state (w_conn s)"
proof (cases "co_state (w_conn s) = kDisconnected")
  case True
  with send inv show ?thesis by (simp add: sendInLoop_def)
next
  case False
  with st have up: "conn_up (co_state (w_conn s))" by (cases "co_state (w_conn s)") auto
  have le: "unat len \<le> length data"
    using send False by (auto simp: sendInLoop_def split: if_splits)
  have w: "isWriting (co_channel (w_conn s)) \<longleftrightarrow> out_bytes s \<noteq> []"
    by (rule conn_inv_up(2) [OF inv up])
  show ?thesis
  proof (cases "out_bytes s = []")
    case True
    with w sendInLoop_direct [OF K inv up le len _ True send] show ?thesis by simp
  next
    case ne: False
    let ?s2 = "s\<lparr>w_accepted := w_accepted s @ take (unat len) data\<rparr>"
    have t: "(if 0 < len then buffer_rest K tid data len ?s2 else Inr ?s2) = Inr t"
      using send False le w ne by (simp add: sendInLoop_def Let_def cong: if_cong)
    show ?thesis
    proof (cases "0 < len")
      case True
      with t have bt: "buffer_rest K tid data len ?s2 = Inr t" by simp
      from conn_inv_up(3) [OF inv up] ne have ns: "\<not> sk_shut_wr (co_sock (w_conn s))" by blast
      have "conn_inv t \<and> co_state (w_conn t) = co_state (w_conn ?s2) \<and>
          isWriting (co_channel (w_conn t)) \<and>
          out_bytes t = out_bytes ?s2 @ take (unat len) data \<and> w_wire t = w_wire ?s2"
      proof (rule buffer_rest_inv [OF K _ _ _ _ _ _ le len True _ _ bt])
        show "attached_inv ?s2" "mode_inv ?s2"
          using inv by (simp_all add: conn_inv_def attached_inv_def mode_inv_def)
        show "w_wire ?s2 @ out_bytes ?s2 @ take (unat len) data = w_accepted ?s2"
          using inv by (simp add: conn_inv_def stream_inv_def)
      qed (use inv up ns in \<open>simp_all add: conn_inv_def stream_inv_def\<close>)
      then show ?thesis by simp
    next
      case False
      then have "len = 0" by (simp add: word_less_nat_alt size_eq_zero_iff)
      with t inv show ?thesis
        by (auto simp: conn_inv_def stream_inv_def attached_inv_def mode_inv_def)
    qed
  qed
qed

text \<open>A state change that touches nothing the invariant reads.\<close>

lemma conn_inv_frame [net_inv]:
  "conn_inv (s\<lparr>w_app := u\<rparr>) = conn_inv s"
  "conn_inv (s\<lparr>w_errors := es\<rparr>) = conn_inv s"
  "conn_inv (s\<lparr>w_next := n\<rparr>) = conn_inv s"
  "conn_inv (s\<lparr>w_loop := (w_loop s)\<lparr>el_pending := fs\<rparr>\<rparr>) = conn_inv s"
  "conn_inv (s\<lparr>w_loop := EventLoop_handleRead r (w_loop s)\<rparr>) = conn_inv s"
  by (auto simp: conn_inv_defs loop_in_step_def loop_watched_def EventLoop_handleRead_def
      split: sum.splits)

lemma conn_inv_strings [net_inv]:
  "conn_inv s \<Longrightarrow> length buf \<le> max_bytes \<Longrightarrow>
     conn_inv (s\<lparr>w_strings := (w_strings s)(ptr \<mapsto> buf), w_next := n\<rparr>)"
  "conn_inv s \<Longrightarrow> conn_inv (s\<lparr>w_strings := (w_strings s)(ptr := None)\<rparr>)"
  by (auto simp: conn_inv_def stream_inv_def attached_inv_def mode_inv_def Let_def)

lemma conn_inv_input [net_inv]:
  "conn_inv s \<Longrightarrow> Buffer_inv b \<Longrightarrow> conn_inv (s\<lparr>w_conn := (w_conn s)\<lparr>InputBuffer := b\<rparr>\<rparr>)"
  by (auto simp: conn_inv_def stream_inv_def attached_inv_def mode_inv_def Let_def)

lemma conn_inv_revents [net_inv]:
  "conn_inv (s\<lparr>w_conn := (w_conn s)\<lparr>co_channel := (co_channel (w_conn s))\<lparr>ch_revents := r\<rparr>\<rparr>\<rparr>)
     = conn_inv s"
  by (auto simp: conn_inv_defs isReading_def isWriting_def isNoneEvent_def)

lemma buffers_inv: "conn_inv s \<Longrightarrow> Buffer_inv (InputBuffer (w_conn s))"
  "conn_inv s \<Longrightarrow> Buffer_inv (OutputBuffer (w_conn s))"
  "conn_inv s \<Longrightarrow> w_strings s ptr = Some buf \<Longrightarrow> length buf \<le> max_bytes"
  by (auto simp: conn_inv_def stream_inv_def)

lemma send_inv [net_inv]:
  assumes "kernel_doc K" and "conn_inv s" and "Connection_send K tid ptr s = Inr t"
  shows "conn_inv t"
proof -
  obtain buf where buf: "w_strings s ptr = Some buf"
    using assms(3) by (auto simp: Connection_send_def split: option.splits)
  note le = buffers_inv(3) [OF assms(2) buf]
  show ?thesis
  proof (cases "connected (w_conn s) \<and> isInLoopThread tid (w_loop s)")
    case True
    with assms(3) buf have "sendInLoop K tid buf (of_nat (length buf)) s = Inr t"
      by (simp add: Connection_send_def)
    from sendInLoop_inv [OF assms(1,2) _ le this] True show ?thesis
      by (simp add: connected_def)
  next
    case False
    with assms(2,3) buf show ?thesis
      by (auto simp: Connection_send_def run_or_queue_def queue_task_inv split: if_splits)
  qed
qed

lemma send_chars_inv [net_inv]:
  assumes "kernel_doc K" and "conn_inv s" and "Connection_send_chars K tid data len s = Inr t"
  shows "conn_inv t"
proof -
  have "nat (sint len) \<le> 9223372036854775807" using sint_lt [of len] by simp
  then have le: "length (take (nat (sint len)) data) \<le> max_bytes"
    unfolding length_take max_bytes_val by (rule order_trans [OF min.cobounded2])
  let ?s1 = "s\<lparr>w_strings := (w_strings s)(w_next s \<mapsto> take (nat (sint len)) data),
    w_next := Suc (w_next s)\<rparr>"
  obtain s2 where s2: "Connection_send K tid (w_next s) ?s1 = Inr s2"
    and t: "t = s2\<lparr>w_strings := (w_strings s2)(w_next s := None)\<rparr>"
    using assms(3) by (auto simp: Connection_send_chars_def Let_def rbind_Inr_iff split: if_splits)
  have "conn_inv ?s1" by (rule conn_inv_strings(1) [OF assms(2) le])
  from send_inv [OF assms(1) this s2] show ?thesis
    unfolding t by (rule conn_inv_strings(2))
qed

lemma shutdownInLoop_inv [net_inv]: "conn_inv s \<Longrightarrow> co_state (w_conn s) \<noteq> kConnecting \<Longrightarrow>
  conn_inv (shutdownInLoop K s)"
  by (auto simp: shutdownInLoop_def conn_inv_def stream_inv_def attached_inv_def mode_inv_def Let_def)

lemma shutdown_inv [net_inv]:
  assumes "conn_inv s" and "Connection_shutdown K tid s = Inr t"
  shows "conn_inv t"
proof (cases "co_state (w_conn s) = kConnected")
  case True
  have "conn_inv (setState kDisconnecting s)"
    using assms(1) True
    by (auto simp: setState_def conn_inv_def stream_inv_def attached_inv_def mode_inv_def Let_def)
  with assms(2) True shutdownInLoop_inv [OF this] show ?thesis
    by (auto simp: Connection_shutdown_def run_or_queue_def queue_task_inv setState_def
        split: if_splits)
qed (use assms in \<open>simp add: Connection_shutdown_def\<close>)

lemma run_api_inv [net_inv]:
  assumes "kernel_doc K" and "conn_inv s" and "run_api K tid cs s = Inr t"
  shows "conn_inv t"
  using assms(2,3)
proof (induction cs arbitrary: s)
  case (Cons c cs)
  note inv = Cons.prems(1)
  show ?case
  proof (cases c)
    case (Call_send ptr)
    with Cons.prems(2) obtain u where "Connection_send K tid ptr s = Inr u"
      and "run_api K tid cs u = Inr t" by (auto simp: rbind_Inr_iff)
    with Cons.IH [OF send_inv [OF assms(1) inv]] show ?thesis by blast
  next
    case (Call_send_chars d n)
    with Cons.prems(2) obtain u where "Connection_send_chars K tid d n s = Inr u"
      and "run_api K tid cs u = Inr t" by (auto simp: rbind_Inr_iff)
    with Cons.IH [OF send_chars_inv [OF assms(1) inv]] show ?thesis by blast
  next
    case Call_shutdown
    with Cons shutdown_inv [OF inv] show ?thesis by (auto simp: rbind_Inr_iff)
  next
    case (Call_retrieve n)
    have "Buffer_inv (retrieve (InputBuffer (w_conn s)) n)"
      using retrieve_post [OF buffers_inv(1) [OF inv]] by blast
    from Cons.IH [OF conn_inv_input [OF inv this]] Cons.prems(2) Call_retrieve
    show ?thesis by simp
  next
    case Call_retrieveAll
    from Cons.IH [OF conn_inv_input [OF inv retrieveAll_post(1) [OF buffers_inv(1) [OF inv]]]]
      Cons.prems(2) Call_retrieveAll
    show ?thesis by simp
  qed
qed simp

lemma call_user_inv [net_inv]:
  assumes "kernel_doc K" and "conn_inv s" and "call_user K app tid cb ev s = Inr t"
  shows "conn_inv t"
proof -
  obtain calls u where "run_api K tid calls (s\<lparr>w_app := u\<rparr>) = Inr t"
    using assms(3) by (auto simp: call_user_def split: option.splits prod.splits)
  from run_api_inv [OF assms(1) _ this] assms(2) show ?thesis
    by (simp add: conn_inv_frame)
qed

text \<open>Leaving the connection: the state is set and everything disabled.\<close>

lemma disconnect_inv:
  assumes "kernel_doc K" and "conn_inv s"
    and "on_channel disableAll K (setState kDisconnected s) = Inr t"
  shows "conn_inv t \<and> co_state (w_conn t) = kDisconnected"
proof -
  let ?s = "setState kDisconnected s"
  have st: "\<forall>ctl. loop_in_step (ctl, co_id (w_conn ?s)) (co_channel (w_conn ?s)) (w_loop ?s)"
    using assms(2) by (simp add: conn_inv_def attached_inv_def setState_def)
  obtain ch l where
    tt: "t = ?s\<lparr>w_conn := (w_conn ?s)\<lparr>co_channel := ch\<rparr>, w_loop := l\<rparr>"
    and ch: "ch_events ch = 0" "ch_fd ch = ch_fd (co_channel (w_conn s))"
      "\<forall>ctl. loop_in_step (ctl, co_id (w_conn s)) ch l"
    by (rule on_channelE [OF assms(3) sets_events_ops(4) kernel_docD(1) [OF assms(1)] st])
      (simp add: setState_def)
  from mask_effects(5) [of ch] ch(1) have "isNoneEvent ch" by simp
  with assms(2) ch show ?thesis
    unfolding conn_inv_defs tt by (simp add: setState_def)
qed

lemma handleClose_inv [net_inv]:
  assumes "kernel_doc K" and "conn_inv s" and "handleClose K app tid s = Inr t"
  shows "conn_inv t"
proof -
  obtain s1 s2 where "on_channel disableAll K (setState kDisconnected s) = Inr s1"
    and "call_user K app tid (cn_connectionCallback (w_conn s1)) On_connection s1 = Inr s2"
    and "call_user K app tid (cn_closeCallback (w_conn s2)) On_close s2 = Inr t"
    using assms(3) by (auto simp: handleClose_def rbind_Inr_iff)
  with disconnect_inv [OF assms(1,2)] call_user_inv [OF assms(1)] show ?thesis by blast
qed

lemma handleRead_inv [net_inv]:
  assumes "kernel_doc K" and "conn_inv s" and "handleRead K app tid time s = Inr t"
  shows "conn_inv t"
proof -
  obtain n err b where r: "readFd (kn_readv K) (InputBuffer (w_conn s)) = Inr (n, err, b)"
    using assms(3) by (auto simp: handleRead_def rbind_Inr_iff)
  from readFd_inv [OF buffers_inv(1) [OF assms(2)] kernel_docD(2) [OF assms(1)] r]
  have i: "conn_inv (s\<lparr>w_conn := (w_conn s)\<lparr>InputBuffer := b\<rparr>\<rparr>)"
    by (rule conn_inv_input [OF assms(2)])
  show ?thesis
    using assms(3) r i handleClose_inv [OF assms(1) i, of app tid t]
      call_user_inv [OF assms(1) i, of app tid "cn_messageCallback (w_conn s)" "On_message time" t]
    by (simp add: handleRead_def handleError_def conn_inv_frame Let_def split: if_splits)
      (auto simp: conn_inv_frame)
qed

lemma handleWrite_eq:
  assumes "isWriting (co_channel (w_conn s))"
    and "kn_write K (sk_shut_wr (co_sock (w_conn s))) (w_wire s) (out_bytes s) = Inr n"
    and "Buffer_inv (retrieve (OutputBuffer (w_conn s)) (of_nat n))"
  shows "handleWrite K tid s =
    (let b = retrieve (OutputBuffer (w_conn s)) (of_nat n);
         s2 = s\<lparr>w_wire := w_wire s @ take n (out_bytes s), w_conn := (w_conn s)\<lparr>OutputBuffer := b\<rparr>\<rparr>
     in if 0 < n then
          if contents b = [] then
            rbind (on_channel disableWriting K s2) (\<lambda>s3.
            let s4 = (case cn_writeCompleteCallback (w_conn s3) of
                 None \<Rightarrow> s3 | Some cb \<Rightarrow> queue_task K tid (WriteComplete cb) s3)
            in if co_state (w_conn s4) = kDisconnecting then Inr (shutdownInLoop K s4) else Inr s4)
          else Inr s2
        else Inr s)"
  using assms(1,2) readable_eq_0_iff [OF assms(3)]
  by (simp add: handleWrite_def writeFd_def Let_def cong: if_cong)

lemma conn_inv_output:
  assumes "conn_inv s" and "Buffer_inv b" and "wire @ contents b = w_accepted s"
    and "contents b \<noteq> []" and "out_bytes s \<noteq> []"
  shows "conn_inv (s\<lparr>w_wire := wire, w_conn := (w_conn s)\<lparr>OutputBuffer := b\<rparr>\<rparr>)"
  using assms by (simp add: conn_inv_def stream_inv_def attached_inv_def mode_inv_def Let_def)

lemma handleWrite_inv [net_inv]:
  assumes K: "kernel_doc K" and inv: "conn_inv s" and run: "handleWrite K tid s = Inr t"
  shows "conn_inv t"
proof (cases "isWriting (co_channel (w_conn s))")
  case False
  with run inv show ?thesis by (simp add: handleWrite_def)
next
  case True
  let ?out = "OutputBuffer (w_conn s)"
  let ?w = "kn_write K (sk_shut_wr (co_sock (w_conn s))) (w_wire s)"
  have up: "conn_up (co_state (w_conn s))"
    using True inv by (cases "co_state (w_conn s)")
      (auto simp: conn_inv_def mode_inv_def Let_def isNoneEvent_def isWriting_def)
  show ?thesis
  proof (cases "?w (contents ?out)")
    case (Inl e)
    with run True inv show ?thesis by (simp add: handleWrite_def writeFd_def Let_def)
  next
    case (Inr n)
    have n: "n \<le> length (contents ?out)" using K Inr by (auto simp: kernel_doc_def)
    have lim: "length (contents ?out) < 2 ^ 64"
      by (simp only: length_contents [OF buffers_inv(2) [OF inv]] unat_size_less)
    with n have un: "unat (of_nat n :: size_t) = n" by (intro unat_of_nat_size) linarith
    let ?b = "retrieve ?out (of_nat n)"
    from retrieve_post [OF buffers_inv(2) [OF inv], of "of_nat n"] un
    have bi: "Buffer_inv ?b" and bc: "contents ?b = drop n (contents ?out)" by auto
    let ?s2 = "s\<lparr>w_wire := w_wire s @ take n (contents ?out),
      w_conn := (w_conn s)\<lparr>OutputBuffer := ?b\<rparr>\<rparr>"
    note hw = handleWrite_eq [OF True Inr bi]
    show ?thesis
    proof (cases "0 < n \<and> contents ?b = []")
      case False
      have t: "t = (if 0 < n then ?s2 else s)"
      proof (cases "0 < n")
        case True
        with False have "contents ?b \<noteq> []" by blast
        with run True show ?thesis unfolding hw by (simp only: Let_def if_True if_False sum.inject)
      qed (use run in \<open>simp add: hw\<close>)
      show ?thesis
      proof (cases "0 < n")
        case True
        have "conn_inv ?s2"
        proof (rule conn_inv_output [OF inv bi])
          show "(w_wire s @ take n (contents ?out)) @ contents ?b = w_accepted s"
            using inv by (simp add: bc conn_inv_def stream_inv_def)
          show "contents ?b \<noteq> []" "contents ?out \<noteq> []" using True False bc by auto
        qed
        with t True show ?thesis by simp
      qed (use t inv in simp)
    next
      case drained: True
      have st: "\<forall>ctl. loop_in_step (ctl, co_id (w_conn ?s2)) (co_channel (w_conn ?s2)) (w_loop ?s2)"
        using inv by (simp add: conn_inv_def attached_inv_def)
      obtain s3 where on: "on_channel disableWriting K ?s2 = Inr s3"
        and t: "t = (let s4 = (case cn_writeCompleteCallback (w_conn s3) of
              None \<Rightarrow> s3 | Some cb \<Rightarrow> queue_task K tid (WriteComplete cb) s3)
          in if co_state (w_conn s4) = kDisconnecting then shutdownInLoop K s4 else s4)"
        using run drained unfolding hw by (auto simp: Let_def rbind_Inr_iff split: if_splits)
      obtain ch l where
        s3: "s3 = ?s2\<lparr>w_conn := (w_conn ?s2)\<lparr>co_channel := ch\<rparr>, w_loop := l\<rparr>"
        and ev: "ch_events ch = ch_events (co_channel (w_conn s)) AND NOT kWriteEvent"
        and ch: "ch_fd ch = ch_fd (co_channel (w_conn s))"
          "\<forall>ctl. loop_in_step (ctl, co_id (w_conn s)) ch l"
          "loop_watched l (ch_fd ch) = Some (ch_events ch) \<or> ch_events ch = 0"
        by (rule on_channelE [OF on sets_events_ops(3) kernel_docD(1) [OF K] st]) simp
      have m: "\<not> isWriting ch" "isReading ch"
        using mask_effects(4) [OF ev] conn_inv_up(1) [OF inv up] by simp_all
      have "ch_events ch \<noteq> 0" using m(2) by (auto simp: isReading_def)
      with ch m inv bi bc drained up have i3: "conn_inv s3"
        unfolding s3 conn_inv_defs by auto
      have "co_state (w_conn s3) \<noteq> kConnecting" using up by (auto simp: s3)
      with i3 shutdownInLoop_inv show ?thesis
        unfolding t by (auto simp: Let_def queue_task_inv split: option.splits)
    qed
  qed
qed

lemma connectEstablished_inv [net_inv]:
  assumes K: "kernel_doc K" and inv: "conn_inv s" and st0: "co_state (w_conn s) = kConnecting"
    and run: "connectEstablished K app tid s = Inr t"
  shows "conn_inv t"
proof -
  let ?s = "(setState kConnected s)\<lparr>w_conn := (w_conn (setState kConnected s))
    \<lparr>co_channel := Channel_tie (co_id (w_conn s)) (co_channel (w_conn s))\<rparr>\<rparr>"
  obtain s3 where on: "on_channel enableReading K ?s = Inr s3"
    and user: "call_user K app tid (cn_connectionCallback (w_conn s3)) On_connection s3 = Inr t"
    using run by (auto simp: connectEstablished_def Let_def setState_def rbind_Inr_iff)
  have st: "\<forall>ctl. loop_in_step (ctl, co_id (w_conn ?s)) (co_channel (w_conn ?s)) (w_loop ?s)"
    using inv by (simp add: conn_inv_def attached_inv_def setState_def)
  obtain ch l where
    s3: "s3 = ?s\<lparr>w_conn := (w_conn ?s)\<lparr>co_channel := ch\<rparr>, w_loop := l\<rparr>"
    and ev: "ch_events ch = ch_events (co_channel (w_conn s)) OR kReadEvent"
    and ch: "ch_fd ch = ch_fd (co_channel (w_conn s))"
      "\<forall>ctl. loop_in_step (ctl, co_id (w_conn s)) ch l"
      "loop_watched l (ch_fd ch) = Some (ch_events ch) \<or> ch_events ch = 0"
    by (rule on_channelE [OF on sets_events_ops(1) kernel_docD(1) [OF K] st])
      (simp add: setState_def)
  have m: "isReading ch" "isWriting ch = isWriting (co_channel (w_conn s))"
    using mask_effects(1) [OF ev] by simp_all
  have "ch_events ch \<noteq> 0" using m(1) by (auto simp: isReading_def)
  with ch m inv st0 have "conn_inv s3"
    unfolding s3 conn_inv_defs by (auto simp: setState_def isNoneEvent_def isWriting_def)
  from call_user_inv [OF K this user] show ?thesis .
qed

text \<open>A functor of the connection's life between being established and being destroyed.\<close>

definition life_task :: "'a conn_task \<Rightarrow> bool" where
  "life_task f \<longleftrightarrow> f \<noteq> ConnectEstablished \<and> f \<noteq> ConnectDestroyed"

lemma run_task_inv [net_inv]:
  assumes K: "kernel_doc K" and inv: "conn_inv s" and st: "co_state (w_conn s) \<noteq> kConnecting"
    and f: "life_task f" and run: "run_task K app tid f s = Inr t"
  shows "conn_inv t"
proof (cases f)
  case (SendInLoop ptr len)
  then obtain data where "w_strings s ptr = Some data" "sendInLoop K tid data len s = Inr t"
    using run by (auto split: option.splits)
  with sendInLoop_inv [OF K inv st] buffers_inv(3) [OF inv] show ?thesis by blast
next
  case ShutdownInLoop
  with run shutdownInLoop_inv [OF inv st] show ?thesis by auto
qed (use f run call_user_inv [OF K inv] in \<open>auto simp: life_task_def\<close>)

lemma run_callback_inv [net_inv]:
  assumes K: "kernel_doc K" and inv: "conn_inv s" and run: "run_callback K app tid cb s = Inr t"
  shows "conn_inv t"
proof (cases cb)
  case Conn_handleWrite
  with run handleWrite_inv [OF K inv] show ?thesis by simp
next
  case Conn_handleClose
  with run handleClose_inv [OF K inv] show ?thesis by simp
qed (use run inv in \<open>auto simp: conn_inv_frame handleError_def Let_def\<close>)

lemma run_readback_inv [net_inv]:
  assumes K: "kernel_doc K" and inv: "conn_inv s"
    and run: "run_readback K app tid cb time s = Inr t"
  shows "conn_inv t"
  using run handleRead_inv [OF K inv] run_callback_inv [OF K inv]
  by (auto simp: run_readback_def split: if_splits)

lemma guarded_call_keeps:
  assumes "\<And>c u v. P u \<Longrightarrow> run c u = Inr v \<Longrightarrow> P v" and "P s"
    and "(if b then call_cb run cb s else Inr s) = Inr t"
  shows "P t"
proof (cases b)
  case True
  with assms(2,3) assms(1) [of s] show ?thesis
    by (cases cb) (simp_all add: call_cb_def)
qed (use assms in simp)

text \<open>What all callbacks keep, the dispatch of an event keeps.\<close>

lemma handleEventWithGuard_keeps:
  assumes run: "\<And>c u v. P u \<Longrightarrow> run c u = Inr v \<Longrightarrow> P v"
    and read: "\<And>c u v. P u \<Longrightarrow> runRead c time u = Inr v \<Longrightarrow> P v"
    and s: "P s" and t: "handleEventWithGuard run runRead get time s = Inr t"
  shows "P t"
proof -
  note call = guarded_call_keeps [where P = P and run = run, OF run]
    and callr = guarded_call_keeps [where P = P and run = "\<lambda>c. runRead c time", OF read]
  show ?thesis
    using t unfolding handleEventWithGuard_def
    by (elim rbindE) (rule call [OF _ _ callr [OF _ _ call [OF _ _ call [OF _ _ s]]]])
qed

text \<open>What \<open>buffer_rest\<close> does when nothing waits and no high-water callback is set.\<close>

lemma buffer_rest_effect:
  fixes s u t :: "('a, 'u) world"
  assumes "kernel_doc K" and "cn_highWaterMarkCallback (w_conn s) = None"
    and w: "\<not> isWriting (co_channel (w_conn s))" and inv: "Buffer_inv (OutputBuffer (w_conn s))"
    and att: "\<forall>ctl. loop_in_step (ctl, co_id (w_conn s)) (co_channel (w_conn s)) (w_loop s)"
    and run: "buffer_rest K tid d m u = Inr t" and u: "w_conn u = w_conn s"
      "el_poller (w_loop u) = el_poller (w_loop s)" and d: "unat m \<le> length d" "length d \<le> max_bytes"
  shows "el_pending (w_loop t) = el_pending (w_loop u) \<and> w_wire t = w_wire u \<and>
    out_bytes t = out_bytes u @ take (unat m) d"
proof -
  obtain b where b: "Buffer_append (OutputBuffer (w_conn s)) d m = Inr b"
    and on: "on_channel enableWriting K (u\<lparr>w_conn := (w_conn s)\<lparr>OutputBuffer := b\<rparr>\<rparr>) = Inr t"
    using run w by (auto simp: buffer_rest_def mark_high_water_def u assms(2) rbind_Inr_iff)
  have "m \<le> vector_max" using d by (simp add: word_le_nat_alt max_bytes_val)
  from append_post [OF inv this d(1) b]
  have bc: "contents b = out_bytes s @ take (unat m) d" by simp
  let ?u = "u\<lparr>w_conn := (w_conn s)\<lparr>OutputBuffer := b\<rparr>\<rparr>"
  have st: "\<forall>ctl. loop_in_step (ctl, co_id (w_conn ?u)) (co_channel (w_conn ?u)) (w_loop ?u)"
    using att loop_in_step_frame(1) [OF u(2)] by simp
  show ?thesis
    by (rule on_channelE [OF on sets_events_ops(2) kernel_docD(1) [OF assms(1)] st])
      (simp add: bc u)
qed

section \<open>Operations that return\<close>

lemma on_channel_total:
  assumes "sets_events op g" and "epoll_ctl_doc (kn_ctl K)" and "epoll_ctl_serves (kn_ctl K)"
    and "\<forall>ctl. loop_in_step (ctl, co_id (w_conn s)) (co_channel (w_conn s)) (w_loop s)"
  shows "\<exists>t. on_channel op K s = Inr t"
proof -
  obtain p where p: "el_poller (w_loop s) = Some p"
    and st: "in_step (kn_ctl K, co_id (w_conn s)) (co_channel (w_conn s)) p"
    using assms(4) by (auto simp: loop_in_step_def split: option.splits)
  let ?ch = "(co_channel (w_conn s))\<lparr>ch_events := g (ch_events (co_channel (w_conn s)))\<rparr>"
  have "in_step (kn_ctl K, co_id (w_conn s)) ?ch p" using st by (simp add: in_step_frame)
  from updateChannel_total [OF assms(2,3) this] p show ?thesis
    by (auto simp: on_channel_def assms(1) [unfolded sets_events_def, rule_format]
        EventLoop_updateChannel_def)
qed

text \<open>One writable event of a connection with pending output.\<close>

lemma handleWrite_progress:
  assumes K: "kernel_doc K" and ctl: "epoll_ctl_serves (kn_ctl K)" and inv: "conn_inv s"
    and up: "conn_up (co_state (w_conn s))" and ne: "out_bytes s \<noteq> []"
    and wr: "kn_write K (sk_shut_wr (co_sock (w_conn s))) (w_wire s) (out_bytes s) = Inr n"
    and n: "0 < n"
  shows "\<exists>t. handleWrite K tid s = Inr t \<and> conn_inv t \<and> co_state (w_conn t) = co_state (w_conn s) \<and>
    w_wire t = w_wire s @ take n (out_bytes s) \<and> out_bytes t = drop n (out_bytes s) \<and>
    (out_bytes t = [] \<longrightarrow> el_pending (w_loop t) = el_pending (w_loop s) @
       (case cn_writeCompleteCallback (w_conn s) of None \<Rightarrow> [] | Some cb \<Rightarrow> [WriteComplete cb]) \<and>
       (co_state (w_conn s) = kDisconnecting \<and> kn_shutdown K = None \<longrightarrow>
          sk_shut_wr (co_sock (w_conn t))))"
proof -
  let ?b = "retrieve (OutputBuffer (w_conn s)) (of_nat n)"
  have w: "isWriting (co_channel (w_conn s))" using conn_inv_up(2) [OF inv up] ne by simp
  have le: "n \<le> length (out_bytes s)" using K wr by (auto simp: kernel_doc_def)
  have "length (out_bytes s) < 2 ^ 64"
    by (simp only: length_contents [OF buffers_inv(2) [OF inv]] unat_size_less)
  with le have un: "unat (of_nat n :: size_t) = n" by (intro unat_of_nat_size) linarith
  from retrieve_post [OF buffers_inv(2) [OF inv], of "of_nat n"] un
  have bi: "Buffer_inv ?b" and bc: "contents ?b = drop n (out_bytes s)" by auto
  note hw = handleWrite_eq [OF w wr bi, of tid]
  let ?s2 = "s\<lparr>w_wire := w_wire s @ take n (out_bytes s),
    w_conn := (w_conn s)\<lparr>OutputBuffer := ?b\<rparr>\<rparr>"
  show ?thesis
  proof (cases "contents ?b = []")
    case False
    then have t: "handleWrite K tid s = Inr ?s2" unfolding hw using n by (simp add: Let_def)
    from handleWrite_inv [OF K inv t] have "conn_inv ?s2" .
    with t False show ?thesis by (intro exI [of _ ?s2]) (simp add: bc)
  next
    case True
    have st: "\<forall>ctl. loop_in_step (ctl, co_id (w_conn ?s2)) (co_channel (w_conn ?s2)) (w_loop ?s2)"
      using inv by (simp add: conn_inv_def attached_inv_def)
    obtain s3 where on: "on_channel disableWriting K ?s2 = Inr s3"
      using on_channel_total [OF sets_events_ops(3) kernel_docD(1) [OF K] ctl st] by blast
    obtain ch l where s3: "s3 = ?s2\<lparr>w_conn := (w_conn ?s2)\<lparr>co_channel := ch\<rparr>, w_loop := l\<rparr>"
      and ev: "ch_events ch = ch_events (co_channel (w_conn s)) AND NOT kWriteEvent"
      and pend: "el_pending l = el_pending (w_loop s)"
      by (rule on_channelE [OF on sets_events_ops(3) kernel_docD(1) [OF K] st]) simp
    have nw: "\<not> isWriting ch" using mask_effects(4) [OF ev] by simp
    define s4 where "s4 = (case cn_writeCompleteCallback (w_conn s3) of
      None \<Rightarrow> s3 | Some cb \<Rightarrow> queue_task K tid (WriteComplete cb) s3)"
    define t where "t = (if co_state (w_conn s4) = kDisconnecting then shutdownInLoop K s4 else s4)"
    have t: "handleWrite K tid s = Inr t"
      unfolding hw using n True on by (simp add: Let_def t_def s4_def)
    have 4: "w_conn s4 = w_conn s3" "w_wire s4 = w_wire s3"
      "el_pending (w_loop s4) = el_pending (w_loop s) @
       (case cn_writeCompleteCallback (w_conn s) of None \<Rightarrow> [] | Some cb \<Rightarrow> [WriteComplete cb])"
      using pend by (auto simp: s4_def s3 split: option.splits)
    from handleWrite_inv [OF K inv t] t show ?thesis
      using True nw by (intro exI [of _ t]) (simp add: t_def 4 shutdownInLoop_def s3 bc)
  qed
qed

fun writable_events :: "kernel \<Rightarrow> nat \<Rightarrow> nat \<Rightarrow> ('a, 'u) world \<Rightarrow> ('a, 'u) world result" where
  "writable_events K tid 0 s = Inr s"
| "writable_events K tid (Suc n) s = rbind (handleWrite K tid s) (writable_events K tid n)"

lemma idle_writable: "conn_inv s \<Longrightarrow> conn_up (co_state (w_conn s)) \<Longrightarrow> out_bytes s = [] \<Longrightarrow>
  writable_events K tid n s = Inr s"
  using conn_inv_up(2) [of s] by (induction n) (simp_all add: handleWrite_def)

lemma writable_events_drain:
  assumes K: "kernel_doc K" and ctl: "epoll_ctl_serves (kn_ctl K)"
    and takes: "\<And>wire bs. bs \<noteq> [] \<Longrightarrow> \<exists>n. kn_write K False wire bs = Inr n \<and> 0 < n"
    and sd: "kn_shutdown K = None"
  shows "conn_inv s \<Longrightarrow> conn_up (co_state (w_conn s)) \<Longrightarrow> length (out_bytes s) \<le> k \<Longrightarrow>
    \<exists>t. writable_events K tid k s = Inr t \<and> conn_inv t \<and> out_bytes t = [] \<and>
      w_wire t = w_wire s @ out_bytes s \<and> co_state (w_conn t) = co_state (w_conn s) \<and>
      (out_bytes s \<noteq> [] \<and> co_state (w_conn s) = kDisconnecting \<longrightarrow> sk_shut_wr (co_sock (w_conn t)))"
proof (induction k arbitrary: s)
  case (Suc k)
  note inv = Suc.prems(1) and up = Suc.prems(2)
  show ?case
  proof (cases "out_bytes s = []")
    case True
    with idle_writable [OF inv up True, of K tid "Suc k"] inv show ?thesis by simp
  next
    case False
    then have "\<not> sk_shut_wr (co_sock (w_conn s))" using conn_inv_up(3) [OF inv up] by blast
    then obtain n where n: "kn_write K (sk_shut_wr (co_sock (w_conn s))) (w_wire s) (out_bytes s) = Inr n"
      "0 < n" using takes [OF False] by auto
    from handleWrite_progress [OF K ctl inv up False n, of tid] obtain u where
      u: "handleWrite K tid s = Inr u" "conn_inv u" "co_state (w_conn u) = co_state (w_conn s)"
        "w_wire u = w_wire s @ take n (out_bytes s)" "out_bytes u = drop n (out_bytes s)"
      and sh: "out_bytes u = [] \<longrightarrow> co_state (w_conn s) = kDisconnecting \<and> kn_shutdown K = None \<longrightarrow>
          sk_shut_wr (co_sock (w_conn u))" by blast
    have up': "conn_up (co_state (w_conn u))" using up u(3) by simp
    show ?thesis
    proof (cases "out_bytes u = []")
      case True
      with u sh sd idle_writable [OF u(2) up' True, of K tid k] show ?thesis by auto
    next
      case ne: False
      have "length (out_bytes u) \<le> k" using Suc.prems(3) u(5) n(2) by simp
      from Suc.IH [OF u(2) up' this] obtain t where
        t: "writable_events K tid k u = Inr t" "conn_inv t" "out_bytes t = []"
          "w_wire t = w_wire u @ out_bytes u" "co_state (w_conn t) = co_state (w_conn u)"
          "out_bytes u \<noteq> [] \<and> co_state (w_conn u) = kDisconnecting \<longrightarrow> sk_shut_wr (co_sock (w_conn t))"
        by blast
      with u ne show ?thesis by (intro exI [of _ t]) auto
    qed
  qed
qed simp

section \<open>The life of a connection\<close>

definition dispatch_event ::
  "kernel \<Rightarrow> ('a, 'u) app \<Rightarrow> nat \<Rightarrow> timestamp \<Rightarrow> ('a, 'u) world \<Rightarrow> ('a, 'u) world result" where
  "dispatch_event K app tid time s =
     handleEvent (h_alive (conn_host K app tid)) (h_callback (conn_host K app tid))
       (h_readback (conn_host K app tid)) (\<lambda>s. h_chan (conn_host K app tid) s (co_id (w_conn s)))
       time s"

lemma dispatch_inv:
  assumes "kernel_doc K" and "conn_inv s" and "dispatch_event K app tid time s = Inr t"
  shows "conn_inv t"
proof -
  have "conn_inv t" if "handleEventWithGuard (run_callback K app tid) (run_readback K app tid)
      (\<lambda>s. co_channel (w_conn s)) time s = Inr t"
    by (rule handleEventWithGuard_keeps [where P = conn_inv, OF _ _ assms(2) that])
      (erule (1) run_callback_inv [OF assms(1)], erule (1) run_readback_inv [OF assms(1)])
  with assms(2,3) show ?thesis
    by (auto simp: dispatch_event_def handleEvent_def conn_host_def split: if_splits option.splits)
qed

text \<open>
  The steps from the construction of a connection to its destruction: it is established; an event
  is dispatched to its channel; the loop performs the functor at the head of its queue; any
  thread sends or shuts down; string objects come and go. The kernel may answer differently in
  every step. The check of the state in \<open>send\<close> and \<open>shutdown\<close> and what follows it are one step.
\<close>

inductive conn_step :: "('a, 'u) app \<Rightarrow> ('a, 'u) world \<Rightarrow> ('a, 'u) world \<Rightarrow> bool"
  for app :: "('a, 'u) app" where
  establish:
    "kernel_doc K \<Longrightarrow> co_state (w_conn s) = kConnecting \<Longrightarrow>
     connectEstablished K app (el_thread (w_loop s)) s = Inr t \<Longrightarrow> conn_step app s t"
| dispatch:
    "kernel_doc K \<Longrightarrow> co_state (w_conn s) \<noteq> kConnecting \<Longrightarrow>
     dispatch_event K app (el_thread (w_loop s)) time
       (s\<lparr>w_conn := (w_conn s)\<lparr>co_channel := (co_channel (w_conn s))\<lparr>ch_revents := r\<rparr>\<rparr>\<rparr>) = Inr t \<Longrightarrow>
     conn_step app s t"
| perform:
    "kernel_doc K \<Longrightarrow> co_state (w_conn s) \<noteq> kConnecting \<Longrightarrow>
     el_pending (w_loop s) = f # fs \<Longrightarrow> life_task f \<Longrightarrow>
     run_task K app (el_thread (w_loop s)) f
       (s\<lparr>w_loop := (w_loop s)\<lparr>el_pending := fs\<rparr>\<rparr>) = Inr t \<Longrightarrow>
     conn_step app s t"
| any_send:
    "kernel_doc K \<Longrightarrow> Connection_send K tid ptr s = Inr t \<Longrightarrow> conn_step app s t"
| any_send_chars:
    "kernel_doc K \<Longrightarrow> Connection_send_chars K tid data len s = Inr t \<Longrightarrow> conn_step app s t"
| any_shutdown:
    "kernel_doc K \<Longrightarrow> Connection_shutdown K tid s = Inr t \<Longrightarrow> conn_step app s t"
| new_string:
    "length buf \<le> max_bytes \<Longrightarrow>
     conn_step app s (s\<lparr>w_strings := (w_strings s)(ptr \<mapsto> buf), w_next := n\<rparr>)"
| free_string:
    "conn_step app s (s\<lparr>w_strings := (w_strings s)(ptr := None)\<rparr>)"

text \<open>A connection as its constructor leaves it, on a loop that does not watch its descriptor.\<close>

definition with_callbacks ::
  "'a option \<Rightarrow> 'a option \<Rightarrow> 'a option \<Rightarrow> 'a option \<Rightarrow> 'a option \<Rightarrow> 'a connection \<Rightarrow> 'a connection"
  where
  "with_callbacks onc onm onw onh oncl c =
     conn_setCloseCallback oncl (setHighWaterMarkCallback onh (setWriteCompleteCallback onw
       (setMessageCallback onm (setConnectionCallback onc c))))"

definition conn_init :: "('a, 'u) world \<Rightarrow> bool" where
  "conn_init s \<longleftrightarrow>
     (\<exists>K self loop name fd la pa c onc onm onw onh oncl.
        Connection_new K self (Some loop) name fd la pa = Inr c \<and>
        w_conn s = with_callbacks onc onm onw onh oncl c \<and>
        (case el_poller (w_loop s) of None \<Rightarrow> False | Some p \<Rightarrow> interest p fd = None)) \<and>
     w_wire s = [] \<and> w_accepted s = [] \<and>
     (\<forall>ptr buf. w_strings s ptr = Some buf \<longrightarrow> length buf \<le> max_bytes)"

lemma with_callbacks_simps [simp]:
  "co_state (with_callbacks a b d e f c) = co_state c" "co_id (with_callbacks a b d e f c) = co_id c"
  "co_sock (with_callbacks a b d e f c) = co_sock c"
  "co_channel (with_callbacks a b d e f c) = co_channel c"
  "InputBuffer (with_callbacks a b d e f c) = InputBuffer c"
  "OutputBuffer (with_callbacks a b d e f c) = OutputBuffer c"
  by (simp_all add: with_callbacks_def setConnectionCallback_def setMessageCallback_def
      setWriteCompleteCallback_def setHighWaterMarkCallback_def conn_setCloseCallback_def)

lemma Connection_new_fields:
  assumes "Buffer_new kInitialSize = Inr b"
    and "Connection_new K self (Some loop) name fd la pa = Inr c"
  shows "co_state c = kConnecting" "InputBuffer c = b" "OutputBuffer c = b"
    "\<not> sk_shut_wr (co_sock c)" "ch_events (co_channel c) = 0" "ch_index (co_channel c) = kNew"
    "ch_fd (co_channel c) = fd" "co_name c = name" "co_id c = self"
  using assms
  by (auto simp: Connection_new_def conn_CheckLoopNotNull_def setKeepAlive_def Socket_new_def
      setCloseCallback_def setErrorCallback_def setWriteCallback_def setReadCallback_def
      Channel_new_def kNew_def split: if_splits)

lemma Connection_new_get:
  assumes "Connection_new K self (Some loop) name fd la pa = Inr c"
  shows "conn_getName c = name" "conn_localAddr c = la" "conn_peerAddr c = pa" "conn_loop c = loop" "\<not> connected c"
  using assms
  by (auto simp: Connection_new_def conn_CheckLoopNotNull_def rbind_Inr_iff conn_getName_def
      conn_localAddr_def conn_peerAddr_def conn_loop_def OwnerLoop_def connected_def setCloseCallback_def
      setErrorCallback_def setWriteCallback_def setReadCallback_def Channel_new_def)

lemma conn_init_inv: "conn_init s \<Longrightarrow> conn_inv s"
proof -
  assume i: "conn_init s"
  obtain K self loop name fd la pa c a1 a2 a3 a4 a5 where
    c: "Connection_new K self (Some loop) name fd la pa = Inr c"
    and w: "w_conn s = with_callbacks a1 a2 a3 a4 a5 c"
    and pl: "case el_poller (w_loop s) of None \<Rightarrow> False | Some p \<Rightarrow> interest p fd = None"
    using i unfolding conn_init_def by blast
  obtain p where p: "el_poller (w_loop s) = Some p" "interest p fd = None"
    using pl by (auto split: option.splits)
  obtain b where new: "Buffer_new kInitialSize = Inr b"
    using c by (auto simp: Connection_new_def rbind_Inr_iff conn_CheckLoopNotNull_def)
  have "Buffer_inv b \<and> contents b = []"
    using Buffer_new_inv [OF new] by (simp add: kInitialSize_def vector_max_def)
  moreover have "w_wire s = []" "w_accepted s = []"
    "\<forall>ptr buf. w_strings s ptr = Some buf \<longrightarrow> length buf \<le> max_bytes"
    using i by (simp_all add: conn_init_def)
  moreover note Connection_new_fields [OF new c]
  ultimately show ?thesis
    using p by (simp add: conn_inv_defs loop_in_step_def in_step_def isNoneEvent_def w)
qed

lemma conn_step_inv: "conn_step app s t \<Longrightarrow> conn_inv s \<Longrightarrow> conn_inv t"
proof (induction rule: conn_step.induct)
  case (establish K s t)
  then show ?case by (blast intro: connectEstablished_inv)
next
  case (dispatch K s time r t)
  then show ?case using dispatch_inv conn_inv_revents by blast
next
  case (perform K s f fs t)
  have "conn_inv (s\<lparr>w_loop := (w_loop s)\<lparr>el_pending := fs\<rparr>\<rparr>)"
    using perform.prems by (simp add: conn_inv_frame)
  from run_task_inv [OF perform.hyps(1) this _ perform.hyps(4,5)] perform.hyps(2) show ?case
    by simp
qed (blast intro: net_inv)+

interpretation cl: invariant_machine "\<lambda>_. True" conn_init conn_step conn_inv
  by unfold_locales (auto intro: conn_init_inv conn_step_inv)

end
