(* ===== verification/Connection_Props.thy ===== *)
theory Connection_Props
  imports Connection
begin

text \<open>
  The properties of a connection (\<open>src/net/Connection.cc\<close>) over the model and the invariant of
  the theory \<open>Connection\<close>, with a concrete connection on which they are exercised.
\<close>

unbundle bit_operations_syntax

section \<open>A concrete connection\<close>

text \<open>
  For the witnesses: a kernel that takes two bytes per write, a program without reactions, and a
  connection on descriptor 7 with the string "hello" at address 0.
\<close>

definition initial_buffer :: Buffer where
  "initial_buffer = \<lparr>buffer_vec = replicate 1032 (CHR 0x00), readerIndex = 8, writerIndex = 8\<rparr>"

lemma initial_buffer_facts:
  "Buffer_new kInitialSize = Inr initial_buffer" "Buffer_inv initial_buffer"
  "contents initial_buffer = []" "readableBytes initial_buffer = 0"
  "80000000 \<le> vec_room initial_buffer"
  by (simp_all add: Buffer_new_def initial_buffer_def kInitialSize_def kCheapPrepend_def
      vector_max_def Buffer_inv_def max_bytes_val contents_def readableBytes_def vec_room_def)

definition demo_kernel :: kernel where
  "demo_kernel = \<lparr>kn_ctl = simple_epoll_ctl,
     kn_write = (\<lambda>shut wire bs. if shut \<and> bs \<noteq> [] then Inl EPIPE else Inr (min 2 (length bs))),
     kn_readv = (\<lambda>iov. Inr []), kn_efd_write = simple_efd_write, kn_efd_read = (\<lambda>c. Inr (c, 0)),
     kn_getsockopt = Inr 0, kn_shutdown = None, kn_setsockopt = None\<rparr>"

lemma demo_kernel_doc: "kernel_doc demo_kernel"
  by (auto simp: kernel_doc_def demo_kernel_def simple_epoll_ctl_doc readv_doc_def)

definition quiet_app :: "(unit, unit) app" where
  "quiet_app cb ev c u = ([], ())"

definition demo_loop :: "(unit conn_task, conn_cb) evloop" where
  "demo_loop = \<lparr>el_looping = True, el_quit = False, el_calling = False, el_thread = 1,
     el_poller = Some empty_poller, el_wakeupfd = 5, el_wakeup = Channel_new 0 5, el_efd = 0,
     el_active = [], el_pollTime = 0, el_pending = []\<rparr>"

definition demo_addr :: InetAddress where
  "demo_addr = \<lparr>sin_family = AF_INET, sin_port = 0, sin_addr = (127, 0, 0, 1)\<rparr>"

definition demo_channel :: "conn_cb channel" where
  "demo_channel = \<lparr>ch_loop = 0, ch_fd = 7, ch_events = 0, ch_revents = 0, ch_index = - 1,
     ch_tie = None, ch_tied = False, readCallback = Some Conn_handleRead,
     writeCallback = Some Conn_handleWrite, closeCallback = Some Conn_handleClose,
     errorCallback = Some Conn_handleError\<rparr>"

definition demo_conn :: "unit option \<Rightarrow> unit connection" where
  "demo_conn h = \<lparr>co_id = 3, co_name = ''demo'', co_state = kConnecting,
     co_sock = (Socket_new 7)\<lparr>sk_keepalive := True\<rparr>, co_channel = demo_channel,
     co_localAddr = demo_addr, co_peerAddr = demo_addr, cn_connectionCallback = Some (),
     cn_messageCallback = None, cn_writeCompleteCallback = Some (),
     cn_highWaterMarkCallback = h, cn_closeCallback = None, highWaterMark = 67108864,
     InputBuffer = initial_buffer, OutputBuffer = initial_buffer\<rparr>"

definition demo_world :: "unit option \<Rightarrow> (unit, unit) world" where
  "demo_world h = \<lparr>w_conn = (demo_conn h), w_loop = demo_loop, w_wire = [], w_accepted = [],
     w_strings = [0 \<mapsto> ''hello'', 1 \<mapsto> replicate 67108864 (CHR ''x'')], w_next = 2, w_errors = [], w_app = ()\<rparr>"

lemma demo_init: "conn_init (demo_world h)"
proof -
  let ?c = "(demo_conn h)\<lparr>cn_connectionCallback := None, cn_writeCompleteCallback := None,
    cn_highWaterMarkCallback := None\<rparr>"
  have new: "Connection_new demo_kernel 3 (Some 0) ''demo'' 7 demo_addr demo_addr = Inr ?c"
    by (simp add: Connection_new_def conn_CheckLoopNotNull_def initial_buffer_facts
        demo_kernel_def setKeepAlive_def demo_conn_def setCloseCallback_def setErrorCallback_def
        setWriteCallback_def setReadCallback_def Channel_new_def demo_channel_def)
  have cb: "w_conn (demo_world h) = with_callbacks (Some ()) None (Some ()) h None ?c"
    by (simp add: demo_world_def demo_conn_def with_callbacks_def setConnectionCallback_def
        setMessageCallback_def setWriteCompleteCallback_def setHighWaterMarkCallback_def
        conn_setCloseCallback_def)
  have "case el_poller (w_loop (demo_world h)) of None \<Rightarrow> False | Some p \<Rightarrow> interest p 7 = None"
    by (simp add: demo_world_def demo_loop_def empty_poller_def)
  with new cb have "\<exists>K self loop name fd la pa c onc onm onw onh oncl.
        Connection_new K self (Some loop) name fd la pa = Inr c \<and>
        w_conn (demo_world h) = with_callbacks onc onm onw onh oncl c \<and>
        (case el_poller (w_loop (demo_world h)) of None \<Rightarrow> False | Some p \<Rightarrow> interest p fd = None)"
    by blast
  then show ?thesis
    unfolding conn_init_def by (simp add: demo_world_def max_bytes_val)
qed

text \<open>The connection established, and after its loop has sent the string.\<close>

definition demo_up :: "unit option \<Rightarrow> (unit, unit) world" where
  "demo_up h = (demo_world h)
     \<lparr>w_conn := (demo_conn h)\<lparr>co_state := kConnected, co_channel := demo_channel
        \<lparr>ch_events := 3, ch_index := 1, ch_tie := Some 3, ch_tied := True\<rparr>\<rparr>,
      w_loop := demo_loop\<lparr>el_poller := Some (empty_poller
        \<lparr>channels := [7 \<mapsto> 3], interest := [7 \<mapsto> (3, 3)]\<rparr>)\<rparr>\<rparr>"

lemma demo_established: "connectEstablished demo_kernel quiet_app 1 (demo_world h) = Inr (demo_up h)"
  by (simp add: connectEstablished_def setState_def on_channel_def enableReading_def
      EventLoop_updateChannel_def Epollpoller_updateChannel_def Epollpoller_update_def
      demo_world_def demo_conn_def demo_loop_def demo_channel_def Channel_tie_def
      empty_poller_def demo_kernel_def simple_epoll_ctl_def call_user_def quiet_app_def
      demo_up_def kNew_def kAdded_def Let_def)

lemma demo_up_reachable: "reachable conn_init (conn_step quiet_app) (demo_up h)"
proof (rule reach_step)
  show "reachable conn_init (conn_step quiet_app) (demo_world h)"
    by (rule reach_init) (rule demo_init)
  show "conn_step quiet_app (demo_world h) (demo_up h)"
  proof (rule establish [OF demo_kernel_doc])
    show "co_state (w_conn (demo_world h)) = kConnecting" by (simp add: demo_world_def demo_conn_def)
    have "el_thread (w_loop (demo_world h)) = 1" by (simp add: demo_world_def demo_loop_def)
    then show "connectEstablished demo_kernel quiet_app (el_thread (w_loop (demo_world h))) (demo_world h)
        = Inr (demo_up h)"
      by (simp only: demo_established)
  qed
qed

text \<open>Sending "hello" when the kernel takes two bytes; \<open>b\<close> is the output buffer then.\<close>

definition demo_after :: "unit option \<Rightarrow> Buffer \<Rightarrow> (unit, unit) world" where
  "demo_after h b = (demo_up h)\<lparr>w_wire := ''he'', w_accepted := ''hello'',
    w_conn := (w_conn (demo_up h))\<lparr>OutputBuffer := b, co_channel := (co_channel (w_conn (demo_up h)))
      \<lparr>ch_events := 7\<rparr>\<rparr>,
    w_loop := (w_loop (demo_up h))\<lparr>el_poller := Some (empty_poller
      \<lparr>channels := [7 \<mapsto> 3], interest := [7 \<mapsto> (7, 3)]\<rparr>)\<rparr>\<rparr>"

lemma demo_after_simps [simp]:
  "w_wire (demo_after h b) = ''he''" "w_accepted (demo_after h b) = ''hello''"
  "OutputBuffer (w_conn (demo_after h b)) = b" "co_state (w_conn (demo_after h b)) = kConnected"
  "ch_fd (co_channel (w_conn (demo_after h b))) = 7"
  "ch_events (co_channel (w_conn (demo_after h b))) = 7"
  "w_strings (demo_after h b) 1 = Some (replicate 67108864 (CHR ''x''))"
  "el_thread (w_loop (demo_after h b)) = 1" "el_pending (w_loop (demo_after h b)) = []"
  "cn_highWaterMarkCallback (w_conn (demo_after h b)) = h"
  "highWaterMark (w_conn (demo_after h b)) = 67108864"
  by (simp_all add: demo_after_def demo_up_def demo_world_def demo_conn_def demo_channel_def
      demo_loop_def)

lemma demo_sent:
  "\<exists>b. Connection_send demo_kernel 1 0 (demo_up h) = Inr (demo_after h b) \<and>
     conn_step quiet_app (demo_up h) (demo_after h b) \<and> contents b = ''llo'' \<and>
     Buffer_inv b \<and> 70000000 \<le> vec_room b"
proof -
  obtain b where b: "Buffer_append initial_buffer ''llo'' 3 = Inr b" "70000000 \<le> vec_room b"
    using append_total [OF initial_buffer_facts(2), of "''llo''"] initial_buffer_facts(5) by auto
  have bc: "contents b = ''llo''" "Buffer_inv b"
    using append_post [OF initial_buffer_facts(2) _ _ b(1)] initial_buffer_facts(3)
    by (simp_all add: vector_max_def)
  have send: "Connection_send demo_kernel 1 0 (demo_up h) = Inr (demo_after h b)"
    by (cases h)
      (simp_all add: Connection_send_def demo_up_def demo_world_def demo_conn_def demo_loop_def
        connected_def isInLoopThread_def sendInLoop_def isWriting_def initial_buffer_facts
        direct_write_def demo_kernel_def buffer_rest_def mark_high_water_def b on_channel_def
        enableWriting_def EventLoop_updateChannel_def Epollpoller_updateChannel_def
        Epollpoller_update_def simple_epoll_ctl_def empty_poller_def isNoneEvent_def kNew_def
        kDeleted_def Let_def Socket_new_def demo_channel_def demo_after_def)
  then have "conn_step quiet_app (demo_up h) (demo_after h b)"
    by (rule any_send [OF demo_kernel_doc])
  with send bc b(2) show ?thesis by blast
qed

lemma demo_after_reachable:
  "conn_step quiet_app (demo_up h) (demo_after h b) \<Longrightarrow>
     reachable conn_init (conn_step quiet_app) (demo_after h b)"
  by (rule reach_step [OF demo_up_reachable])

section \<open>Properties\<close>

text \<open>
  C1: The output stream is intact. At any time between the construction and the destruction of a
  connection, whatever threads send, however little the kernel takes at a time and whatever the
  user's callbacks do, the bytes handed to the kernel followed by those in the output buffer are
  exactly the accepted data, in order, none lost, none twice.
\<close>

theorem output_stream_intact:
  assumes "reachable conn_init (conn_step app) s"
  shows "w_wire s @ contents (OutputBuffer (w_conn s)) = w_accepted s"
  using cl.reachable_inv [OF _ assms] by (simp add: conn_inv_def stream_inv_def)

theorem output_stream_intact_witness:
  "\<exists>s. w_wire s = ''he'' \<and> contents (OutputBuffer (w_conn s)) = ''llo'' \<and>
    w_accepted (s :: (unit, unit) world) = ''hello''"
proof -
  obtain b where b: "conn_step quiet_app (demo_up None) (demo_after None b)" "contents b = ''llo''"
    using demo_sent [of None] by blast
  from output_stream_intact [OF demo_after_reachable [OF b(1)]] b(2)
  show ?thesis by (intro exI [of _ "demo_after None b"]) simp
qed

text \<open>
  C3: Unsent data is waited for and nothing else: while a connection is up the kernel watches its
  descriptor for reading, and for writability exactly when the output buffer holds data, so
  buffered data is never stuck and an idle connection does not wake the loop.
\<close>

theorem pending_output_watched:
  assumes "reachable conn_init (conn_step app) s"
    and "co_state (w_conn s) = kConnected \<or> co_state (w_conn s) = kDisconnecting"
  shows "\<exists>e. loop_watched (w_loop s) (ch_fd (co_channel (w_conn s))) = Some e \<and>
    e AND kReadEvent \<noteq> 0 \<and>
    (e AND EPOLLOUT \<noteq> 0 \<longleftrightarrow> contents (OutputBuffer (w_conn s)) \<noteq> [])"
proof -
  have inv: "conn_inv s" using cl.reachable_inv [OF _ assms(1)] by simp
  from conn_inv_up [OF inv assms(2)] show ?thesis
    by (simp add: isReading_def isWriting_def EPOLLOUT_def)
qed

theorem pending_output_watched_witness:
  "\<exists>s :: (unit, unit) world. contents (OutputBuffer (w_conn s)) = ''llo'' \<and>
    (\<exists>e. loop_watched (w_loop s) 7 = Some e \<and> e AND EPOLLOUT \<noteq> 0)"
proof -
  obtain b where b: "conn_step quiet_app (demo_up None) (demo_after None b)" "contents b = ''llo''"
    using demo_sent [of None] by blast
  from pending_output_watched [OF demo_after_reachable [OF b(1)] disjI1 [OF demo_after_simps(4)]] b(2)
  show ?thesis by (intro exI [of _ "demo_after None b"]) auto
qed

text \<open>
  C9: The write side of a connection that is up is shut down only when everything accepted so far
  has been taken by the kernel, and after that nothing more is accepted into the stream without
  being on the wire: \<open>shutdown\<close> never cuts off pending output.
\<close>

theorem half_close_after_drain:
  assumes "reachable conn_init (conn_step app) s"
    and "co_state (w_conn s) = kConnected \<or> co_state (w_conn s) = kDisconnecting"
    and "sk_shut_wr (co_sock (w_conn s))"
  shows "w_wire s = w_accepted s \<and> contents (OutputBuffer (w_conn s)) = []"
proof -
  have inv: "conn_inv s" using cl.reachable_inv [OF _ assms(1)] by simp
  from conn_inv_up(3) [OF inv assms(2,3)] inv show ?thesis
    by (simp add: conn_inv_def stream_inv_def)
qed

theorem half_close_after_drain_witness:
  "\<exists>s :: (unit, unit) world. sk_shut_wr (co_sock (w_conn s)) \<and> w_wire s = w_accepted s"
proof -
  let ?t = "shutdownInLoop demo_kernel (setState kDisconnecting (demo_up None))"
  have "Connection_shutdown demo_kernel 1 (demo_up None) = Inr ?t"
    by (simp add: Connection_shutdown_def run_or_queue_def isInLoopThread_def demo_up_def
        demo_world_def demo_loop_def demo_conn_def setState_def)
  then have step: "conn_step quiet_app (demo_up None) ?t" by (rule any_shutdown [OF demo_kernel_doc])
  have st: "co_state (w_conn ?t) = kDisconnecting" "sk_shut_wr (co_sock (w_conn ?t))"
    by (simp_all add: shutdownInLoop_def setState_def demo_up_def isWriting_def demo_kernel_def)
  from half_close_after_drain [OF reach_step [OF demo_up_reachable step] disjI2 [OF st(1)] st(2)] st(2)
  show ?thesis by (intro exI [of _ ?t]) simp
qed

text \<open>
  Sending a C string from another thread than the loop's always leaves a functor whose pointer
  is dangling: the string that \<open>send\<close> built is destroyed when the call returns, before the loop
  can perform the functor that reads it.
\<close>

theorem send_from_other_thread_dangles:
  assumes "co_state (w_conn s) = kConnected" and "tid \<noteq> el_thread (w_loop s)"
    and "Connection_send_chars K tid data len s = Inr t"
  shows "\<exists>ptr n. el_pending (w_loop t) = el_pending (w_loop s) @ [SendInLoop ptr n] \<and>
    run_task K' app tid' (SendInLoop ptr n) t = Inl Use_after_free \<and> w_wire t = w_wire s"
  using assms
  by (auto simp: Connection_send_chars_def Let_def rbind_Inr_iff Connection_send_def connected_def
      isInLoopThread_def run_or_queue_def split: if_splits)

theorem send_from_other_thread_dangles_witness:
  "\<exists>t ptr n. Connection_send_chars demo_kernel 2 ''hello'' 5 (demo_up None) = Inr t \<and>
    el_pending (w_loop t) = [SendInLoop ptr n] \<and>
    run_task demo_kernel quiet_app 1 (SendInLoop ptr n) t = Inl Use_after_free"
proof -
  have st: "co_state (w_conn (demo_up None)) = kConnected" "2 \<noteq> el_thread (w_loop (demo_up None))"
    "el_pending (w_loop (demo_up None)) = []"
    by (simp_all add: demo_up_def demo_loop_def)
  have "\<exists>t. Connection_send_chars demo_kernel 2 ''hello'' 5 (demo_up None) = Inr t"
    using st(1,2) by (simp add: Connection_send_chars_def Connection_send_def Let_def connected_def
        isInLoopThread_def run_or_queue_def)
  then obtain t where t: "Connection_send_chars demo_kernel 2 ''hello'' 5 (demo_up None) = Inr t" by blast
  from send_from_other_thread_dangles [OF st(1,2) t, of demo_kernel quiet_app 1] st(3) t
  show ?thesis by auto
qed

text \<open>
  C10: Pending output drains. If the kernel takes at least one byte of each write, then after as
  many writable events as there are bytes pending the whole output has been sent in order, the
  buffer is empty, no event having failed; and a connection that was waiting to be shut down has
  then shut down its write side.
\<close>

theorem writable_events_drain_output:
  assumes "reachable conn_init (conn_step app) s"
    and "co_state (w_conn s) = kConnected \<or> co_state (w_conn s) = kDisconnecting"
    and "kernel_doc K" and "epoll_ctl_serves (kn_ctl K)" and "kn_shutdown K = None"
    and "\<And>wire bs. bs \<noteq> [] \<Longrightarrow> \<exists>n. kn_write K False wire bs = Inr n \<and> 0 < n"
  shows "\<exists>t. writable_events K tid (length (contents (OutputBuffer (w_conn s)))) s = Inr t \<and>
    w_wire t = w_accepted s \<and> contents (OutputBuffer (w_conn t)) = [] \<and>
    (contents (OutputBuffer (w_conn s)) \<noteq> [] \<and> co_state (w_conn s) = kDisconnecting \<longrightarrow>
       sk_shut_wr (co_sock (w_conn t)))"
proof -
  have inv: "conn_inv s" using cl.reachable_inv [OF _ assms(1)] by simp
  from writable_events_drain [OF assms(3,4,6,5) inv assms(2) order.refl, of tid] inv show ?thesis
    by (auto simp: conn_inv_def stream_inv_def)
qed

theorem writable_events_drain_output_witness:
  "\<exists>s t :: (unit, unit) world. w_wire s = ''he'' \<and> writable_events demo_kernel 1 3 s = Inr t \<and>
    w_wire t = ''hello''"
proof -
  obtain b where b: "conn_step quiet_app (demo_up None) (demo_after None b)" "contents b = ''llo''"
    using demo_sent [of None] by blast
  let ?s = "demo_after None b"
  have "\<exists>n. kn_write demo_kernel False wire bs = Inr n \<and> 0 < n" if "bs \<noteq> []" for wire bs
    using that by (simp add: demo_kernel_def)
  moreover have "epoll_ctl_serves (kn_ctl demo_kernel)" "kn_shutdown demo_kernel = None"
    by (simp_all add: demo_kernel_def simple_epoll_ctl_doc)
  ultimately obtain t where "writable_events demo_kernel 1 (length (out_bytes ?s)) ?s = Inr t"
    "w_wire t = w_accepted ?s"
    using writable_events_drain_output [OF demo_after_reachable [OF b(1)]
        disjI1 [OF demo_after_simps(4)] demo_kernel_doc, of 1] by blast
  moreover have "length (out_bytes ?s) = 3" using b(2) by simp
  ultimately have "w_wire ?s = ''he'' \<and> writable_events demo_kernel 1 3 ?s = Inr t \<and>
    w_wire t = ''hello''" by (metis demo_after_simps(1,2))
  then show ?thesis by blast
qed

text \<open>A connected connection with nothing pending and no high-water callback, and data that fits.\<close>

definition idle_send :: "('a, 'u) world \<Rightarrow> bytes \<Rightarrow> bool" where
  "idle_send s data \<longleftrightarrow> conn_inv s \<and> co_state (w_conn s) = kConnected \<and> out_bytes s = [] \<and>
     cn_highWaterMarkCallback (w_conn s) = None \<and> length data \<le> max_bytes"

lemma idle_sendD:
  assumes "idle_send s data"
  shows "\<not> isWriting (co_channel (w_conn s))" "readableBytes (OutputBuffer (w_conn s)) = 0"
    "unat (of_nat (length data) :: size_t) = length data" "length data \<le> max_bytes"
    "co_state (w_conn s) = kConnected" "out_bytes s = []"
proof -
  have inv: "conn_inv s" and f: "co_state (w_conn s) = kConnected" "out_bytes s = []" "length data \<le> max_bytes"
    using assms by (simp_all add: idle_send_def)
  show "\<not> isWriting (co_channel (w_conn s))" using conn_inv_up(2) [OF inv] f by simp
  show "readableBytes (OutputBuffer (w_conn s)) = 0"
    using readable_eq_0_iff [OF buffers_inv(2) [OF inv]] f(2) by simp
  show "unat (of_nat (length data) :: size_t) = length data"
    using f(3) by (intro unat_of_nat_size) (simp add: max_bytes_val)
qed (use assms in \<open>simp_all add: idle_send_def\<close>)

lemma idle_rest:
  fixes s u t :: "('a, 'u) world"
  assumes "kernel_doc K" and "idle_send s data" and "buffer_rest K tid d m u = Inr t"
    and "w_conn u = w_conn s" "el_poller (w_loop u) = el_poller (w_loop s)" "unat m \<le> length d"
    "length d \<le> max_bytes"
  shows "el_pending (w_loop t) = el_pending (w_loop u) \<and> w_wire t = w_wire u \<and> out_bytes t = take (unat m) d"
proof -
  have inv: "conn_inv s" and high: "cn_highWaterMarkCallback (w_conn s) = None" and out: "out_bytes u = []"
    using assms(2,4) by (simp_all add: idle_send_def)
  have att: "\<forall>ctl. loop_in_step (ctl, co_id (w_conn s)) (co_channel (w_conn s)) (w_loop s)"
    using inv by (simp add: conn_inv_def attached_inv_def)
  from buffer_rest_effect [OF assms(1) high idle_sendD(1) [OF assms(2)] buffers_inv(2) [OF inv] att assms(3-7)]
  show ?thesis by (simp add: out)
qed

lemma send_refused:
  assumes K: "kernel_doc K" and idle: "idle_send s data"
    and send: "sendInLoop K tid data (of_nat (length data)) s = Inr t"
    and e: "kn_write K (sk_shut_wr (co_sock (w_conn s))) (w_wire s) data = Inl e"
  shows "w_wire t = w_wire s \<and> el_pending (w_loop t) = el_pending (w_loop s) \<and>
    out_bytes t = (if e = EPIPE \<or> e = ECONNRESET then [] else data)"
proof (cases "e = EPIPE \<or> e = ECONNRESET")
  case True
  then show ?thesis
    using send e idle_sendD [OF idle]
    by (auto simp: sendInLoop_def direct_write_def EWOULDBLOCK_def EPIPE_def ECONNRESET_def)
next
  case False
  let ?len = "of_nat (length data) :: size_t" and ?u = "s\<lparr>w_accepted := w_accepted s @ data\<rparr>"
  have run: "(if 0 < ?len then buffer_rest K tid data ?len ?u else Inr ?u) = Inr t"
    using send e idle_sendD [OF idle] False by (simp add: sendInLoop_def direct_write_def cong: if_cong)
  show ?thesis
  proof (cases "0 < ?len")
    case True
    with run have "buffer_rest K tid data ?len ?u = Inr t" by simp
    from idle_rest [OF K idle this] False idle_sendD [OF idle] show ?thesis by simp
  next
    case 0: False
    with idle_sendD(3) [OF idle] have "data = []" by (simp add: word_less_nat_alt)
    with run 0 False idle_sendD(6) [OF idle] show ?thesis by auto
  qed
qed

lemma send_taken:
  assumes K: "kernel_doc K" and idle: "idle_send s data"
    and send: "sendInLoop K tid data (of_nat (length data)) s = Inr t"
    and cb: "cn_writeCompleteCallback (w_conn s) = Some cb"
    and wr: "kn_write K (sk_shut_wr (co_sock (w_conn s))) (w_wire s) data = Inr n"
  shows "w_wire t = w_wire s @ take n data \<and> out_bytes t = drop n data \<and>
    el_pending (w_loop t) = el_pending (w_loop s) @ (if n = length data then [WriteComplete cb] else [])"
proof -
  let ?len = "of_nat (length data) :: size_t"
  note i = idle_sendD [OF idle]
  have n: "n \<le> length data" using K wr by (auto simp: kernel_doc_def)
  have nn: "unat (of_nat n :: size_t) = n"
    using n i(4) by (intro unat_of_nat_size) (simp add: max_bytes_val)
  have m: "unat (?len - of_nat n) = length data - n" using n nn i(3) by (simp add: unat_diff_size)
  then have m0: "?len - of_nat n = 0 \<longleftrightarrow> n = length data" using n by (auto simp: size_eq_zero_iff)
  let ?u = "s\<lparr>w_wire := w_wire s @ take n data, w_accepted := w_accepted s @ data\<rparr>"
  show ?thesis
  proof (cases "n = length data")
    case True
    then show ?thesis
      using send wr i cb m0 by (auto simp: sendInLoop_def direct_write_def Let_def)
  next
    case False
    with n have "0 < ?len - of_nat n" by (simp add: word_less_nat_alt m)
    then have "buffer_rest K tid (drop n data) (?len - of_nat n) ?u = Inr t"
      using send wr i cb m0 False by (simp add: sendInLoop_def direct_write_def Let_def)
    from idle_rest [OF K idle this] False m i(4) show ?thesis by simp
  qed
qed

text \<open>
  C17: A send by the loop's thread on a connection with nothing pending, a write-complete callback and
  no high-water callback has one of three outcomes:
  the kernel takes the first \<open>n\<close> bytes and the rest, if any, is buffered behind them; the write
  fails with \<open>EPIPE\<close> or \<open>ECONNRESET\<close> and the data is dropped without a trace; it fails otherwise
  and all of it is buffered. The write-complete functor is queued exactly when all bytes went out.
\<close>

theorem direct_send_outcomes:
  assumes "reachable conn_init (conn_step app) s" and "kernel_doc K"
    and "co_state (w_conn s) = kConnected" and "contents (OutputBuffer (w_conn s)) = []"
    and "w_strings s ptr = Some data" and "tid = el_thread (w_loop s)"
    and "cn_highWaterMarkCallback (w_conn s) = None"
    and "cn_writeCompleteCallback (w_conn s) = Some cb"
    and "Connection_send K tid ptr s = Inr t"
  shows "case kn_write K (sk_shut_wr (co_sock (w_conn s))) (w_wire s) data of
      Inr n \<Rightarrow> w_wire t = w_wire s @ take n data \<and> contents (OutputBuffer (w_conn t)) = drop n data \<and>
        el_pending (w_loop t) =
          el_pending (w_loop s) @ (if n = length data then [WriteComplete cb] else [])
    | Inl e \<Rightarrow> w_wire t = w_wire s \<and> el_pending (w_loop t) = el_pending (w_loop s) \<and>
        contents (OutputBuffer (w_conn t)) = (if e = EPIPE \<or> e = ECONNRESET then [] else data)"
proof -
  have inv: "conn_inv s" using cl.reachable_inv [OF _ assms(1)] by simp
  have idle: "idle_send s data"
    using assms(3,4,7) buffers_inv(3) [OF inv assms(5)] by (simp add: idle_send_def inv)
  have "sendInLoop K tid data (of_nat (length data)) s = Inr t"
    using assms(3,5,6,9) by (simp add: Connection_send_def connected_def isInLoopThread_def)
  then show ?thesis
    using send_refused [OF assms(2) idle] send_taken [OF assms(2) idle _ assms(8)]
    by (auto split: sum.split)
qed

theorem direct_send_outcomes_witness:
  "\<exists>t. Connection_send demo_kernel 1 0 (demo_up None) = Inr t \<and> w_wire t = ''he'' \<and>
    contents (OutputBuffer (w_conn t)) = ''llo'' \<and> el_pending (w_loop t) = []"
proof -
  obtain b where b: "Connection_send demo_kernel 1 0 (demo_up None) = Inr (demo_after None b)"
    "contents b = ''llo''"
    using demo_sent [of None] by blast
  have c: "co_state (w_conn (demo_up None)) = kConnected" "out_bytes (demo_up None) = []"
    "w_strings (demo_up None) 0 = Some ''hello''" "1 = el_thread (w_loop (demo_up None))"
    "cn_highWaterMarkCallback (w_conn (demo_up None)) = None"
    "cn_writeCompleteCallback (w_conn (demo_up None)) = Some ()"
    by (simp_all add: demo_up_def demo_world_def demo_conn_def demo_loop_def initial_buffer_facts)
  have k: "kn_write demo_kernel shut [] ''hello'' = (if shut then Inl EPIPE else Inr 2)" for shut
    by (simp add: demo_kernel_def)
  have u: "\<not> sk_shut_wr (co_sock (w_conn (demo_up None)))" "w_wire (demo_up None) = []"
    "el_pending (w_loop (demo_up None)) = []"
    by (simp_all add: demo_up_def demo_world_def demo_conn_def demo_loop_def Socket_new_def)
  from direct_send_outcomes [OF demo_up_reachable demo_kernel_doc c b(1)] b show ?thesis
    by (intro exI [of _ "demo_after None b"]) (simp add: k u)
qed

text \<open>
  The functors a send queues: the high-water functor when the output grows from \<open>old\<close> to \<open>new\<close>
  bytes, and the write-complete functor when \<open>write\<close> was called and took everything.
\<close>

definition high_water_due :: "'a connection \<Rightarrow> nat \<Rightarrow> nat \<Rightarrow> 'a conn_task list" where
  "high_water_due c old new =
     (case cn_highWaterMarkCallback c of
        None \<Rightarrow> []
      | Some cb \<Rightarrow> if old < unat (highWaterMark c) \<and> unat (highWaterMark c) \<le> new
          then [HighWater cb (of_nat new)] else [])"

definition write_complete_due :: "'a connection \<Rightarrow> bool \<Rightarrow> 'a conn_task list" where
  "write_complete_due c complete =
     (case cn_writeCompleteCallback c of Some cb \<Rightarrow> if complete then [WriteComplete cb] else [] | None \<Rightarrow> [])"

lemma due_simps [simp]:
  "write_complete_due c False = []" "high_water_due c n n = []"
  by (auto simp: write_complete_due_def high_water_due_def split: option.split)

lemma buffer_rest_queues:
  fixes s u t :: "('a, 'u) world"
  assumes "kernel_doc K" and inv: "conn_inv s" and run: "buffer_rest K tid d m u = Inr t"
    and u: "w_conn u = w_conn s" "el_poller (w_loop u) = el_poller (w_loop s)"
    and d: "unat m \<le> length d" "length d \<le> max_bytes"
  shows "out_bytes t = out_bytes s @ take (unat m) d \<and>
    el_pending (w_loop t) = el_pending (w_loop u) @
      high_water_due (w_conn s) (length (out_bytes s)) (length (out_bytes s) + unat m)"
proof -
  let ?out = "OutputBuffer (w_conn s)" and ?v = "mark_high_water K tid m u"
  obtain b where b: "Buffer_append ?out d m = Inr b"
    and t: "(if \<not> isWriting (co_channel (w_conn s))
      then on_channel enableWriting K (?v\<lparr>w_conn := (w_conn s)\<lparr>OutputBuffer := b\<rparr>\<rparr>)
      else Inr (?v\<lparr>w_conn := (w_conn s)\<lparr>OutputBuffer := b\<rparr>\<rparr>)) = Inr t"
    using run by (auto simp: buffer_rest_def mark_high_water_simps u(1) Let_def rbind_Inr_iff cong: if_cong)
  have "m \<le> vector_max" using d by (simp add: word_le_nat_alt max_bytes_val)
  from append_post [OF buffers_inv(2) [OF inv] this d(1) b]
  have bc: "contents b = out_bytes s @ take (unat m) d" by simp
  let ?w = "?v\<lparr>w_conn := (w_conn s)\<lparr>OutputBuffer := b\<rparr>\<rparr>"
  have poller: "el_poller (w_loop ?v) = el_poller (w_loop s)"
    using u by (simp add: mark_high_water_def Let_def split: option.split)
  have "\<forall>ctl. loop_in_step (ctl, co_id (w_conn ?w)) (co_channel (w_conn ?w)) (w_loop ?w)"
    using inv loop_in_step_frame(1) [OF poller] by (simp add: conn_inv_def attached_inv_def)
  note att = this
  have same: "contents (OutputBuffer (w_conn t)) = contents b \<and> el_pending (w_loop t) = el_pending (w_loop ?v)"
  proof (cases "isWriting (co_channel (w_conn s))")
    case False
    then have "on_channel enableWriting K ?w = Inr t" using t by simp
    then show ?thesis
      by (rule on_channelE [OF _ sets_events_ops(2) kernel_docD(1) [OF assms(1)] att]) simp
  qed (use t in auto)
  have old: "unat (readableBytes ?out) = length (contents ?out)"
    using length_contents [OF buffers_inv(2) [OF inv]] by simp
  have "length (contents ?out) \<le> max_bytes"
    using Buffer_invD [OF buffers_inv(2) [OF inv]] unat_readable [OF buffers_inv(2) [OF inv]]
    by (simp add: old [symmetric] max_bytes_val)
  then have sum: "unat (readableBytes ?out + m) = length (contents ?out) + unat m"
    using d old by (subst unat_add_size) (simp_all add: max_bytes_val)
  have val: "readableBytes ?out = of_nat (length (contents ?out))"
    by (simp add: old [symmetric])
  have "el_pending (w_loop ?v) = el_pending (w_loop u) @
      high_water_due (w_conn s) (length (out_bytes s)) (length (out_bytes s) + unat m)"
    by (auto simp: mark_high_water_def high_water_due_def u(1) Let_def word_le_nat_alt
        word_less_nat_alt val old [unfolded val] sum [unfolded val] split: option.split)
  with same bc show ?thesis by simp
qed

lemma direct_write_queues:
  assumes "kernel_doc K" and "length data \<le> max_bytes"
    and "direct_write K tid data (of_nat (length data)) s = (n, remaining, faultError, s1)"
  shows "el_pending (w_loop s1) = el_pending (w_loop s) @ write_complete_due (w_conn s)
      (kn_write K (sk_shut_wr (co_sock (w_conn s))) (w_wire s) data = Inr (length data))"
proof -
  have len: "unat (of_nat (length data) :: size_t) = length data"
    using assms(2) by (intro unat_of_nat_size) (simp add: max_bytes_val)
  show ?thesis
  proof (cases "kn_write K (sk_shut_wr (co_sock (w_conn s))) (w_wire s) data")
    case (Inl e)
    with assms(3) len show ?thesis by (auto simp: direct_write_def)
  next
    case (Inr k)
    then have k: "k \<le> length data" using assms(1) by (auto simp: kernel_doc_def)
    then have "unat (of_nat k :: size_t) = k"
      using assms(2) by (intro unat_of_nat_size) (simp add: max_bytes_val)
    with k len have "of_nat (length data) - (of_nat k :: size_t) = 0 \<longleftrightarrow> k = length data"
      by (metis eq_iff_diff_eq_0)
    with assms(3) Inr len show ?thesis
      by (auto simp: direct_write_def write_complete_due_def Let_def split: option.splits if_splits)
  qed
qed

text \<open>
  C18: What a send by the loop's thread queues, whatever was pending before it and whatever the
  write does: the write-complete functor when nothing was pending and the kernel took all the
  data, and then the high-water functor exactly when the output left in the buffer has come from
  below the mark to the mark or above, with the amount now buffered. In particular it is what
  remains after a partial write that counts, not the size of the data.
\<close>

theorem high_water_exact:
  assumes "reachable conn_init (conn_step app) s" and "kernel_doc K"
    and "co_state (w_conn s) = kConnected"
    and "w_strings s ptr = Some data" and "tid = el_thread (w_loop s)"
    and "Connection_send K tid ptr s = Inr t"
  shows "el_pending (w_loop t) = el_pending (w_loop s) @
    (let old = length (contents (OutputBuffer (w_conn s)));
         new = length (contents (OutputBuffer (w_conn t)));
         mark = unat (highWaterMark (w_conn s))
     in (case cn_writeCompleteCallback (w_conn s) of
           None \<Rightarrow> []
         | Some cb \<Rightarrow>
             if old = 0 \<and> kn_write K (sk_shut_wr (co_sock (w_conn s))) (w_wire s) data = Inr (length data)
             then [WriteComplete cb] else []) @
        (case cn_highWaterMarkCallback (w_conn s) of
           None \<Rightarrow> []
         | Some cb \<Rightarrow> if old < mark \<and> mark \<le> new then [HighWater cb (of_nat new)] else []))"
proof -
  let ?c = "w_conn s" and ?old = "length (out_bytes s)" and ?len = "of_nat (length data) :: size_t"
  have inv: "conn_inv s" using cl.reachable_inv [OF _ assms(1)] by simp
  have le: "length data \<le> max_bytes" using buffers_inv(3) [OF inv assms(4)] .
  then have un: "unat ?len = length data" by (intro unat_of_nat_size) (simp add: max_bytes_val)
  have zero: "readableBytes (OutputBuffer ?c) = 0 \<longleftrightarrow> out_bytes s = []"
    using readable_eq_0_iff [OF buffers_inv(2) [OF inv]] by simp
  have wr: "isWriting (co_channel ?c) \<longleftrightarrow> out_bytes s \<noteq> []"
    using conn_inv_up(2) [OF inv] assms(3) by simp
  obtain n m fe s1 where d: "(if \<not> isWriting (co_channel ?c) \<and> readableBytes (OutputBuffer ?c) = 0
      then direct_write K tid data ?len s else (0, ?len, False, s)) = (n, m, fe, s1)"
    by (metis prod_cases4)
  let ?u = "if fe then s1 else s1\<lparr>w_accepted := w_accepted s1 @ take (unat ?len) data\<rparr>"
  have "sendInLoop K tid data ?len s = Inr t"
    using assms(3-6) by (simp add: Connection_send_def connected_def isInLoopThread_def)
  then have run: "(if \<not> fe \<and> 0 < m then buffer_rest K tid (drop n data) m ?u else Inr ?u) = Inr t"
    using un assms(3) d by (simp add: sendInLoop_def cong: if_cong)
  define complete where "complete \<longleftrightarrow> out_bytes s = [] \<and>
    kn_write K (sk_shut_wr (co_sock ?c)) (w_wire s) data = Inr (length data)"
  have s1: "w_conn s1 = ?c \<and> el_poller (w_loop s1) = el_poller (w_loop s) \<and>
      el_pending (w_loop s1) = el_pending (w_loop s) @ write_complete_due ?c complete \<and>
      n \<le> length data \<and> unat m = length data - n"
  proof (cases "out_bytes s = []")
    case True
    with d wr zero have "direct_write K tid data ?len s = (n, m, fe, s1)" by simp
    from direct_write_post [OF assms(2) _ this] direct_write_queues [OF assms(2) le this] un True
    show ?thesis by (simp add: complete_def)
  next
    case False
    with d wr un show ?thesis by (auto simp: complete_def)
  qed
  have "el_pending (w_loop t) = el_pending (w_loop s1) @ high_water_due ?c ?old (length (out_bytes t))"
  proof (cases "\<not> fe \<and> 0 < m")
    case True
    with run have "buffer_rest K tid (drop n data) m ?u = Inr t" by simp
    from buffer_rest_queues [OF assms(2) inv this] s1 le True show ?thesis by simp
  next
    case False
    with run have "t = ?u" by (simp split: if_splits)
    then have "out_bytes t = out_bytes s" "el_pending (w_loop t) = el_pending (w_loop s1)" using s1 by simp_all
    then show ?thesis by simp
  qed
  with s1 show ?thesis
    by (simp add: high_water_due_def write_complete_due_def complete_def Let_def split: option.split)
qed

theorem high_water_exact_witness:
  "\<exists>b t. Connection_send demo_kernel 1 1 (demo_after (Some ()) b) = Inr t \<and>
    el_pending (w_loop t) = [HighWater () 67108867]"
proof -
  obtain b where b: "conn_step quiet_app (demo_up (Some ())) (demo_after (Some ()) b)"
    "contents b = ''llo''" "Buffer_inv b" "70000000 \<le> vec_room b"
    using demo_sent [of "Some ()"] by blast
  let ?s = "demo_after (Some ()) b" and ?x = "replicate 67108864 (CHR ''x'')"
  obtain b' where b': "Buffer_append b ?x 67108864 = Inr b'"
    using append_total [OF b(3), of ?x] b(4) by auto
  have w: "isWriting (co_channel (w_conn ?s))" by (simp add: isWriting_def)
  have new: "length (contents b') = 67108867"
    using append_post [OF b(3) _ _ b'] b(2) by (simp add: vector_max_def)
  have "\<exists>t. sendInLoop demo_kernel 1 ?x 67108864 ?s = Inr t \<and> OutputBuffer (w_conn t) = b'"
    using w by (simp add: sendInLoop_def buffer_rest_def b' Let_def)
  then obtain t where t: "Connection_send demo_kernel 1 1 ?s = Inr t" "OutputBuffer (w_conn t) = b'"
    by (auto simp: Connection_send_def connected_def isInLoopThread_def simp del: One_nat_def)
  from high_water_exact [OF demo_after_reachable [OF b(1)] demo_kernel_doc demo_after_simps(4)
      demo_after_simps(7) _ t(1)] t b(2)
  show ?thesis
    by (intro exI [of _ b] exI [of _ t]) (simp add: new split: option.split)
qed

text \<open>
  Data that arrives on a connection whose server set no message callback ends the process:
  the handler calls the empty function object.
\<close>

theorem data_without_message_callback:
  assumes "Buffer_inv (InputBuffer (w_conn s))" and "readv_doc (kn_readv K)"
    and "65536 \<le> vec_room (InputBuffer (w_conn s))"
    and "kn_readv K (readFd_iov (InputBuffer (w_conn s))) = Inr bs" and "bs \<noteq> []"
    and "cn_messageCallback (w_conn s) = None"
  shows "handleRead K app tid time s = Inl Bad_function_call"
  using readFd_received [OF assms(1,2) disjI1 [OF assms(3)] assms(4)] assms(5,6)
  by (auto simp: handleRead_def call_user_def)

theorem data_without_message_callback_witness:
  "handleRead (demo_kernel\<lparr>kn_readv := (\<lambda>iov. if sum_list (map unat iov) < 2 then Inl 11 else Inr ''hi'')\<rparr>)
     quiet_app 1 0 (demo_up None) = Inl Bad_function_call"
proof (rule data_without_message_callback)
  show "65536 \<le> vec_room (InputBuffer (w_conn (demo_up None)))"
    by (simp add: demo_up_def demo_conn_def vec_room_def max_bytes_val initial_buffer_def)
  show "kn_readv (demo_kernel\<lparr>kn_readv := (\<lambda>iov. if sum_list (map unat iov) < 2 then Inl 11 else Inr ''hi'')\<rparr>)
      (readFd_iov (InputBuffer (w_conn (demo_up None)))) = Inr ''hi''"
    by (simp add: readFd_iov_def extrabuf_size_def demo_up_def demo_conn_def initial_buffer_def
        writableBytes_def vec_size_def)
qed (auto simp: readv_doc_def demo_up_def demo_conn_def initial_buffer_facts split: if_splits)

text \<open>
  C19: Destroying a connection takes its descriptor off the kernel's interest list for good,
  whatever state it is in. The user's connection callback hears of it only if the connection was
  still in state \<open>kConnected\<close>: destroyed after \<open>shutdown\<close> but before the peer has closed, it
  goes without a word.
\<close>

theorem connectDestroyed_unregisters:
  assumes "reachable conn_init (conn_step app) s" and "kernel_doc K"
    and "epoll_ctl_serves (kn_ctl K)" and "connectDestroyed K app tid s = Inr t"
  shows "loop_watched (w_loop t) (ch_fd (co_channel (w_conn t))) = None \<and>
    ch_index (co_channel (w_conn t)) = kDeleted \<and> isNoneEvent (co_channel (w_conn t)) \<and>
    (co_state (w_conn s) \<noteq> kConnected \<longrightarrow> w_app t = w_app s \<and> co_state (w_conn t) = co_state (w_conn s))"
proof -
  have inv: "conn_inv s" using cl.reachable_inv [OF _ assms(1)] by simp
  obtain u where u: "(if co_state (w_conn s) = kConnected then
       rbind (on_channel disableAll K (setState kDisconnected s)) (\<lambda>s1.
       call_user K app tid (cn_connectionCallback (w_conn s1)) On_connection s1) else Inr s) = Inr u"
    and t: "channel_remove K u = Inr t"
    using assms(4) unfolding connectDestroyed_def by (rule rbindE)
  have iu: "conn_inv u"
    using u inv disconnect_inv [OF assms(2) inv] call_user_inv [OF assms(2)]
    by (auto split: if_splits elim!: rbindE)
  obtain p where p: "el_poller (w_loop u) = Some p"
    and st: "in_step (kn_ctl K, co_id (w_conn u)) (co_channel (w_conn u)) p"
    using iu by (auto simp: conn_inv_def attached_inv_def loop_in_step_def split: option.splits)
  have tt: "t = u\<lparr>w_conn := (w_conn u)\<lparr>co_channel := (co_channel (w_conn u))
        \<lparr>ch_events := 0, ch_index := kDeleted\<rparr>\<rparr>, w_loop := w_loop t\<rparr> \<and>
      loop_watched (w_loop t) (ch_fd (co_channel (w_conn u))) = None"
    using t removeChannel_eq [OF kernel_docD(1) [OF assms(2)] assms(3) st]
    by (auto simp: channel_remove_def EventLoop_removeChannel_def p loop_watched_def
        watched_events_def)
  have "w_conn t = (w_conn u)\<lparr>co_channel := (co_channel (w_conn u))
        \<lparr>ch_events := 0, ch_index := kDeleted\<rparr>\<rparr>" "w_app t = w_app u"
    by (subst conjunct1 [OF tt], simp)+
  moreover have "u = s" if "co_state (w_conn s) \<noteq> kConnected" using u that by simp
  ultimately show ?thesis using tt by (auto simp: isNoneEvent_def)
qed

theorem connectDestroyed_unregisters_witness:
  "\<exists>t. connectDestroyed demo_kernel quiet_app 1 (demo_up None) = Inr t \<and>
    loop_watched (w_loop t) (ch_fd (co_channel (w_conn t))) = None"
proof -
  have "\<exists>t. connectDestroyed demo_kernel quiet_app 1 (demo_up None) = Inr t"
    by (simp add: connectDestroyed_def setState_def on_channel_def disableAll_def
      EventLoop_updateChannel_def Epollpoller_updateChannel_def Epollpoller_update_def
      EventLoop_removeChannel_def Epollpoller_removeChannel_def channel_remove_def isNoneEvent_def
      demo_up_def demo_world_def demo_conn_def demo_loop_def demo_channel_def
      empty_poller_def demo_kernel_def simple_epoll_ctl_def call_user_def quiet_app_def
      kNew_def kAdded_def kDeleted_def Let_def)
  then obtain t where t: "connectDestroyed demo_kernel quiet_app 1 (demo_up None) = Inr t" by blast
  have "epoll_ctl_serves (kn_ctl demo_kernel)"
    by (simp add: demo_kernel_def simple_epoll_ctl_doc)
  from connectDestroyed_unregisters [OF demo_up_reachable demo_kernel_doc this t] t show ?thesis
    by blast
qed

end
