(* ===== verification/Connection_Run.thy ===== *)
theory Connection_Run
  imports Connection_Props
begin

text \<open>
  A connection run by the loop as the code has it: the \<open>while\<close> of \<open>EventLoop::loop\<close> with its
  polls, dispatches and functors around the handlers of \<open>src/net/Connection.cc\<close>. What every part
  of a program keeps, the loop keeps, and no run of it has a fault that the parts do not have; for a
  connection this excludes all undefined behaviour.
\<close>

section \<open>Results within bounds\<close>

text \<open>A result that is a state with a property or a fault of a kind that is accepted.\<close>

definition sound :: "(fault \<Rightarrow> bool) \<Rightarrow> ('s \<Rightarrow> bool) \<Rightarrow> 's result \<Rightarrow> bool" where
  "sound tame ok r = (case r of Inl e \<Rightarrow> tame e | Inr s \<Rightarrow> ok s)"

lemma sound_simps [simp]:
  "sound tame ok (Inl e) = tame e" "sound tame ok (Inr s) = ok s"
  by (simp_all add: sound_def)

lemma soundI:
  "(\<And>e. r = Inl e \<Longrightarrow> tame e) \<Longrightarrow> (\<And>s. r = Inr s \<Longrightarrow> ok s) \<Longrightarrow> sound tame ok r"
  by (cases r) simp_all

lemma sound_rbind:
  "sound tame ok m \<Longrightarrow> (\<And>s. m = Inr s \<Longrightarrow> ok s \<Longrightarrow> sound tame ok' (f s)) \<Longrightarrow>
     sound tame ok' (rbind m f)"
  by (cases m) simp_all

lemma sound_mono: "sound tame ok r \<Longrightarrow> (\<And>s. ok s \<Longrightarrow> ok' s) \<Longrightarrow> sound tame ok' r"
  by (cases r) simp_all

section \<open>A program whose parts are sound\<close>

text \<open>
  The interface between the loop and the program it runs: \<open>ok\<close> is kept by functors of the kind
  \<open>good\<close> and by the callbacks of all channels, it speaks of the loop only by its poller, its wakeup
  channel, its thread and its pending functors, and it survives a poll.
\<close>

definition has_callback :: "'cb channel \<Rightarrow> 'cb \<Rightarrow> bool" where
  "has_callback ch cb \<longleftrightarrow> readCallback ch = Some cb \<or> writeCallback ch = Some cb \<or>
     closeCallback ch = Some cb \<or> errorCallback ch = Some cb"

locale sound_host = loop_host H
  for H :: "('s, 'f, 'cb) host" +
  fixes ok :: "'s \<Rightarrow> bool" and good :: "'f \<Rightarrow> bool" and tame :: "fault \<Rightarrow> bool"
  assumes ok_frame: "ok s \<Longrightarrow> el_poller (g (h_loop H s)) = el_poller (h_loop H s) \<Longrightarrow>
      el_thread (g (h_loop H s)) = el_thread (h_loop H s) \<Longrightarrow>
      el_wakeup (g (h_loop H s)) = el_wakeup (h_loop H s) \<Longrightarrow>
      set (el_pending (g (h_loop H s))) \<subseteq> set (el_pending (h_loop H s)) \<Longrightarrow> ok (h_upd H g s)"
    and ok_poller: "ok s \<Longrightarrow> el_poller (h_loop H s) \<noteq> None"
    and ok_poll: "ok s \<Longrightarrow> el_poller (h_loop H s) = Some p \<Longrightarrow>
      Epollpoller_poll epoll_wait (h_chan H s) p [] = (chans, p', active) \<Longrightarrow>
      ok (h_upd H (\<lambda>l. l\<lparr>el_poller := Some p', el_active := active, el_pollTime := now\<rparr>)
        (h_chans H chans s))"
    and ok_pending: "ok s \<Longrightarrow> f \<in> set (el_pending (h_loop H s)) \<Longrightarrow> good f"
    and functor_sound: "ok s \<Longrightarrow> good f \<Longrightarrow> sound tame ok (h_functor H f s)"
    and callback_sound: "ok s \<Longrightarrow> has_callback (h_chan H s cid) cb \<Longrightarrow> sound tame ok (h_callback H cb s)"
    and readback_sound: "ok s \<Longrightarrow> has_callback (h_chan H s cid) cb \<Longrightarrow> sound tame ok (h_readback H cb t s)"
begin

lemma sound_seq: "sound tame ok m \<Longrightarrow> (\<And>s. ok s \<Longrightarrow> sound tame ok' (f s)) \<Longrightarrow> sound tame ok' (rbind m f)"
  by (rule sound_rbind)

lemma call_sound:
  "ok s \<Longrightarrow> (\<And>c. cb = Some c \<Longrightarrow> sound tame ok (run c s)) \<Longrightarrow>
     sound tame ok (if b then call_cb run cb s else Inr s)"
  by (simp add: call_cb_def split: option.split)

lemma guard_sound:
  "ok s \<Longrightarrow> sound tame ok (handleEventWithGuard (h_callback H) (h_readback H) (\<lambda>s. h_chan H s cid) t s)"
  unfolding handleEventWithGuard_def
  by (intro sound_seq call_sound callback_sound [where cid = cid] readback_sound [where cid = cid])
    (simp_all add: has_callback_def)

lemma event_sound: "ok s \<Longrightarrow> sound tame ok
    (handleEvent (h_alive H) (h_callback H) (h_readback H) (\<lambda>s. h_chan H s cid) t s)"
  by (simp add: handleEvent_def guard_sound split: option.split)

lemma active_sound: "ok s \<Longrightarrow> sound tame ok (handle_active H t cids s)"
  by (induction cids arbitrary: s) (auto intro: sound_rbind event_sound)

lemma functors_sound:
  "ok s \<Longrightarrow> \<forall>f \<in> set fs. good f \<Longrightarrow> sound tame ok (run_functors (h_functor H) fs s)"
  by (induction fs arbitrary: s) (auto intro!: sound_rbind intro: functor_sound)

lemma pending_sound:
  assumes "ok s"
  shows "sound tame ok (doPendingFunctors H s)"
proof -
  let ?s1 = "h_upd H (\<lambda>l. l\<lparr>el_calling := True\<rparr>) s"
  let ?s2 = "h_upd H (\<lambda>l. l\<lparr>el_pending := []\<rparr>) ?s1"
  have 1: "ok ?s1" by (rule ok_frame [OF assms]) simp_all
  have 2: "ok ?s2" by (rule ok_frame [OF 1]) simp_all
  have "sound tame ok (run_functors (h_functor H) (el_pending (h_loop H ?s1)) ?s2)"
    using 2 ok_pending [OF 1] by (intro functors_sound) auto
  then show ?thesis
    unfolding doPendingFunctors_def Let_def by (rule sound_rbind) (simp add: ok_frame)
qed

lemma pass_sound:
  assumes "ok s"
  shows "sound tame ok (loop_pass H poll s)"
proof -
  obtain epoll_wait now where poll: "poll = (epoll_wait, now)" by (cases poll)
  let ?s1 = "h_upd H (\<lambda>l. l\<lparr>el_active := []\<rparr>) s"
  have 1: "ok ?s1" by (rule ok_frame [OF assms]) simp_all
  then obtain p where p: "el_poller (h_loop H ?s1) = Some p" using ok_poller by blast
  obtain chans p' active where e: "Epollpoller_poll epoll_wait (h_chan H ?s1) p [] = (chans, p', active)"
    by (metis prod_cases3)
  show ?thesis
    unfolding poll loop_pass_def Let_def prod.case p option.case e
    by (intro sound_seq active_sound ok_poll [OF 1 p e] pending_sound)
qed

lemma while_sound: "ok s \<Longrightarrow> sound tame (\<lambda>(s, ended). ok s) (loop_while H polls s)"
proof (induction polls arbitrary: s)
  case Nil
  then show ?case by (simp add: ok_frame)
next
  case (Cons poll polls)
  then show ?case by (auto simp: ok_frame intro: sound_rbind pass_sound)
qed

lemma loop_sound: "ok s \<Longrightarrow> sound tame (\<lambda>(s, ended). ok s) (EventLoop_loop H polls s)"
  unfolding EventLoop_loop_def by (rule while_sound) (simp add: ok_frame)

end

section \<open>The operations of a connection\<close>

text \<open>
  The faults of a connection on its loop's thread: \<open>epoll_ctl\<close> fails and the logger ends the process,
  an empty callback is called, or a buffer would outgrow its vector. No undefined behaviour is among
  them.
\<close>

fun defined_fault :: "fault \<Rightarrow> bool" where
  "defined_fault Fatal_exit = True"
| "defined_fault Bad_function_call = True"
| "defined_fault Length_error = True"
| "defined_fault _ = False"

text \<open>The functors that the loop's own thread queues while the connection lives.\<close>

fun own_task :: "'a conn_task \<Rightarrow> bool" where
  "own_task ShutdownInLoop = True"
| "own_task (WriteComplete cb) = True"
| "own_task (HighWater cb n) = True"
| "own_task _ = False"

text \<open>
  Calls a user may make: sending one of the strings \<open>A\<close>, which the program keeps, or characters
  that are there; retrieving from the input buffer; shutting down.
\<close>

fun proper_call :: "nat set \<Rightarrow> api_call \<Rightarrow> bool" where
  "proper_call A (Call_send ptr) \<longleftrightarrow> ptr \<in> A"
| "proper_call A (Call_send_chars d n) \<longleftrightarrow> 0 \<le> sint n \<and> nat (sint n) \<le> length d"
| "proper_call A _ \<longleftrightarrow> True"

definition proper_app :: "nat set \<Rightarrow> ('a, 'u) app \<Rightarrow> bool" where
  "proper_app A app \<longleftrightarrow> (\<forall>cb ev c u. \<forall>call \<in> set (fst (app cb ev c u)). proper_call A call)"

definition own_thread :: "nat \<Rightarrow> nat set \<Rightarrow> ('a, 'u) world \<Rightarrow> bool" where
  "own_thread tid A s \<longleftrightarrow> el_thread (w_loop s) = tid \<and> co_state (w_conn s) \<noteq> kConnecting \<and>
     (\<forall>f \<in> set (el_pending (w_loop s)). own_task f) \<and>
     (\<forall>ptr \<in> A. w_strings s ptr \<noteq> None \<and> ptr < w_next s)"

definition running :: "nat \<Rightarrow> nat set \<Rightarrow> ('a, 'u) world \<Rightarrow> bool" where
  "running tid A s \<longleftrightarrow> conn_inv s \<and> own_thread tid A s"

lemma own_thread_frame:
  "own_thread tid A s \<Longrightarrow> el_thread (w_loop t) = el_thread (w_loop s) \<Longrightarrow>
     co_state (w_conn t) = co_state (w_conn s) \<Longrightarrow>
     set (el_pending (w_loop t)) \<subseteq> set (el_pending (w_loop s)) \<Longrightarrow>
     w_strings t = w_strings s \<Longrightarrow> w_next t = w_next s \<Longrightarrow> own_thread tid A t"
  by (auto simp: own_thread_def)

lemma own_thread_queue: "own_thread tid A s \<Longrightarrow> own_task f \<Longrightarrow> own_thread tid A (queue_task K tid f s)"
  by (auto simp: own_thread_def queue_task_def)

lemma on_channel_fault:
  assumes "sets_events op g" and "loop_in_step (kn_ctl K, co_id (w_conn s)) (co_channel (w_conn s)) (w_loop s)"
    and "on_channel op K s = Inl e"
  shows "e = Fatal_exit"
proof -
  let ?k = "(kn_ctl K, co_id (w_conn s))"
  let ?ch = "(co_channel (w_conn s))\<lparr>ch_events := g (ch_events (co_channel (w_conn s)))\<rparr>"
  have "EventLoop_updateChannel ?k ?ch (w_loop s) = Inl e"
    using assms(3) by (auto simp: on_channel_def assms(1) [unfolded sets_events_def, rule_format] rbind_Inl_iff)
  moreover have "loop_in_step ?k ?ch (w_loop s)" using assms(2) by (simp add: lo.attached_events)
  ultimately show ?thesis using lo.upd_fault by blast
qed

lemma on_channel_own:
  assumes "sets_events op g" and "epoll_ctl_doc (kn_ctl K)"
    and "\<forall>ctl. loop_in_step (ctl, co_id (w_conn s)) (co_channel (w_conn s)) (w_loop s)"
    and "own_thread tid A s" and "on_channel op K s = Inr t"
  shows "own_thread tid A t"
  by (rule on_channelE [OF assms(5,1,2,3)]) (use assms(4) in \<open>auto simp: own_thread_def\<close>)

lemma on_channel_sound:
  assumes "sets_events op g" and "kernel_doc K"
    and "\<forall>ctl. loop_in_step (ctl, co_id (w_conn s)) (co_channel (w_conn s)) (w_loop s)"
    and "own_thread tid A s"
  shows "sound defined_fault (own_thread tid A) (on_channel op K s)"
proof (rule soundI)
  show "defined_fault e" if "on_channel op K s = Inl e" for e
    using on_channel_fault [OF assms(1) assms(3) [rule_format] that] by simp
  show "own_thread tid A t" if "on_channel op K s = Inr t" for t
    by (rule on_channel_own [OF assms(1) kernel_docD(1) [OF assms(2)] assms(3,4) that])
qed

lemma inv_in_step: "conn_inv s \<Longrightarrow>
  \<forall>ctl. loop_in_step (ctl, co_id (w_conn s)) (co_channel (w_conn s)) (w_loop s)"
  by (simp add: conn_inv_def attached_inv_def)

lemma sound_running:
  "sound defined_fault (own_thread tid A) r \<Longrightarrow> (\<And>t. r = Inr t \<Longrightarrow> conn_inv t) \<Longrightarrow>
     sound defined_fault (running tid A) r"
  by (cases r) (simp_all add: running_def)

lemma direct_write_own:
  assumes "own_thread tid A s" and "direct_write K tid data len s = (n, remaining, fe, s1)"
  shows "own_thread tid A s1"
  using assms
  by (auto simp: direct_write_def own_thread_def queue_task_def Let_def split: sum.splits option.splits if_splits)

lemma mark_high_water_own: "own_thread tid A s \<Longrightarrow> own_thread tid A (mark_high_water K tid n s)"
  by (auto simp: mark_high_water_def own_thread_def queue_task_def Let_def split: option.splits)

lemma buffer_rest_sound:
  assumes "kernel_doc K" and own: "own_thread tid A s" and "Buffer_inv (OutputBuffer (w_conn s))"
    and "\<forall>ctl. loop_in_step (ctl, co_id (w_conn s)) (co_channel (w_conn s)) (w_loop s)"
    and "unat remaining \<le> length rest" and "length rest \<le> max_bytes"
  shows "sound defined_fault (own_thread tid A) (buffer_rest K tid rest remaining s)"
proof -
  define s1 where "s1 = mark_high_water K tid remaining s"
  note s1 = mark_high_water_simps [where K = K and tid = tid and n = remaining and s = s, folded s1_def]
  have own1: "own_thread tid A s1" unfolding s1_def by (rule mark_high_water_own [OF own])
  have le: "remaining \<le> vector_max" using assms(5,6) by (simp add: word_le_nat_alt max_bytes_val)
  show ?thesis
  proof (cases "Buffer_append (OutputBuffer (w_conn s)) rest remaining")
    case (Inl e)
    with append_fault [OF assms(3) le assms(5) Inl] show ?thesis
      by (simp add: buffer_rest_def s1_def [symmetric] s1 Let_def)
  next
    case (Inr b)
    let ?s2 = "s1\<lparr>w_conn := (w_conn s)\<lparr>OutputBuffer := b\<rparr>\<rparr>"
    have own2: "own_thread tid A ?s2" by (rule own_thread_frame [OF own1]) (simp_all add: s1)
    have st: "\<forall>ctl. loop_in_step (ctl, co_id (w_conn ?s2)) (co_channel (w_conn ?s2)) (w_loop ?s2)"
      using assms(4) by (simp add: s1)
    from on_channel_sound [OF sets_events_ops(2) assms(1) st own2] Inr own2 show ?thesis
      by (simp add: buffer_rest_def s1_def [symmetric] s1 Let_def)
  qed
qed

lemma sendInLoop_sound:
  assumes K: "kernel_doc K" and run: "running tid A s"
    and len: "unat len \<le> length data" "length data \<le> max_bytes"
  shows "sound defined_fault (running tid A) (sendInLoop K tid data len s)"
proof (rule sound_running)
  from run have inv: "conn_inv s" and own: "own_thread tid A s" by (simp_all add: running_def)
  obtain n remaining fe s1 where d: "(if \<not> isWriting (co_channel (w_conn s)) \<and>
      readableBytes (OutputBuffer (w_conn s)) = 0
      then direct_write K tid data len s else (0, len, False, s)) = (n, remaining, fe, s1)"
    by (metis prod_cases4)
  have post: "n \<le> unat len \<and> unat remaining = unat len - n \<and> w_conn s1 = w_conn s \<and>
      el_poller (w_loop s1) = el_poller (w_loop s)"
    using d direct_write_post [OF K len(1), of tid s n remaining fe s1] by (auto split: if_splits)
  have own1: "own_thread tid A s1" using d direct_write_own [OF own] own by (auto split: if_splits)
  let ?s2 = "if fe then s1 else s1\<lparr>w_accepted := w_accepted s1 @ take (unat len) data\<rparr>"
  have own2: "own_thread tid A ?s2" by (rule own_thread_frame [OF own1]) simp_all
  have st: "loop_in_step k ch (w_loop s1) = loop_in_step k ch (w_loop s)" for k ch
    using loop_in_step_frame(1) [of "w_loop s1" "w_loop s"] post by blast
  have "sound defined_fault (own_thread tid A) (buffer_rest K tid (drop n data) remaining ?s2)"
    by (rule buffer_rest_sound [OF K own2])
      (use post len buffers_inv(2) [OF inv] inv_in_step [OF inv] in \<open>simp_all add: st\<close>)
  with own own2 d len(1) show "sound defined_fault (own_thread tid A) (sendInLoop K tid data len s)"
    by (cases fe) (simp_all add: sendInLoop_def Let_def cong: if_cong)
  show "conn_inv t" if "sendInLoop K tid data len s = Inr t" for t
    using sendInLoop_inv [OF K inv _ len(2) that] own by (simp add: own_thread_def)
qed

lemma runningD:
  assumes "running tid A s"
  shows "conn_inv s" "own_thread tid A s" "isInLoopThread tid (w_loop s)" "co_state (w_conn s) \<noteq> kConnecting"
    "ptr \<in> A \<Longrightarrow> \<exists>buf. w_strings s ptr = Some buf \<and> length buf \<le> max_bytes"
    "ptr \<in> A \<Longrightarrow> ptr < w_next s"
  using assms buffers_inv(3) [of s ptr]
  by (auto simp: running_def own_thread_def isInLoopThread_def)

lemma send_sound:
  assumes K: "kernel_doc K" and run: "running tid A s" and buf: "w_strings s ptr = Some buf"
  shows "sound defined_fault (running tid A) (Connection_send K tid ptr s)"
proof -
  have le: "length buf \<le> max_bytes" by (rule buffers_inv(3) [OF runningD(1) [OF run] buf])
  then have n: "unat (of_nat (length buf) :: size_t) = length buf"
    by (intro unat_of_nat_size) (simp add: max_bytes_val)
  have "sound defined_fault (running tid A) (sendInLoop K tid buf (of_nat (length buf)) s)"
    by (rule sendInLoop_sound [OF K run _ le]) (simp add: n)
  with buf run runningD(3) [OF run] show ?thesis by (simp add: Connection_send_def)
qed

lemma sendInLoop_strings:
  "sendInLoop K tid data len s = Inr t \<Longrightarrow> w_strings t = w_strings s \<and> w_next t = w_next s"
  by (auto simp: sendInLoop_def buffer_rest_def direct_write_def mark_high_water_def on_channel_def
      queue_task_def Let_def rbind_Inr_iff split: if_splits sum.splits option.splits prod.splits)

lemma send_chars_sound:
  assumes K: "kernel_doc K" and run: "running tid A s"
    and len: "0 \<le> sint len" "nat (sint len) \<le> length data"
  shows "sound defined_fault (running tid A) (Connection_send_chars K tid data len s)"
proof (rule sound_running)
  let ?buf = "take (nat (sint len)) data"
  let ?s1 = "s\<lparr>w_strings := (w_strings s)(w_next s \<mapsto> ?buf), w_next := Suc (w_next s)\<rparr>"
  have "nat (sint len) \<le> 9223372036854775807" using sint_lt [of len] by simp
  then have le: "length ?buf \<le> max_bytes"
    unfolding length_take max_bytes_val by (rule order_trans [OF min.cobounded2])
  have "own_thread tid A ?s1"
    using runningD(2) [OF run] by (auto simp: own_thread_def)
  then have run1: "running tid A ?s1"
    using conn_inv_strings(1) [OF runningD(1) [OF run] le] by (simp add: running_def)
  have buf: "w_strings ?s1 (w_next s) = Some ?buf" by simp
  have eq: "Connection_send_chars K tid data len s = rbind (Connection_send K tid (w_next s) ?s1)
      (\<lambda>s2. Inr (s2\<lparr>w_strings := (w_strings s2)(w_next s := None)\<rparr>))"
    using len by (simp add: Connection_send_chars_def Let_def)
  show "sound defined_fault (own_thread tid A) (Connection_send_chars K tid data len s)"
    unfolding eq
  proof (rule sound_rbind [OF send_sound [OF K run1 buf]])
    fix t assume t: "Connection_send K tid (w_next s) ?s1 = Inr t" and "running tid A t"
    from runningD(6) [OF run] show "sound defined_fault (own_thread tid A)
        (Inr (t\<lparr>w_strings := (w_strings t)(w_next s := None)\<rparr>))"
      using runningD(2) [OF \<open>running tid A t\<close>] by (auto simp: own_thread_def)
  qed
  show "conn_inv t" if "Connection_send_chars K tid data len s = Inr t" for t
    by (rule send_chars_inv [OF K runningD(1) [OF run] that])
qed

lemma shutdownInLoop_own: "own_thread tid A s \<Longrightarrow> own_thread tid A (shutdownInLoop K s)"
  by (auto simp: shutdownInLoop_def own_thread_def)

lemma shutdown_sound:
  assumes run: "running tid A s"
  shows "sound defined_fault (running tid A) (Connection_shutdown K tid s)"
proof (rule sound_running)
  have "own_thread tid A (setState kDisconnecting s)"
    using runningD(2) [OF run] by (simp add: setState_def own_thread_def)
  from shutdownInLoop_own [OF this, of K] show "sound defined_fault (own_thread tid A) (Connection_shutdown K tid s)"
    using runningD(2,3) [OF run]
    by (simp add: Connection_shutdown_def run_or_queue_def setState_def)
  show "conn_inv t" if "Connection_shutdown K tid s = Inr t" for t
    by (rule shutdown_inv [OF runningD(1) [OF run] that])
qed

lemma running_input: "running tid A s \<Longrightarrow> Buffer_inv b \<Longrightarrow>
  running tid A (s\<lparr>w_conn := (w_conn s)\<lparr>InputBuffer := b\<rparr>\<rparr>)"
  by (simp add: running_def conn_inv_input own_thread_def)

lemma api_sound:
  fixes s :: "('a, 'u) world"
  assumes K: "kernel_doc K"
  shows "running tid A s \<Longrightarrow> \<forall>call \<in> set calls. proper_call A call \<Longrightarrow>
    sound defined_fault (running tid A) (run_api K tid calls s)"
proof (induction calls arbitrary: s)
  case (Cons call calls)
  note inv = runningD(1) [OF Cons.prems(1)]
  have rest: "sound defined_fault (running tid A) (run_api K tid calls t)"
    if "running tid A t" for t :: "('a, 'u) world"
    using Cons.IH [OF that] Cons.prems(2) by simp
  show ?case
  proof (cases call)
    case (Call_send ptr)
    with Cons.prems obtain buf where "w_strings s ptr = Some buf" using runningD(5) by fastforce
    with sound_rbind [OF send_sound [OF K Cons.prems(1)] rest] Call_send show ?thesis by simp
  next
    case (Call_send_chars d n)
    with Cons.prems(2) sound_rbind [OF send_chars_sound [OF K Cons.prems(1)] rest] show ?thesis by simp
  next
    case Call_shutdown
    with sound_rbind [OF shutdown_sound [OF Cons.prems(1)] rest] show ?thesis by simp
  next
    case (Call_retrieve n)
    have "Buffer_inv (retrieve (InputBuffer (w_conn s)) n)"
      using retrieve_post [OF buffers_inv(1) [OF inv]] by blast
    from rest [OF running_input [OF Cons.prems(1) this]] Call_retrieve show ?thesis by simp
  next
    case Call_retrieveAll
    from rest [OF running_input [OF Cons.prems(1) retrieveAll_post(1) [OF buffers_inv(1) [OF inv]]]]
      Call_retrieveAll show ?thesis by simp
  qed
qed simp

lemma user_sound:
  assumes K: "kernel_doc K" and app: "proper_app A app" and run: "running tid A s"
  shows "sound defined_fault (running tid A) (call_user K app tid cb ev s)"
proof (cases cb)
  case (Some c)
  obtain calls u where cu: "app c ev (w_conn s) (w_app s) = (calls, u)" by (cases "app c ev (w_conn s) (w_app s)")
  have "\<forall>call \<in> set calls. proper_call A call"
    using app [unfolded proper_app_def, rule_format, of _ c ev "w_conn s" "w_app s"] cu by simp
  moreover have "running tid A (s\<lparr>w_app := u\<rparr>)"
    using run by (simp add: running_def conn_inv_frame own_thread_def)
  ultimately show ?thesis using api_sound [OF K] Some cu by (simp add: call_user_def)
qed (simp add: call_user_def)

section \<open>The handlers\<close>

text \<open>What all of them run under: the kernel as documented and a user who makes proper calls.\<close>

definition run_env :: "kernel \<Rightarrow> ('a, 'u) app \<Rightarrow> nat set \<Rightarrow> bool" where
  "run_env K app A \<longleftrightarrow> kernel_doc K \<and> proper_app A app"

lemma run_envD: "run_env K app A \<Longrightarrow> kernel_doc K" "run_env K app A \<Longrightarrow> proper_app A app"
  by (simp_all add: run_env_def)

lemma close_sound:
  assumes env: "run_env K app A" and run: "running tid A s"
  shows "sound defined_fault (running tid A) (handleClose K app tid s)"
  unfolding handleClose_def
proof (intro sound_rbind)
  note K = run_envD(1) [OF env]
  have own: "own_thread tid A (setState kDisconnected s)"
    using runningD(2) [OF run] by (simp add: setState_def own_thread_def)
  have st: "\<forall>ctl. loop_in_step (ctl, co_id (w_conn (setState kDisconnected s)))
      (co_channel (w_conn (setState kDisconnected s))) (w_loop (setState kDisconnected s))"
    using inv_in_step [OF runningD(1) [OF run]] by (simp add: setState_def)
  show "sound defined_fault (running tid A) (on_channel disableAll K (setState kDisconnected s))"
    using on_channel_sound [OF sets_events_ops(4) K st own] disconnect_inv [OF K runningD(1) [OF run]]
    by (intro sound_running) auto
qed (rule user_sound [OF run_envD [OF env]], assumption)+

lemma running_errors: "running tid A s \<Longrightarrow> running tid A (handleError K s)"
  by (simp add: running_def handleError_def conn_inv_frame own_thread_def Let_def)

lemma read_sound:
  assumes env: "run_env K app A" and run: "running tid A s"
  shows "sound defined_fault (running tid A) (handleRead K app tid time s)"
  unfolding handleRead_def
proof (rule sound_rbind [where ok = "\<lambda>(n, err, b). Buffer_inv b"])
  note b = buffers_inv(1) [OF runningD(1) [OF run]] and r = kernel_docD(2) [OF run_envD(1) [OF env]]
  show "sound defined_fault (\<lambda>(n, err, b). Buffer_inv b) (readFd (kn_readv K) (InputBuffer (w_conn s)))"
    using readFd_fault [OF b r] readFd_inv [OF b r] by (intro soundI) auto
next
  fix x :: "int \<times> errno option \<times> Buffer"
  assume "case x of (n, err, b) \<Rightarrow> Buffer_inv b"
  then obtain n err b where x: "x = (n, err, b)" and b: "Buffer_inv b" by (cases x) auto
  note i = running_input [OF run b]
  show "sound defined_fault (running tid A) (case x of (n, savedErrno, b) \<Rightarrow>
      let s1 = s\<lparr>w_conn := (w_conn s)\<lparr>InputBuffer := b\<rparr>\<rparr>
      in if n > 0 then call_user K app tid (cn_messageCallback (w_conn s1)) (On_message time) s1
         else if n = 0 then handleClose K app tid s1 else Inr (handleError K s1))"
    using user_sound [OF run_envD [OF env] i] close_sound [OF env i] running_errors [OF i]
    by (simp add: x Let_def)
qed

lemma write_sound:
  assumes K: "kernel_doc K" and run: "running tid A s"
  shows "sound defined_fault (running tid A) (handleWrite K tid s)"
proof (rule sound_running)
  show "conn_inv t" if "handleWrite K tid s = Inr t" for t
    by (rule handleWrite_inv [OF K runningD(1) [OF run] that])
  note own = runningD(2) [OF run]
  let ?out = "OutputBuffer (w_conn s)"
  obtain n err where w: "writeFd (kn_write K (sk_shut_wr (co_sock (w_conn s))) (w_wire s)) ?out = (n, err)"
    by (metis surj_pair)
  let ?s1 = "s\<lparr>w_wire := w_wire s @ take (nat n) (contents ?out)\<rparr>"
  let ?s2 = "?s1\<lparr>w_conn := (w_conn ?s1)\<lparr>OutputBuffer := retrieve ?out (of_int n)\<rparr>\<rparr>"
  have own1: "own_thread tid A ?s1" and own2: "own_thread tid A ?s2"
    by (rule own_thread_frame [OF own], simp_all)+
  have st: "\<forall>ctl. loop_in_step (ctl, co_id (w_conn ?s2)) (co_channel (w_conn ?s2)) (w_loop ?s2)"
    using inv_in_step [OF runningD(1) [OF run]] by simp
  have fin: "sound defined_fault (own_thread tid A)
      (let s4 = (case cn_writeCompleteCallback (w_conn s3) of
              None \<Rightarrow> s3 | Some cb \<Rightarrow> queue_task K tid (WriteComplete cb) s3)
       in if co_state (w_conn s4) = kDisconnecting then Inr (shutdownInLoop K s4) else Inr s4)"
    if "own_thread tid A s3" for s3 :: "('a, 'b) world"
    using that shutdownInLoop_own [OF that, of K]
      shutdownInLoop_own [OF own_thread_queue [OF that], of "WriteComplete cb" K K for cb]
    by (auto simp: Let_def own_thread_queue split: option.split)
  have "sound defined_fault (own_thread tid A) (rbind (on_channel disableWriting K ?s2) (\<lambda>s3.
      let s4 = (case cn_writeCompleteCallback (w_conn s3) of
              None \<Rightarrow> s3 | Some cb \<Rightarrow> queue_task K tid (WriteComplete cb) s3)
       in if co_state (w_conn s4) = kDisconnecting then Inr (shutdownInLoop K s4) else Inr s4))"
    by (rule sound_rbind [OF on_channel_sound [OF sets_events_ops(3) K st own2] fin])
  with w own own1 own2 show "sound defined_fault (own_thread tid A) (handleWrite K tid s)"
    by (simp add: handleWrite_def Let_def cong: if_cong)
qed

lemma task_sound:
  assumes env: "run_env K app A" and run: "running tid A s" and f: "own_task f"
  shows "sound defined_fault (running tid A) (run_task K app tid f s)"
proof (cases f)
  case ShutdownInLoop
  with shutdownInLoop_inv [OF runningD(1,4) [OF run]] shutdownInLoop_own [OF runningD(2) [OF run]]
  show ?thesis by (simp add: running_def)
qed (use f user_sound [OF run_envD [OF env] run] in auto)

lemma handleRead_frame:
  "el_thread (EventLoop_handleRead r l) = el_thread l" "el_pending (EventLoop_handleRead r l) = el_pending l"
  by (auto simp: EventLoop_handleRead_def split: sum.splits)

lemma callback_run_sound:
  assumes env: "run_env K app A" and run: "running tid A s"
  shows "sound defined_fault (running tid A) (run_callback K app tid cb s)"
proof (cases cb)
  case Loop_handleRead
  with run show ?thesis
    by (simp add: running_def conn_inv_frame own_thread_def handleRead_frame)
next
  case Conn_handleWrite
  with write_sound [OF run_envD(1) [OF env] run] show ?thesis by simp
next
  case Conn_handleClose
  with close_sound [OF env run] show ?thesis by simp
qed (use running_errors [OF run] in auto)

lemma readback_run_sound:
  "run_env K app A \<Longrightarrow> running tid A s \<Longrightarrow>
     sound defined_fault (running tid A) (run_readback K app tid cb time s)"
  by (simp add: run_readback_def read_sound callback_run_sound)

text \<open>The invariant reads the loop through its poller's interest list only.\<close>

lemma running_loop:
  assumes "running tid A s" and "map_option interest (el_poller l) = map_option interest (el_poller (w_loop s))"
    and "el_thread l = tid" and "set (el_pending l) \<subseteq> set (el_pending (w_loop s))"
  shows "running tid A (s\<lparr>w_loop := l\<rparr>)"
proof -
  have "loop_in_step k ch l = loop_in_step k ch (w_loop s)" "loop_watched l fd = loop_watched (w_loop s) fd"
    for k fd and ch :: "conn_cb channel"
    using assms(2) by (auto simp: loop_in_step_def loop_watched_def in_step_def watched_events_def split: option.splits)
  with assms(1,3,4) show ?thesis
    by (auto simp: running_def conn_inv_def stream_inv_def attached_inv_def mode_inv_def own_thread_def)
qed

lemma fill_any_revents: "\<exists>r. fst (fillActiveChannels evs chans active) cid = (chans cid)\<lparr>ch_revents := r\<rparr>"
proof (induction evs chans active rule: fillActiveChannels.induct)
  case (1 chans active)
  show ?case by (intro exI [of _ "ch_revents (chans cid)"]) simp
next
  case (2 events cid' evs chans active)
  then obtain r where "fst (fillActiveChannels evs (chans(cid' := set_revents events (chans cid')))
      (active @ [cid'])) cid = ((chans(cid' := set_revents events (chans cid'))) cid)\<lparr>ch_revents := r\<rparr>" by blast
  then show ?case by (auto simp: set_revents_def)
qed

lemma poll_revents:
  assumes "Epollpoller_poll epoll_wait chans p active = (chans', p', active')"
  shows "\<exists>r. chans' cid = (chans cid)\<lparr>ch_revents := r\<rparr>" and "interest p' = interest p"
proof -
  have none: "\<exists>r. chans cid = (chans cid)\<lparr>ch_revents := r\<rparr>"
    by (intro exI [of _ "ch_revents (chans cid)"]) simp
  show "\<exists>r. chans' cid = (chans cid)\<lparr>ch_revents := r\<rparr>"
  proof (cases "epoll_wait (ev_size p)")
    case (Inl e)
    with assms none show ?thesis by (simp add: Epollpoller_poll_def)
  next
    case (Inr evs)
    show ?thesis
    proof (cases "evs = []")
      case False
      with assms Inr have "chans' = fst (fillActiveChannels evs chans active)"
        by (auto simp: Epollpoller_poll_def split: prod.splits)
      with fill_any_revents show ?thesis by metis
    qed (use assms Inr none in \<open>simp add: Epollpoller_poll_def\<close>)
  qed
  show "interest p' = interest p"
    using assms by (auto simp: Epollpoller_poll_def Let_def split: sum.splits if_splits prod.splits)
qed

lemma running_revents: "running tid A s \<Longrightarrow>
  running tid A (s\<lparr>w_conn := (w_conn s)\<lparr>co_channel := (co_channel (w_conn s))\<lparr>ch_revents := r\<rparr>\<rparr>\<rparr>)"
  by (simp add: running_def conn_inv_revents own_thread_def)

text \<open>The program around the loop is sound, so the loop is.\<close>

interpretation cr: sound_host "conn_host K app tid" "\<lambda>s. run_env K app A \<and> running tid A s" own_task defined_fault
proof unfold_locales
  fix s :: "('a, 'b) world" and g :: "('a conn_task, conn_cb) evloop \<Rightarrow> ('a conn_task, conn_cb) evloop"
  assume "run_env K app A \<and> running tid A s"
    and "el_poller (g (h_loop (conn_host K app tid) s)) = el_poller (h_loop (conn_host K app tid) s)"
    and "el_thread (g (h_loop (conn_host K app tid) s)) = el_thread (h_loop (conn_host K app tid) s)"
    and "set (el_pending (g (h_loop (conn_host K app tid) s))) \<subseteq> set (el_pending (h_loop (conn_host K app tid) s))"
  then show "run_env K app A \<and> running tid A (h_upd (conn_host K app tid) g s)"
    using running_loop [of tid A s "g (w_loop s)"] runningD(2) [of tid A s]
    by (simp add: conn_host_def own_thread_def)
next
  fix s :: "('a, 'b) world"
  assume "run_env K app A \<and> running tid A s"
  then show "el_poller (h_loop (conn_host K app tid) s) \<noteq> None"
    using inv_in_step [OF runningD(1), of tid A s] by (auto simp: conn_host_def loop_in_step_def split: option.splits)
next
  fix s :: "('a, 'b) world" and p epoll_wait chans p' active now
  assume ok: "run_env K app A \<and> running tid A s" and p: "el_poller (h_loop (conn_host K app tid) s) = Some p"
    and e: "Epollpoller_poll epoll_wait (h_chan (conn_host K app tid) s) p [] = (chans, p', active)"
  obtain r where r: "chans (co_id (w_conn s)) = (co_channel (w_conn s))\<lparr>ch_revents := r\<rparr>"
    using poll_revents(1) [OF e, of "co_id (w_conn s)"] by (auto simp: conn_host_def)
  from running_revents [of tid A s r] ok have
    "running tid A (s\<lparr>w_conn := (w_conn s)\<lparr>co_channel := chans (co_id (w_conn s))\<rparr>\<rparr>)" by (simp add: r)
  from running_loop [OF this] show "run_env K app A \<and> running tid A
      (h_upd (conn_host K app tid) (\<lambda>l. l\<lparr>el_poller := Some p', el_active := active, el_pollTime := now\<rparr>)
        (h_chans (conn_host K app tid) chans s))"
    using ok p poll_revents(2) [OF e] by (simp add: conn_host_def running_def own_thread_def)
next
  fix s :: "('a, 'b) world" and f
  assume "run_env K app A \<and> running tid A s" "f \<in> set (el_pending (h_loop (conn_host K app tid) s))"
  then show "own_task f" by (auto simp: conn_host_def running_def own_thread_def)
next
  fix s :: "('a, 'b) world" and f cb t
  assume ok: "run_env K app A \<and> running tid A s"
  then have k: "run_env K app A" "running tid A s" by blast+
  show "own_task f \<Longrightarrow> sound defined_fault (\<lambda>s. run_env K app A \<and> running tid A s) (h_functor (conn_host K app tid) f s)"
    using task_sound [OF k] k(1) by (auto simp: conn_host_def intro: sound_mono)
  show "sound defined_fault (\<lambda>s. run_env K app A \<and> running tid A s) (h_callback (conn_host K app tid) cb s)"
    using callback_run_sound [OF k] k(1) by (auto simp: conn_host_def intro: sound_mono)
  show "sound defined_fault (\<lambda>s. run_env K app A \<and> running tid A s) (h_readback (conn_host K app tid) cb t s)"
    using readback_run_sound [OF k] k(1) by (auto simp: conn_host_def intro: sound_mono)
qed

end
