(* ===== verification/Connection_Apart.thy ===== *)
theory Connection_Apart
  imports Connection_Run
begin

text \<open>
  Several connections on one loop: what the handlers, functors and calls of a connection
  (\<open>src/net/Connection.cc\<close>) do to the loop they share with others. They change the poller's interest
  in their own descriptor only and add functors behind those queued, so that the invariant of every
  other connection on the loop survives.
\<close>

section \<open>What a connection leaves alone\<close>

text \<open>The kernel's entry for a descriptor: its events and the channel they are reported to.\<close>

definition loop_entry :: "('f, 'cb) evloop \<Rightarrow> int \<Rightarrow> (flags \<times> nat) option" where
  "loop_entry l fd = (case el_poller l of None \<Rightarrow> None | Some p \<Rightarrow> interest p fd)"

text \<open>
  The connection of number \<open>me\<close>, on descriptor \<open>f\<close>, whose loop, on thread \<open>tid\<close>, has the entries
  \<open>W\<close> for other descriptors and the functors \<open>P\<close> at the front of its queue.
\<close>

definition apart :: "nat \<Rightarrow> int \<Rightarrow> nat \<Rightarrow> (int \<Rightarrow> (flags \<times> nat) option) \<Rightarrow> 'a conn_task list \<Rightarrow> ('a, 'u) world \<Rightarrow> bool"
  where
  "apart me f tid W P s \<longleftrightarrow> co_id (w_conn s) = me \<and> ch_fd (co_channel (w_conn s)) = f \<and> el_thread (w_loop s) = tid \<and>
     el_poller (w_loop s) \<noteq> None \<and> (\<forall>fd. fd \<noteq> f \<longrightarrow> loop_entry (w_loop s) fd = W fd) \<and>
     (\<exists>fs. el_pending (w_loop s) = P @ fs)"

abbreviation keeps :: "('s \<Rightarrow> bool) \<Rightarrow> 's result \<Rightarrow> bool" where
  "keeps \<equiv> sound (\<lambda>_. True)"

lemma keeps_rbind: "keeps ok m \<Longrightarrow> (\<And>s. ok s \<Longrightarrow> keeps ok' (f s)) \<Longrightarrow> keeps ok' (rbind m f)"
  by (rule sound_rbind)

lemma keeps_any: "keeps (\<lambda>_. True) r"
  by (cases r) simp_all

lemma keepsD: "keeps ok r \<Longrightarrow> r = Inr s \<Longrightarrow> ok s"
  by simp

lemma apart_frame:
  "apart me f tid W P s \<Longrightarrow> ch_fd (co_channel (w_conn t)) = ch_fd (co_channel (w_conn s)) \<Longrightarrow>
     co_id (w_conn t) = co_id (w_conn s) \<Longrightarrow> w_loop t = w_loop s \<Longrightarrow> apart me f tid W P t"
  by (simp add: apart_def)

lemma apart_queue: "apart me f tid W P s \<Longrightarrow> apart me f tid W P (queue_task K tid' g s)"
  by (auto simp: apart_def queue_task_def loop_entry_def)

lemma update_entry:
  assumes "epoll_ctl_doc (fst k)" and "Epollpoller_updateChannel k ch p = Inr (ch', p')"
  shows "fd \<noteq> ch_fd ch \<Longrightarrow> interest p' fd = interest p fd" and "ch_fd ch' = ch_fd ch"
  using assms
  by (cases k; auto simp: Epollpoller_updateChannel_def Epollpoller_update_def Let_def rbind_Inr_iff
      dest: epoll_ctl_docD split: sum.splits if_splits)+

lemma on_channel_apart:
  assumes "sets_events op g" and doc: "epoll_ctl_doc (kn_ctl K)" and s: "apart me f tid W P s"
  shows "keeps (apart me f tid W P) (on_channel op K s)"
proof (rule soundI)
  fix t assume "on_channel op K s = Inr t"
  then obtain ch l where u: "EventLoop_updateChannel (kn_ctl K, co_id (w_conn s))
      ((co_channel (w_conn s))\<lparr>ch_events := g (ch_events (co_channel (w_conn s)))\<rparr>) (w_loop s) = Inr (ch, l)"
    and t: "t = s\<lparr>w_conn := (w_conn s)\<lparr>co_channel := ch\<rparr>, w_loop := l\<rparr>"
    by (auto simp: on_channel_def assms(1) [unfolded sets_events_def, rule_format] rbind_Inr_iff)
  from u obtain p p' where p: "el_poller (w_loop s) = Some p" "l = (w_loop s)\<lparr>el_poller := Some p'\<rparr>"
    and up: "Epollpoller_updateChannel (kn_ctl K, co_id (w_conn s))
      ((co_channel (w_conn s))\<lparr>ch_events := g (ch_events (co_channel (w_conn s)))\<rparr>) p = Inr (ch, p')"
    by (rule loop_updateE)
  from update_entry [OF _ up] doc s show "apart me f tid W P t"
    by (simp add: apart_def t p loop_entry_def)
qed simp

lemma remove_apart:
  assumes doc: "epoll_ctl_doc (kn_ctl K)" and s: "apart me f tid W P s"
  shows "keeps (apart me f tid W P) (channel_remove K s)"
proof (rule soundI)
  fix t assume "channel_remove K s = Inr t"
  then obtain ch p p' where r: "Epollpoller_removeChannel (kn_ctl K, co_id (w_conn s)) (co_channel (w_conn s)) p = Inr (ch, p')"
    and p: "el_poller (w_loop s) = Some p"
    and t: "t = s\<lparr>w_conn := (w_conn s)\<lparr>co_channel := ch\<rparr>, w_loop := (w_loop s)\<lparr>el_poller := Some p'\<rparr>\<rparr>"
    by (auto simp: channel_remove_def EventLoop_removeChannel_def rbind_Inr_iff split: option.splits)
  let ?k = "(kn_ctl K, co_id (w_conn s))" and ?p = "p\<lparr>channels := (channels p)(ch_fd (co_channel (w_conn s)) := None)\<rparr>"
  from r obtain c1 p1 where 1: "Epollpoller_updateChannel ?k ((co_channel (w_conn s))\<lparr>ch_events := 0\<rparr>) ?p = Inr (c1, p1)"
    and 2: "(if ch_index c1 = kAdded then Epollpoller_updateChannel ?k c1 p1 else Inr (c1, p1)) = Inr (ch, p')"
    by (auto simp: Epollpoller_removeChannel_def disableAll_def rbind_Inr_iff)
  have d: "epoll_ctl_doc (fst ?k)" using doc by simp
  have "ch_fd ch = ch_fd (co_channel (w_conn s)) \<and>
      (\<forall>fd. fd \<noteq> ch_fd (co_channel (w_conn s)) \<longrightarrow> interest p' fd = interest p fd)"
    using update_entry [OF d 1] 2 update_entry [OF d, of c1 p1 ch p'] by (auto split: if_splits)
  with s show "apart me f tid W P t" by (simp add: apart_def t p loop_entry_def)
qed simp

lemma apart_wakeup: "apart me f tid W P s \<Longrightarrow> apart me f tid W P (s\<lparr>w_loop := EventLoop_handleRead r (w_loop s)\<rparr>)"
  by (auto simp: apart_def EventLoop_handleRead_def loop_entry_def split: sum.split)

section \<open>The operations\<close>

text \<open>
  The interface between what a connection does and a property of the world around it: what survives
  the few ways a connection changes its loop and the string objects survives all its operations.
\<close>

locale conn_frame =
  fixes ok :: "('a, 'u) world \<Rightarrow> bool"
  assumes frame: "ok s \<Longrightarrow> ch_fd (co_channel (w_conn t)) = ch_fd (co_channel (w_conn s)) \<Longrightarrow>
      co_id (w_conn t) = co_id (w_conn s) \<Longrightarrow> w_loop t = w_loop s \<Longrightarrow> w_strings t = w_strings s \<Longrightarrow> ok t"
    and queue: "ok s \<Longrightarrow> ok (queue_task K tid' g s)"
    and on_channel_keeps: "sets_events op h \<Longrightarrow> epoll_ctl_doc (kn_ctl K) \<Longrightarrow> ok s \<Longrightarrow> keeps ok (on_channel op K s)"
    and remove_keeps: "epoll_ctl_doc (kn_ctl K) \<Longrightarrow> ok s \<Longrightarrow> keeps ok (channel_remove K s)"
    and new_string: "ok s \<Longrightarrow> length buf \<le> max_bytes \<Longrightarrow>
      ok (s\<lparr>w_strings := (w_strings s)(ptr \<mapsto> buf), w_next := n\<rparr>)"
    and free_string: "ok s \<Longrightarrow> ok (s\<lparr>w_strings := (w_strings s)(ptr := None)\<rparr>)"
    and wakeup_keeps: "ok s \<Longrightarrow> ok (s\<lparr>w_loop := EventLoop_handleRead r (w_loop s)\<rparr>)"
begin

lemma direct_write_keeps:
  assumes "ok s" and "direct_write K tid' data len s = (n, remaining, fe, s1)"
  shows "ok s1"
proof -
  have "ok (s\<lparr>w_wire := w\<rparr>)" for w by (rule frame [OF assms(1)]) simp_all
  with assms queue show ?thesis
    by (auto simp: direct_write_def Let_def split: sum.splits option.splits if_splits)
qed

lemma mark_high_water_keeps: "ok s \<Longrightarrow> ok (mark_high_water K tid' n s)"
  by (auto simp: mark_high_water_def queue Let_def split: option.split)

lemma buffer_rest_keeps:
  assumes "kernel_doc K" and "ok s"
  shows "keeps ok (buffer_rest K tid' rest remaining s)"
proof -
  have 1: "ok (mark_high_water K tid' remaining s)" by (rule mark_high_water_keeps [OF assms(2)])
  have 2: "ok (u\<lparr>w_conn := (w_conn u)\<lparr>OutputBuffer := b\<rparr>\<rparr>)" if "ok u" for u :: "('a, 'u) world" and b
    by (rule frame [OF that]) simp_all
  show ?thesis
    unfolding buffer_rest_def Let_def
    by (rule keeps_rbind [OF keeps_any])
      (use 2 [OF 1] on_channel_keeps [OF sets_events_ops(2) kernel_docD(1) [OF assms(1)] 2 [OF 1]] in \<open>simp\<close>)
qed

lemma sendInLoop_keeps:
  assumes K: "kernel_doc K" and s: "ok s"
  shows "keeps ok (sendInLoop K tid' data len s)"
proof -
  obtain n remaining fe s1 where d: "(if \<not> isWriting (co_channel (w_conn s)) \<and>
      readableBytes (OutputBuffer (w_conn s)) = 0
      then direct_write K tid' data len s else (0, len, False, s)) = (n, remaining, fe, s1)"
    by (metis prod_cases4)
  have 1: "ok s1" using d direct_write_keeps [OF s] s by (auto split: if_splits)
  have 2: "ok (s1\<lparr>w_accepted := w_accepted s1 @ take (unat len) data\<rparr>)"
    by (rule frame [OF 1]) simp_all
  note 3 = buffer_rest_keeps [OF K 2, of tid' "drop n data" remaining]
  from 1 2 3 d s show ?thesis
    by (cases fe) (simp_all add: sendInLoop_def Let_def cong: if_cong)
qed

lemma send_keeps:
  assumes "kernel_doc K" and "ok s"
  shows "keeps ok (Connection_send K tid' ptr s)"
  using sendInLoop_keeps [OF assms] queue [OF assms(2)] assms(2)
  by (simp add: Connection_send_def run_or_queue_def split: option.split)

lemma send_chars_keeps:
  assumes "kernel_doc K" and "ok s"
  shows "keeps ok (Connection_send_chars K tid' data len s)"
proof -
  have "nat (sint len) \<le> 9223372036854775807" using sint_lt [of len] by simp
  then have "length (take (nat (sint len)) data) \<le> max_bytes"
    unfolding length_take max_bytes_val by (rule order_trans [OF min.cobounded2])
  from send_keeps [OF assms(1) new_string [OF assms(2) this]] show ?thesis
    by (auto simp: Connection_send_chars_def Let_def free_string intro!: keeps_rbind [where ok = ok])
qed

lemma shutdownInLoop_keeps: "ok s \<Longrightarrow> ok (shutdownInLoop K s)"
  using frame [of s "s\<lparr>w_conn := (w_conn s)\<lparr>co_sock := x\<rparr>\<rparr>" for x] by (simp add: shutdownInLoop_def)

lemma setState_keeps: "ok s \<Longrightarrow> ok (setState st s)"
  by (rule frame) (simp_all add: setState_def)

lemma shutdown_keeps:
  "ok s \<Longrightarrow> keeps ok (Connection_shutdown K tid' s)"
  by (simp add: Connection_shutdown_def run_or_queue_def setState_keeps shutdownInLoop_keeps queue)

lemma api_keeps:
  fixes s :: "('a, 'u) world"
  assumes K: "kernel_doc K"
  shows "ok s \<Longrightarrow> keeps ok (run_api K tid' calls s)"
proof (induction calls arbitrary: s)
  case (Cons call calls)
  note rest = keeps_rbind [OF _ Cons.IH]
  have input: "ok (s\<lparr>w_conn := (w_conn s)\<lparr>InputBuffer := b\<rparr>\<rparr>)" for b
    by (rule frame [OF Cons.prems]) simp_all
  show ?case
    by (cases call)
      (simp_all add: rest [OF send_keeps [OF K Cons.prems]] rest [OF send_chars_keeps [OF K Cons.prems]]
        rest [OF shutdown_keeps [OF Cons.prems]] Cons.IH [OF input])
qed simp

lemma user_keeps:
  assumes "kernel_doc K" and "ok s"
  shows "keeps ok (call_user K app tid' cb ev s)"
proof (cases cb)
  case (Some c)
  have "ok (s\<lparr>w_app := u\<rparr>)" for u by (rule frame [OF assms(2)]) simp_all
  with Some show ?thesis by (simp add: call_user_def api_keeps [OF assms(1)] split: prod.split)
qed (simp add: call_user_def)

lemma close_keeps:
  assumes K: "kernel_doc K" and s: "ok s"
  shows "keeps ok (handleClose K app tid' s)"
  unfolding handleClose_def
  by (intro keeps_rbind [OF on_channel_keeps [OF sets_events_ops(4) kernel_docD(1) [OF K]]]
      keeps_rbind [OF user_keeps [OF K]] user_keeps [OF K]) (simp_all add: setState_keeps s)

lemma error_keeps: "ok s \<Longrightarrow> ok (handleError K s)"
  by (rule frame) (simp_all add: handleError_def Let_def)

lemma read_keeps:
  assumes K: "kernel_doc K" and s: "ok s"
  shows "keeps ok (handleRead K app tid' time s)"
proof -
  have i: "ok (s\<lparr>w_conn := (w_conn s)\<lparr>InputBuffer := b\<rparr>\<rparr>)" for b
    by (rule frame [OF s]) simp_all
  show ?thesis
    unfolding handleRead_def
    by (rule keeps_rbind [OF keeps_any])
      (simp add: user_keeps [OF K i] close_keeps [OF K i] error_keeps [OF i] Let_def split: prod.split)
qed

lemma write_keeps:
  assumes K: "kernel_doc K" and s: "ok s"
  shows "keeps ok (handleWrite K tid' s)"
proof -
  let ?out = "OutputBuffer (w_conn s)"
  obtain n err where w: "writeFd (kn_write K (sk_shut_wr (co_sock (w_conn s))) (w_wire s)) ?out = (n, err)"
    by (metis surj_pair)
  let ?s1 = "s\<lparr>w_wire := w_wire s @ take (nat n) (contents ?out)\<rparr>"
  let ?s2 = "?s1\<lparr>w_conn := (w_conn ?s1)\<lparr>OutputBuffer := retrieve ?out (of_int n)\<rparr>\<rparr>"
  have 1: "ok ?s1" and 2: "ok ?s2" by (rule frame [OF s], simp_all)+
  have "keeps ok (rbind (on_channel disableWriting K ?s2) (\<lambda>s3.
      let s4 = (case cn_writeCompleteCallback (w_conn s3) of
              None \<Rightarrow> s3 | Some cb \<Rightarrow> queue_task K tid' (WriteComplete cb) s3)
       in if co_state (w_conn s4) = kDisconnecting then Inr (shutdownInLoop K s4) else Inr s4))"
    by (rule keeps_rbind [OF on_channel_keeps [OF sets_events_ops(3) kernel_docD(1) [OF K] 2]])
      (simp add: Let_def queue shutdownInLoop_keeps split: option.split)
  with w s 1 2 show ?thesis by (simp add: handleWrite_def Let_def cong: if_cong)
qed

lemma established_keeps:
  assumes K: "kernel_doc K" and s: "ok s"
  shows "keeps ok (connectEstablished K app tid' s)"
proof -
  let ?s = "(setState kConnected s)\<lparr>w_conn := (w_conn (setState kConnected s))
    \<lparr>co_channel := Channel_tie (co_id (w_conn (setState kConnected s))) (co_channel (w_conn (setState kConnected s)))\<rparr>\<rparr>"
  have "ok ?s" by (rule frame [OF s]) (simp_all add: setState_def Channel_tie_def)
  from keeps_rbind [OF on_channel_keeps [OF sets_events_ops(1) kernel_docD(1) [OF K] this] user_keeps [OF K]]
  show ?thesis by (simp add: connectEstablished_def Let_def)
qed

lemma destroyed_keeps:
  assumes K: "kernel_doc K" and s: "ok s"
  shows "keeps ok (connectDestroyed K app tid' s)"
proof -
  have "keeps ok (rbind (on_channel disableAll K (setState kDisconnected s)) (\<lambda>s1.
      call_user K app tid' (cn_connectionCallback (w_conn s1)) On_connection s1))"
    by (intro keeps_rbind [OF on_channel_keeps [OF sets_events_ops(4) kernel_docD(1) [OF K]]] user_keeps [OF K])
      (simp_all add: setState_keeps s)
  with s show ?thesis
    unfolding connectDestroyed_def
    by (intro keeps_rbind [OF _ remove_keeps [OF kernel_docD(1) [OF K]]]) simp_all
qed

lemma task_keeps:
  assumes K: "kernel_doc K" and s: "ok s"
  shows "keeps ok (run_task K app tid' g s)"
  by (cases g) (simp_all add: sendInLoop_keeps [OF K s] shutdownInLoop_keeps [OF s] user_keeps [OF K s]
      established_keeps [OF K s] destroyed_keeps [OF K s] split: option.split)

lemma callback_keeps:
  assumes K: "kernel_doc K" and s: "ok s"
  shows "keeps ok (run_callback K app tid' cb s)"
  by (cases cb) (simp_all add: wakeup_keeps [OF s] write_keeps [OF K s] close_keeps [OF K s] error_keeps [OF s])

lemma readback_keeps:
  "kernel_doc K \<Longrightarrow> ok s \<Longrightarrow> keeps ok (run_readback K app tid' cb time s)"
  by (simp add: run_readback_def read_keeps callback_keeps)

lemma dispatch_keeps:
  assumes K: "kernel_doc K" and s: "ok s" and t: "dispatch_event K app tid' time s = Inr t"
  shows "ok t"
proof -
  have run: "ok v" if "ok u" "run_callback K app tid' c u = Inr v" for c u v
    using callback_keeps [OF K that(1)] that(2) by (rule keepsD)
  have read: "ok v" if "ok u" "run_readback K app tid' c time u = Inr v" for c u v
    using readback_keeps [OF K that(1)] that(2) by (rule keepsD)
  have "ok t" if "handleEventWithGuard (run_callback K app tid') (run_readback K app tid')
      (\<lambda>s. co_channel (w_conn s)) time s = Inr t"
    by (rule handleEventWithGuard_keeps [where P = ok, OF run read s that])
  with s t show ?thesis
    by (auto simp: dispatch_event_def handleEvent_def conn_host_def split: if_splits option.splits)
qed

end

text \<open>Being apart is such a property, and so is that no string object is too long for a buffer.\<close>

interpretation ap: conn_frame "apart me f tid W P"
proof unfold_locales
  fix s t :: "('a, 'b) world"
  assume "apart me f tid W P s"
  then show "ch_fd (co_channel (w_conn t)) = ch_fd (co_channel (w_conn s)) \<Longrightarrow> co_id (w_conn t) = co_id (w_conn s) \<Longrightarrow>
      w_loop t = w_loop s \<Longrightarrow> apart me f tid W P t" by (simp add: apart_def)
qed (auto simp: apart_queue on_channel_apart remove_apart apart_wakeup, auto simp: apart_def)

definition short_strings :: "(nat \<Rightarrow> bytes option) \<Rightarrow> bool" where
  "short_strings m \<longleftrightarrow> (\<forall>ptr buf. m ptr = Some buf \<longrightarrow> length buf \<le> max_bytes)"

interpretation sh: conn_frame "\<lambda>s. short_strings (w_strings s)"
proof unfold_locales
  fix op g K and s :: "('a, 'b) world"
  assume "short_strings (w_strings s)"
  then show "keeps (\<lambda>s. short_strings (w_strings s)) (on_channel op K s)"
    by (intro soundI) (auto simp: on_channel_def rbind_Inr_iff)
qed (auto simp: short_strings_def channel_remove_def rbind_Inr_iff intro!: soundI)

section \<open>The other connections\<close>

text \<open>The invariant of a connection reads the loop through the entry of its own descriptor only.\<close>

lemma conn_inv_entry:
  assumes "conn_inv s" and "loop_entry l (ch_fd (co_channel (w_conn s))) =
      loop_entry (w_loop s) (ch_fd (co_channel (w_conn s)))" and "el_poller l \<noteq> None"
  shows "conn_inv (s\<lparr>w_loop := l\<rparr>)"
proof -
  let ?ch = "co_channel (w_conn s)"
  have "el_poller (w_loop s) \<noteq> None"
    using inv_in_step [OF assms(1)] by (auto simp: loop_in_step_def split: option.splits)
  then have "loop_in_step k ?ch l = loop_in_step k ?ch (w_loop s)" for k
    using assms(2,3) by (auto simp: loop_in_step_def in_step_def loop_entry_def)
  moreover have "loop_watched l (ch_fd ?ch) = map_option fst (loop_entry l (ch_fd ?ch))"
    "loop_watched (w_loop s) (ch_fd ?ch) = map_option fst (loop_entry (w_loop s) (ch_fd ?ch))"
    by (simp_all add: loop_watched_def watched_events_def loop_entry_def split: option.split)
  ultimately show ?thesis
    using assms(1,2) by (simp add: conn_inv_def stream_inv_def attached_inv_def mode_inv_def)
qed

section \<open>The states the server records\<close>

text \<open>
  A disconnected connection stays so, whatever its user calls: closing leaves it disconnected, and
  so does the destruction that follows. This is what \<open>TcpServer\<close> sees of these calls.
\<close>

abbreviation (input) down :: "('a, 'u) world \<Rightarrow> bool" where
  "down s \<equiv> co_state (w_conn s) = kDisconnected"

lemma on_channel_state: "keeps (\<lambda>t. co_state (w_conn t) = co_state (w_conn s)) (on_channel op K s)"
  by (rule soundI) (auto simp: on_channel_def rbind_Inr_iff)

lemma api_down:
  fixes s :: "('a, 'u) world"
  shows "down s \<Longrightarrow> keeps down (run_api K tid calls s)"
proof (induction calls arbitrary: s)
  case (Cons call calls)
  show ?case
    using Cons.prems Cons.IH
    by (cases call) (auto simp: Connection_send_def Connection_send_chars_def Connection_shutdown_def
        connected_def Let_def split: option.split)
qed simp

lemma user_down: "down s \<Longrightarrow> keeps down (call_user K app tid cb ev s)"
  by (auto simp: call_user_def api_down split: option.split prod.split)

lemma close_down: "keeps down (handleClose K app tid s)"
  unfolding handleClose_def
  by (intro keeps_rbind [OF on_channel_state] keeps_rbind [OF user_down] user_down)
    (simp_all add: setState_def)

lemma destroyed_down:
  assumes "down s"
  shows "keeps down (connectDestroyed K app tid s)"
  using assms by (auto simp: connectDestroyed_def channel_remove_def rbind_def split: sum.split)

section \<open>Properties\<close>

text \<open>
  Connections on one loop do not disturb each other: whatever a connection does, be it a functor
  of its loop, the handling of an event, or a call of its user from any thread, every other
  connection on the same loop keeps its whole invariant, the interest the kernel has in its
  descriptor included; and functors are only ever added behind those that are queued.
\<close>

theorem connections_apart:
  fixes s t :: "('a, 'u) world" and other :: "('a, 'v) world"
  assumes "kernel_doc K" and "conn_inv other" and "w_loop other = w_loop s"
    and "ch_fd (co_channel (w_conn other)) \<noteq> ch_fd (co_channel (w_conn s))"
    and "run_task K app tid g s = Inr t \<or> dispatch_event K app tid time s = Inr t \<or>
      Connection_send K tid ptr s = Inr t \<or> Connection_send_chars K tid data len s = Inr t \<or>
      Connection_shutdown K tid s = Inr t"
  shows "conn_inv (other\<lparr>w_loop := w_loop t\<rparr>) \<and>
    (\<exists>fs. el_pending (w_loop t) = el_pending (w_loop s) @ fs) \<and> el_thread (w_loop t) = el_thread (w_loop s)"
proof -
  let ?ok = "apart (co_id (w_conn s)) (ch_fd (co_channel (w_conn s))) (el_thread (w_loop s)) (loop_entry (w_loop s)) (el_pending (w_loop s))"
  have "el_poller (w_loop s) \<noteq> None"
    using inv_in_step [OF assms(2)] assms(3) by (auto simp: loop_in_step_def split: option.splits)
  then have s: "?ok s" by (simp add: apart_def)
  have "?ok t" using assms(5)
    by (elim disjE) (fact keepsD [OF ap.task_keeps [OF assms(1) s]] ap.dispatch_keeps [OF assms(1) s]
      keepsD [OF ap.send_keeps [OF assms(1) s]] keepsD [OF ap.send_chars_keeps [OF assms(1) s]]
      keepsD [OF ap.shutdown_keeps [OF s]])+
  with conn_inv_entry [OF assms(2), of "w_loop t"] assms(3,4) show ?thesis by (simp add: apart_def)
qed

theorem connections_apart_witness:
  "\<exists>(s :: (unit, unit) world) t (other :: (unit, unit) world). Connection_send demo_kernel 1 0 s = Inr t \<and>
    loop_watched (w_loop s) 7 = Some 3 \<and> loop_watched (w_loop t) 7 = Some 7 \<and> w_loop other = w_loop s \<and>
    ch_fd (co_channel (w_conn other)) = 9 \<and> conn_inv (other\<lparr>w_loop := w_loop t\<rparr>)"
proof -
  let ?s = "demo_up None"
  let ?other = "(demo_world None)\<lparr>w_conn := (demo_conn None)\<lparr>co_channel := demo_channel\<lparr>ch_fd := 9\<rparr>\<rparr>,
    w_loop := w_loop ?s\<rparr>"
  obtain b where send: "Connection_send demo_kernel 1 0 ?s = Inr (demo_after None b)"
    using demo_sent [of None] by blast
  have "conn_inv (demo_world None :: (unit, unit) world)" by (rule conn_init_inv [OF demo_init])
  then have inv: "conn_inv ?other"
    by (simp add: conn_inv_defs demo_world_def demo_conn_def demo_up_def demo_channel_def demo_loop_def
        loop_in_step_def in_step_def kNew_def isNoneEvent_def empty_poller_def)
  have fd: "ch_fd (co_channel (w_conn ?other)) \<noteq> ch_fd (co_channel (w_conn ?s))" "w_loop ?other = w_loop ?s"
    by (simp_all add: demo_up_def demo_world_def demo_conn_def demo_channel_def)
  have "loop_watched (w_loop ?s) 7 = Some 3" "loop_watched (w_loop (demo_after None b)) 7 = Some 7"
    by (simp_all add: demo_up_def demo_after_def demo_loop_def loop_watched_def watched_events_def)
  moreover have "conn_inv (?other\<lparr>w_loop := w_loop (demo_after None b)\<rparr>)"
    using connections_apart [OF demo_kernel_doc inv fd(2,1)] send by blast
  ultimately show ?thesis
    using send by (intro exI [of _ ?s] exI [of _ "demo_after None b"] exI [of _ ?other]) simp
qed

end
