(* ===== verification/Connection_Late.thy ===== *)
theory Connection_Late
  imports Connection_Apart
begin

text \<open>
  A connection that is closed while another thread is in the middle of \<open>shutdown\<close>
  (\<open>src/net/Connection.cc\<close>): that thread has found the state \<open>kConnected\<close> and stores
  \<open>kDisconnecting\<close> after \<open>handleClose\<close> has stored \<open>kDisconnected\<close>. The connection then counts as up,
  but nobody reads it any more, and its channel may even be registered again by a send. What is
  left of its promises is kept by all its operations.
\<close>

section \<open>What remains\<close>

definition late_base :: "('a, 'u) world \<Rightarrow> bool" where
  "late_base s \<longleftrightarrow> Buffer_inv (InputBuffer (w_conn s)) \<and> Buffer_inv (OutputBuffer (w_conn s)) \<and>
     short_strings (w_strings s) \<and>
     (\<forall>ctl. loop_in_step (ctl, co_id (w_conn s)) (co_channel (w_conn s)) (w_loop s)) \<and>
     \<not> isReading (co_channel (w_conn s)) \<and>
     (co_state (w_conn s) = kDisconnecting \<or> co_state (w_conn s) = kDisconnected)"

definition late_inv :: "('a, 'u) world \<Rightarrow> bool" where
  "late_inv s \<longleftrightarrow> late_base s \<and> w_wire s @ out_bytes s = w_accepted s"

lemma stream_base: "stream_inv s \<longleftrightarrow> Buffer_inv (InputBuffer (w_conn s)) \<and> Buffer_inv (OutputBuffer (w_conn s)) \<and>
     short_strings (w_strings s) \<and> w_wire s @ out_bytes s = w_accepted s"
  by (simp add: stream_inv_def short_strings_def)

text \<open>A connection as it should be, or closed under a late shutdown.\<close>

definition held_inv :: "('a, 'u) world \<Rightarrow> bool" where
  "held_inv s \<longleftrightarrow> conn_inv s \<or> late_inv s"

lemma late_not_connected [simp]:
  "late_inv s \<Longrightarrow> co_state (w_conn s) \<noteq> kConnected" "late_inv s \<Longrightarrow> co_state (w_conn s) \<noteq> kConnecting"
  by (auto simp: late_inv_def late_base_def)

text \<open>The late store itself, whatever has become of the connection that was up.\<close>

lemma late_store:
  assumes "held_inv s" and "co_state (w_conn s) \<noteq> kConnecting"
  shows "held_inv (setState kDisconnecting s)"
proof (cases "conn_inv s \<and> co_state (w_conn s) \<noteq> kDisconnected")
  case True
  then have up: "conn_up (co_state (w_conn s))" using assms(2) by (cases "co_state (w_conn s)") auto
  from True have "conn_inv (setState kDisconnecting s)"
    using up by (auto simp: setState_def conn_inv_def stream_inv_def attached_inv_def mode_inv_def Let_def)
  then show ?thesis by (simp add: held_inv_def)
next
  case False
  with assms(1) have "late_inv (setState kDisconnecting s)"
    by (auto simp: held_inv_def late_inv_def late_base_def conn_inv_def stream_base attached_inv_def
        mode_inv_def setState_def isNoneEvent_def isReading_def Let_def)
  then show ?thesis by (simp add: held_inv_def)
qed

text \<open>What it does not read may change.\<close>

lemma late_base_frame:
  assumes "late_base s" and "InputBuffer (w_conn t) = InputBuffer (w_conn s)"
    and "OutputBuffer (w_conn t) = OutputBuffer (w_conn s)" and "w_strings t = w_strings s"
    and "co_id (w_conn t) = co_id (w_conn s)" and "co_channel (w_conn t) = co_channel (w_conn s)"
    and "co_state (w_conn t) = co_state (w_conn s)" and "el_poller (w_loop t) = el_poller (w_loop s)"
  shows "late_base t"
  using assms(1) loop_in_step_frame(1) [OF assms(8)] by (simp add: late_base_def assms(2-7))

lemma late_frame:
  assumes "late_inv s" and "InputBuffer (w_conn t) = InputBuffer (w_conn s)"
    and "OutputBuffer (w_conn t) = OutputBuffer (w_conn s)" and "w_strings t = w_strings s"
    and "co_id (w_conn t) = co_id (w_conn s)" and "co_channel (w_conn t) = co_channel (w_conn s)"
    and "co_state (w_conn t) = co_state (w_conn s)" and "el_poller (w_loop t) = el_poller (w_loop s)"
    and "w_wire t = w_wire s" and "w_accepted t = w_accepted s"
  shows "late_inv t"
  using assms(1) late_base_frame [OF _ assms(2-8)] by (simp add: late_inv_def assms(3,9,10))

lemma late_queue: "late_inv s \<Longrightarrow> late_inv (queue_task K tid f s)"
  by (erule late_frame) simp_all

lemma late_channel:
  assumes "late_inv s" and "sets_events op g" and "kernel_doc K"
    and noread: "\<And>(ch :: conn_cb channel) ch' :: conn_cb channel. ch_events ch' = g (ch_events ch) \<Longrightarrow> isReading ch' \<Longrightarrow> isReading ch"
  shows "keeps late_inv (on_channel op K s)"
proof (rule soundI)
  fix t assume on: "on_channel op K s = Inr t"
  have st: "\<forall>ctl. loop_in_step (ctl, co_id (w_conn s)) (co_channel (w_conn s)) (w_loop s)"
    and nr: "\<not> isReading (co_channel (w_conn s))"
    using assms(1) by (simp_all add: late_inv_def late_base_def)
  obtain ch l where t: "t = s\<lparr>w_conn := (w_conn s)\<lparr>co_channel := ch\<rparr>, w_loop := l\<rparr>"
    and ev: "ch_events ch = g (ch_events (co_channel (w_conn s)))"
    and st': "\<forall>ctl. loop_in_step (ctl, co_id (w_conn s)) ch l"
    by (rule on_channelE [OF on assms(2) kernel_docD(1) [OF assms(3)] st])
  have "\<not> isReading ch" using noread ev nr by blast
  with st' assms(1) show "late_inv t" by (simp add: t late_inv_def late_base_def)
qed simp

lemma late_channel_ops:
  assumes "late_inv s" and "kernel_doc K"
  shows "keeps late_inv (on_channel enableWriting K s)" "keeps late_inv (on_channel disableWriting K s)"
    "keeps late_inv (on_channel disableAll K s)"
proof -
  show "keeps late_inv (on_channel enableWriting K s)"
    by (rule late_channel [OF assms(1) sets_events_ops(2) assms(2)]) (use mask_effects(2) in blast)
  show "keeps late_inv (on_channel disableWriting K s)"
    by (rule late_channel [OF assms(1) sets_events_ops(3) assms(2)]) (use mask_effects(4) in blast)
  show "keeps late_inv (on_channel disableAll K s)"
    by (rule late_channel [OF assms(1) sets_events_ops(4) assms(2)]) (simp add: isReading_def)
qed

lemma late_shutdown: "late_inv s \<Longrightarrow> late_inv (shutdownInLoop K s)"
  by (erule late_frame) (simp_all add: shutdownInLoop_def)

section \<open>Sending\<close>

lemma late_rest:
  assumes K: "kernel_doc K" and late: "late_base u" and len: "unat m \<le> length d" "length d \<le> max_bytes"
    and acc: "w_wire u @ out_bytes u @ take (unat m) d = w_accepted u"
  shows "keeps late_inv (buffer_rest K tid d m u)"
proof (rule soundI)
  fix t assume run: "buffer_rest K tid d m u = Inr t"
  let ?v = "mark_high_water K tid m u"
  obtain b where b: "Buffer_append (OutputBuffer (w_conn u)) d m = Inr b"
    and t: "(if \<not> isWriting (co_channel (w_conn u))
      then on_channel enableWriting K (?v\<lparr>w_conn := (w_conn u)\<lparr>OutputBuffer := b\<rparr>\<rparr>)
      else Inr (?v\<lparr>w_conn := (w_conn u)\<lparr>OutputBuffer := b\<rparr>\<rparr>)) = Inr t"
    using run by (auto simp: buffer_rest_def mark_high_water_simps Let_def rbind_Inr_iff cong: if_cong)
  have "m \<le> vector_max" using len by (simp add: word_le_nat_alt max_bytes_val)
  moreover have bi: "Buffer_inv (OutputBuffer (w_conn u))" using late by (simp add: late_base_def)
  ultimately have bc: "Buffer_inv b" "contents b = out_bytes u @ take (unat m) d"
    using append_post [OF _ _ len(1) b] by auto
  have "late_inv (?v\<lparr>w_conn := (w_conn u)\<lparr>OutputBuffer := b\<rparr>\<rparr>)"
    using late bc acc by (simp add: late_inv_def late_base_def)
  with t late_channel_ops(1) [OF this K] show "late_inv t" by (auto split: if_splits)
qed simp

lemma late_send:
  assumes K: "kernel_doc K" and late: "late_inv s" and len: "length data \<le> max_bytes"
  shows "keeps late_inv (sendInLoop K tid data len s)"
proof (cases "co_state (w_conn s) = kDisconnected \<or> length data < unat len")
  case True
  with late show ?thesis by (auto simp: sendInLoop_def)
next
  case False
  then have le: "unat len \<le> length data" by simp
  obtain n m fe s1 where d: "(if \<not> isWriting (co_channel (w_conn s)) \<and> readableBytes (OutputBuffer (w_conn s)) = 0
      then direct_write K tid data len s else (0, len, False, s)) = (n, m, fe, s1)"
    by (metis prod_cases4)
  have base: "late_base s" and acc: "w_wire s @ out_bytes s = w_accepted s"
    using late by (simp_all add: late_inv_def)
  have bi: "Buffer_inv (OutputBuffer (w_conn s))" using base by (simp add: late_base_def)
  have s1: "n \<le> unat len \<and> unat m = unat len - n \<and> (fe \<longrightarrow> n = 0) \<and>
      w_wire s1 @ out_bytes s = w_accepted s @ take n data \<and>
      (n \<noteq> 0 \<longrightarrow> out_bytes s = []) \<and>
      w_conn s1 = w_conn s \<and> w_accepted s1 = w_accepted s \<and> w_strings s1 = w_strings s \<and>
      el_poller (w_loop s1) = el_poller (w_loop s)"
  proof (cases "\<not> isWriting (co_channel (w_conn s)) \<and> readableBytes (OutputBuffer (w_conn s)) = 0")
    case True
    with d have "direct_write K tid data len s = (n, m, fe, s1)" by simp
    from direct_write_post [OF K le this] True acc readable_eq_0_iff [OF bi] show ?thesis by auto
  qed (use d acc in auto)
  have base1: "late_base s1" by (rule late_base_frame [OF base]) (use s1 in simp_all)
  let ?u = "if fe then s1 else s1\<lparr>w_accepted := w_accepted s1 @ take (unat len) data\<rparr>"
  have run: "sendInLoop K tid data len s =
      (if \<not> fe \<and> 0 < m then buffer_rest K tid (drop n data) m ?u else Inr ?u)"
    using False d by (simp add: sendInLoop_def cong: if_cong)
  have baseu: "late_base ?u" by (rule late_base_frame [OF base1]) simp_all
  show ?thesis
  proof (cases "\<not> fe \<and> 0 < m")
    case True
    have "take (unat len) data = take n data @ take (unat m) (drop n data)"
      using s1 by (metis le_add_diff_inverse take_add)
    then have "w_wire ?u @ out_bytes ?u @ take (unat m) (drop n data) = w_accepted ?u"
      using s1 True acc by (cases "n = 0") auto
    with True run late_rest [OF K baseu _ _ this] s1 le len show ?thesis by simp
  next
    case False
    then have "fe \<or> n = unat len" using s1 by (auto simp: word_less_nat_alt)
    then have "late_inv ?u" using baseu s1 by (auto simp: late_inv_def)
    moreover have "sendInLoop K tid data len s = Inr ?u" using run by (simp only: False if_False)
    ultimately show ?thesis by (simp only: sound_simps)
  qed
qed

section \<open>The user's calls\<close>

lemma late_strings:
  assumes "late_inv s" and "short_strings m"
  shows "late_inv (s\<lparr>w_strings := m, w_next := n\<rparr>)"
  using assms by (simp add: late_inv_def late_base_def)

lemma late_short: "late_inv s \<Longrightarrow> short_strings (w_strings s)"
  by (simp add: late_inv_def late_base_def)

lemma late_input:
  "late_inv s \<Longrightarrow> Buffer_inv b \<Longrightarrow> late_inv (s\<lparr>w_conn := (w_conn s)\<lparr>InputBuffer := b\<rparr>\<rparr>)"
  by (simp add: late_inv_def late_base_def)

text \<open>The user's sends and shutdowns find the state and do nothing.\<close>

lemma late_calls:
  assumes late: "late_inv s"
  shows "keeps late_inv (Connection_send K tid ptr s)" "keeps late_inv (Connection_shutdown K tid s)"
    "keeps late_inv (Connection_send_chars K tid data len s)"
proof -
  have send: "keeps late_inv (Connection_send K tid ptr u)" if "late_inv u" for u :: "('a, 'b) world" and ptr
    using that by (simp add: Connection_send_def connected_def split: option.split)
  show "keeps late_inv (Connection_send K tid ptr s)" by (rule send [OF late])
  show "keeps late_inv (Connection_shutdown K tid s)" using late by (simp add: Connection_shutdown_def)
  have "nat (sint len) \<le> 9223372036854775807" using sint_lt [of len] by simp
  then have "length (take (nat (sint len)) data) \<le> max_bytes"
    unfolding length_take max_bytes_val by (rule order_trans [OF min.cobounded2])
  then have "short_strings ((w_strings s)(w_next s \<mapsto> take (nat (sint len)) data))"
    using late_short [OF late] by (simp add: short_strings_def)
  note made = late_strings [OF late this]
  have free: "late_inv (u\<lparr>w_strings := (w_strings u)(p := None)\<rparr>)" if "late_inv u" for u :: "('a, 'b) world" and p
    using that by (simp add: late_inv_def late_base_def short_strings_def)
  show "keeps late_inv (Connection_send_chars K tid data len s)"
    by (auto simp: Connection_send_chars_def Let_def free intro!: keeps_rbind [OF send [OF made]])
qed

lemma late_api:
  fixes s :: "('a, 'u) world"
  shows "late_inv s \<Longrightarrow> keeps late_inv (run_api K tid calls s)"
proof (induction calls arbitrary: s)
  case (Cons call calls)
  note rest = keeps_rbind [OF _ Cons.IH] and c = late_calls [OF Cons.prems]
  have "Buffer_inv (InputBuffer (w_conn s))" using Cons.prems by (simp add: late_inv_def late_base_def)
  then have "Buffer_inv (retrieve (InputBuffer (w_conn s)) n)" "Buffer_inv (retrieveAll (InputBuffer (w_conn s)))" for n
    using retrieve_post retrieveAll_post(1) by blast+
  note input = this [THEN late_input [OF Cons.prems]]
  show ?case
    by (cases call) (simp_all add: rest [OF c(1)] rest [OF c(2)] rest [OF c(3)] Cons.IH [OF input(1)] Cons.IH [OF input(2)])
qed simp

lemma late_user:
  assumes "late_inv s"
  shows "keeps late_inv (call_user K app tid cb ev s)"
proof (cases cb)
  case (Some c)
  have "late_inv (s\<lparr>w_app := u\<rparr>)" for u by (rule late_frame [OF assms]) simp_all
  with Some show ?thesis by (simp add: call_user_def late_api split: prod.split)
qed (simp add: call_user_def)

section \<open>Handlers and functors\<close>

lemma late_close:
  assumes K: "kernel_doc K" and "late_inv s"
  shows "keeps late_inv (handleClose K app tid s)"
proof -
  have "late_inv (setState kDisconnected s)" using assms(2) by (simp add: setState_def late_inv_def late_base_def)
  then show ?thesis
    unfolding handleClose_def by (intro keeps_rbind [OF late_channel_ops(3) [OF _ K]] keeps_rbind [OF late_user] late_user)
qed

lemma late_error: "late_inv s \<Longrightarrow> late_inv (handleError K s)"
  by (erule late_frame) (simp_all add: handleError_def Let_def)

lemma late_read:
  assumes K: "kernel_doc K" and late: "late_inv s"
  shows "keeps late_inv (handleRead K app tid time s)"
  unfolding handleRead_def
proof (rule keeps_rbind [where ok = "\<lambda>(n, err, b). Buffer_inv b"])
  have "Buffer_inv (InputBuffer (w_conn s))" using late by (simp add: late_inv_def late_base_def)
  from readFd_inv [OF this kernel_docD(2) [OF K]]
  show "keeps (\<lambda>(n, err, b). Buffer_inv b) (readFd (kn_readv K) (InputBuffer (w_conn s)))"
    by (intro soundI) auto
next
  fix x :: "int \<times> errno option \<times> Buffer"
  assume "case x of (n, err, b) \<Rightarrow> Buffer_inv b"
  then obtain n err b where x: "x = (n, err, b)" and b: "Buffer_inv b" by (cases x) auto
  note i = late_input [OF late b]
  show "keeps late_inv (case x of (n, savedErrno, b) \<Rightarrow>
      let s1 = s\<lparr>w_conn := (w_conn s)\<lparr>InputBuffer := b\<rparr>\<rparr>
      in if n > 0 then call_user K app tid (cn_messageCallback (w_conn s1)) (On_message time) s1
         else if n = 0 then handleClose K app tid s1 else Inr (handleError K s1))"
    using late_user [OF i] late_close [OF K i] late_error [OF i] by (simp add: x Let_def)
qed

lemma late_write:
  assumes K: "kernel_doc K" and late: "late_inv s"
  shows "keeps late_inv (handleWrite K tid s)"
proof (cases "isWriting (co_channel (w_conn s))")
  case False
  with late show ?thesis by (simp add: handleWrite_def)
next
  case True
  let ?out = "OutputBuffer (w_conn s)"
  have bi: "Buffer_inv ?out" and acc: "w_wire s @ contents ?out = w_accepted s"
    using late by (simp_all add: late_inv_def late_base_def)
  show ?thesis
  proof (cases "kn_write K (sk_shut_wr (co_sock (w_conn s))) (w_wire s) (contents ?out)")
    case (Inl e)
    with True late show ?thesis by (simp add: handleWrite_def writeFd_def Let_def)
  next
    case (Inr n)
    have n: "n \<le> length (contents ?out)" using K Inr by (auto simp: kernel_doc_def)
    have "length (contents ?out) < 2 ^ 64" by (simp only: length_contents [OF bi] unat_size_less)
    with n have un: "unat (of_nat n :: size_t) = n" by (intro unat_of_nat_size) linarith
    from retrieve_post [OF bi, of "of_nat n"] un
    have rb: "Buffer_inv (retrieve ?out (of_nat n))" "contents (retrieve ?out (of_nat n)) = drop n (contents ?out)"
      by auto
    let ?s2 = "s\<lparr>w_wire := w_wire s @ take n (contents ?out),
      w_conn := (w_conn s)\<lparr>OutputBuffer := retrieve ?out (of_nat n)\<rparr>\<rparr>"
    have 2: "late_inv ?s2" using late rb acc by (simp add: late_inv_def late_base_def)
    have fin: "keeps late_inv (let s4 = (case cn_writeCompleteCallback (w_conn s3) of
                 None \<Rightarrow> s3 | Some cb \<Rightarrow> queue_task K tid (WriteComplete cb) s3)
            in if co_state (w_conn s4) = kDisconnecting then Inr (shutdownInLoop K s4) else Inr s4)"
      if "late_inv s3" for s3 :: "('a, 'b) world"
      using that by (simp add: Let_def late_shutdown late_queue split: option.split)
    have "keeps late_inv (rbind (on_channel disableWriting K ?s2) (\<lambda>s3.
            let s4 = (case cn_writeCompleteCallback (w_conn s3) of
                 None \<Rightarrow> s3 | Some cb \<Rightarrow> queue_task K tid (WriteComplete cb) s3)
            in if co_state (w_conn s4) = kDisconnecting then Inr (shutdownInLoop K s4) else Inr s4))"
      by (rule keeps_rbind [OF late_channel_ops(2) [OF 2 K]]) (rule fin)
    with 2 late show ?thesis
      unfolding handleWrite_eq [OF True Inr rb(1)] Let_def by (simp split: if_split)
  qed
qed

lemma late_task:
  assumes K: "kernel_doc K" and late: "late_inv s" and f: "life_task f"
  shows "keeps late_inv (run_task K app tid f s)"
proof (cases f)
  case (SendInLoop ptr len)
  show ?thesis
  proof (cases "w_strings s ptr")
    case (Some data)
    with late_short [OF late] have "length data \<le> max_bytes" by (auto simp: short_strings_def)
    with late_send [OF K late this] Some SendInLoop show ?thesis by simp
  qed (simp add: SendInLoop)
qed (use f late_shutdown [OF late] late_user [OF late] in \<open>auto simp: life_task_def\<close>)

lemma late_callback:
  assumes K: "kernel_doc K" and late: "late_inv s"
  shows "keeps late_inv (run_callback K app tid cb s)"
proof (cases cb)
  case Loop_handleRead
  have "late_inv (s\<lparr>w_loop := EventLoop_handleRead r (w_loop s)\<rparr>)" for r
    by (rule late_frame [OF late]) (auto simp: EventLoop_handleRead_def split: sum.split)
  with Loop_handleRead show ?thesis by simp
qed (use late_write [OF K late] late_close [OF K late] late_error [OF late] in auto)

lemma late_readback:
  "kernel_doc K \<Longrightarrow> late_inv s \<Longrightarrow> keeps late_inv (run_readback K app tid cb time s)"
  by (simp add: run_readback_def late_read late_callback)

lemma late_revents: "late_inv s \<Longrightarrow>
    late_inv (s\<lparr>w_conn := (w_conn s)\<lparr>co_channel := (co_channel (w_conn s))\<lparr>ch_revents := r\<rparr>\<rparr>\<rparr>)"
  by (simp add: late_inv_def late_base_def isReading_def)

lemma late_dispatch:
  assumes K: "kernel_doc K" and late: "late_inv s" and t: "dispatch_event K app tid time s = Inr t"
  shows "late_inv t"
proof -
  have "late_inv t" if "handleEventWithGuard (run_callback K app tid) (run_readback K app tid)
      (\<lambda>s. co_channel (w_conn s)) time s = Inr t"
    by (rule handleEventWithGuard_keeps [where P = late_inv, OF _ _ late that])
      (blast intro: keepsD [OF late_callback [OF K]] keepsD [OF late_readback [OF K]])+
  with late t show ?thesis
    by (auto simp: dispatch_event_def handleEvent_def conn_host_def split: if_splits option.splits)
qed

text \<open>The kernel's entry of its own descriptor is all it reads of the loop.\<close>

lemma late_entry:
  assumes "late_inv s" and "loop_entry l (ch_fd (co_channel (w_conn s))) =
      loop_entry (w_loop s) (ch_fd (co_channel (w_conn s)))" and "el_poller l \<noteq> None"
  shows "late_inv (s\<lparr>w_loop := l\<rparr>)"
proof -
  have "el_poller (w_loop s) \<noteq> None"
    using assms(1) by (auto simp: late_inv_def late_base_def loop_in_step_def split: option.splits)
  then have "loop_in_step k (co_channel (w_conn s)) l = loop_in_step k (co_channel (w_conn s)) (w_loop s)" for k
    using assms(2,3) by (auto simp: loop_in_step_def in_step_def loop_entry_def)
  with assms(1) show ?thesis by (simp add: late_inv_def late_base_def)
qed

end
