(* ===== verification/Shared_Loop.thy ===== *)
theory Shared_Loop
  imports Connection_Late
begin

text \<open>
  Any number of connections on one loop (\<open>src/net/Connection.cc\<close>, \<open>src/net/EventLoop.cc\<close>): they
  share the loop with its poller and its one queue of functors, the string objects and the user's
  state. Each functor in the queue and each callback of a channel belongs to one connection, the
  \<open>this\<close> it is bound with; it acts on the connection and on the loop as \<open>Connection\<close> describes.
\<close>

section \<open>State\<close>

text \<open>
  What a connection has of its own, and whether \<open>connectDestroyed\<close> has run on it. A connection is
  in \<open>sh_conns\<close>, under its number, while the object is alive.
\<close>

record 'a side =
  sd_conn :: "'a connection"
  sd_wire :: bytes
  sd_accepted :: bytes
  sd_gone :: bool

datatype shared_cb = Of_loop | Of_conn nat conn_cb

record ('a, 'u) shared =
  sh_loop :: "(nat \<times> 'a conn_task, shared_cb) evloop"
  sh_conns :: "nat \<Rightarrow> 'a side option"
  sh_strings :: "nat \<Rightarrow> bytes option"
  sh_next :: nat
  sh_errors :: "int list"
  sh_app :: 'u

section \<open>A connection's view of the loop\<close>

fun untagged :: "shared_cb \<Rightarrow> conn_cb" where
  "untagged Of_loop = Loop_handleRead"
| "untagged (Of_conn i cb) = cb"

definition channel_as :: "('c \<Rightarrow> 'd) \<Rightarrow> 'c channel \<Rightarrow> 'd channel" where
  "channel_as f ch =
     \<lparr>ch_loop = ch_loop ch, ch_fd = ch_fd ch, ch_events = ch_events ch, ch_revents = ch_revents ch,
      ch_index = ch_index ch, ch_tie = ch_tie ch, ch_tied = ch_tied ch,
      readCallback = map_option f (readCallback ch), writeCallback = map_option f (writeCallback ch),
      closeCallback = map_option f (closeCallback ch), errorCallback = map_option f (errorCallback ch)\<rparr>"

definition loop_as :: "'f list \<Rightarrow> 'd channel \<Rightarrow> ('g, 'c) evloop \<Rightarrow> ('f, 'd) evloop" where
  "loop_as q wake l =
     \<lparr>el_looping = el_looping l, el_quit = el_quit l, el_calling = el_calling l, el_thread = el_thread l,
      el_poller = el_poller l, el_wakeupfd = el_wakeupfd l, el_wakeup = wake, el_efd = el_efd l,
      el_active = el_active l, el_pollTime = el_pollTime l, el_pending = q\<rparr>"

text \<open>The functors of one connection, in their order, and the world that its operations act on.\<close>

definition own_functors :: "nat \<Rightarrow> (nat \<times> 'f) list \<Rightarrow> 'f list" where
  "own_functors i q = map snd (filter (\<lambda>x. fst x = i) q)"

definition conn_view :: "nat \<Rightarrow> 'a side \<Rightarrow> ('a, 'u) shared \<Rightarrow> ('a, 'u) world" where
  "conn_view i c s =
     \<lparr>w_conn = sd_conn c,
      w_loop = loop_as (own_functors i (el_pending (sh_loop s)))
                 (channel_as untagged (el_wakeup (sh_loop s))) (sh_loop s),
      w_wire = sd_wire c, w_accepted = sd_accepted c, w_strings = sh_strings s, w_next = sh_next s,
      w_errors = sh_errors s, w_app = sh_app s\<rparr>"

text \<open>
  The effect of an operation of connection \<open>i\<close> on all: the functors it has queued, those behind its
  own that were in the queue, go to the end of the queue with its number.
\<close>

definition conn_effect :: "nat \<Rightarrow> bool \<Rightarrow> ('a, 'u) world \<Rightarrow> ('a, 'u) shared \<Rightarrow> ('a, 'u) shared" where
  "conn_effect i gone t s =
     (let q = el_pending (sh_loop s);
          new = drop (length (own_functors i q)) (el_pending (w_loop t))
      in s\<lparr>sh_loop := loop_as (q @ map (Pair i) new) (el_wakeup (sh_loop s)) (w_loop t),
           sh_conns := (sh_conns s)(i \<mapsto> \<lparr>sd_conn = w_conn t, sd_wire = w_wire t,
             sd_accepted = w_accepted t, sd_gone = gone\<rparr>),
           sh_strings := w_strings t, sh_next := w_next t, sh_errors := w_errors t, sh_app := w_app t\<rparr>)"

text \<open>An operation on a connection: undefined once the object has been deleted.\<close>

definition on_conn ::
  "nat \<Rightarrow> (('a, 'u) world \<Rightarrow> ('a, 'u) world result) \<Rightarrow> ('a, 'u) shared \<Rightarrow> ('a, 'u) shared result" where
  "on_conn i op s =
     (case sh_conns s i of
        None \<Rightarrow> Inl Use_after_free
      | Some c \<Rightarrow> rbind (op (conn_view i c s)) (\<lambda>t. Inr (conn_effect i (sd_gone c) t s)))"

section \<open>The loop over its connections\<close>

definition retire :: "nat \<Rightarrow> ('a, 'u) shared \<Rightarrow> ('a, 'u) shared" where
  "retire i s = s\<lparr>sh_conns := (sh_conns s)(i := map_option (\<lambda>c. c\<lparr>sd_gone := True\<rparr>) (sh_conns s i))\<rparr>"

definition shared_task ::
  "kernel \<Rightarrow> ('a, 'u) app \<Rightarrow> nat \<Rightarrow> nat \<times> 'a conn_task \<Rightarrow> ('a, 'u) shared \<Rightarrow> ('a, 'u) shared result" where
  "shared_task K app tid x s =
     (case x of (i, f) \<Rightarrow>
      rbind (on_conn i (run_task K app tid f) s)
        (\<lambda>s1. Inr (if f = ConnectDestroyed then retire i s1 else s1)))"

fun shared_callback ::
  "kernel \<Rightarrow> ('a, 'u) app \<Rightarrow> nat \<Rightarrow> shared_cb \<Rightarrow> ('a, 'u) shared \<Rightarrow> ('a, 'u) shared result" where
  "shared_callback K app tid Of_loop s =
     Inr (s\<lparr>sh_loop := EventLoop_handleRead (kn_efd_read K) (sh_loop s)\<rparr>)"
| "shared_callback K app tid (Of_conn i cb) s = on_conn i (run_callback K app tid cb) s"

fun shared_readback ::
  "kernel \<Rightarrow> ('a, 'u) app \<Rightarrow> nat \<Rightarrow> shared_cb \<Rightarrow> timestamp \<Rightarrow> ('a, 'u) shared \<Rightarrow> ('a, 'u) shared result"
  where
  "shared_readback K app tid Of_loop t s = shared_callback K app tid Of_loop s"
| "shared_readback K app tid (Of_conn i cb) t s = on_conn i (run_readback K app tid cb t) s"

text \<open>
  A channel has the number of its connection; the number \<open>0\<close>, which no connection has, is that of
  the wakeup channel.
\<close>

definition shared_host ::
  "kernel \<Rightarrow> ('a, 'u) app \<Rightarrow> nat \<Rightarrow> (('a, 'u) shared, nat \<times> 'a conn_task, shared_cb) host" where
  "shared_host K app tid =
     \<lparr>h_loop = sh_loop,
      h_upd = (\<lambda>f s. s\<lparr>sh_loop := f (sh_loop s)\<rparr>),
      h_chan = (\<lambda>s cid. case sh_conns s cid of
          None \<Rightarrow> el_wakeup (sh_loop s)
        | Some c \<Rightarrow> channel_as (Of_conn cid) (co_channel (sd_conn c))),
      h_chans = (\<lambda>f s. s\<lparr>sh_conns := (\<lambda>i. map_option (\<lambda>c. c\<lparr>sd_conn := (sd_conn c)
            \<lparr>co_channel := channel_as untagged (f i)\<rparr>\<rparr>) (sh_conns s i)),
          sh_loop := (sh_loop s)\<lparr>el_wakeup := f 0\<rparr>\<rparr>),
      h_alive = (\<lambda>s obj. sh_conns s obj \<noteq> None),
      h_functor = shared_task K app tid,
      h_callback = shared_callback K app tid,
      h_readback = shared_readback K app tid\<rparr>"

section \<open>The steps\<close>

text \<open>
  What happens to one connection apart from the functors of the loop: it is established by the
  loop's own thread, an event is dispatched to its channel, any thread sends or shuts down.
\<close>

inductive conn_act :: "kernel \<Rightarrow> ('a, 'u) app \<Rightarrow> ('a, 'u) world \<Rightarrow> ('a, 'u) world \<Rightarrow> bool"
  for K :: kernel and app :: "('a, 'u) app" where
  act_establish:
    "co_state (w_conn s) = kConnecting \<Longrightarrow>
     connectEstablished K app (el_thread (w_loop s)) s = Inr t \<Longrightarrow> conn_act K app s t"
| act_event:
    "co_state (w_conn s) \<noteq> kConnecting \<Longrightarrow>
     dispatch_event K app (el_thread (w_loop s)) time
       (s\<lparr>w_conn := (w_conn s)\<lparr>co_channel := (co_channel (w_conn s))\<lparr>ch_revents := r\<rparr>\<rparr>\<rparr>) = Inr t \<Longrightarrow>
     conn_act K app s t"
| act_send: "Connection_send K tid ptr s = Inr t \<Longrightarrow> conn_act K app s t"
| act_send_chars: "Connection_send_chars K tid data len s = Inr t \<Longrightarrow> conn_act K app s t"
| act_shutdown: "Connection_shutdown K tid s = Inr t \<Longrightarrow> conn_act K app s t"

text \<open>
  The functors that are bound with a shared pointer and so keep the connection alive; the two
  others are bound with \<open>this\<close>.
\<close>

fun holds_conn :: "'a conn_task \<Rightarrow> bool" where
  "holds_conn (SendInLoop ptr len) = False"
| "holds_conn ShutdownInLoop = False"
| "holds_conn f = True"

text \<open>
  All steps: a connection is constructed on a new descriptor, acts, is asked by the server to be
  established or destroyed; a thread that found the connection up, maybe some time ago, queues its
  send, or stores the state of its shutdown and queues that; the functor at the head of the queue is performed; the loop's flags, its counter and its
  list of active channels change; string objects come and go; a destroyed connection is deleted with
  its last reference. That the server asks in the right order and once
  is shown of the server itself; here it is a guard.
\<close>

inductive shared_step :: "('a, 'u) app \<Rightarrow> ('a, 'u) shared \<Rightarrow> ('a, 'u) shared \<Rightarrow> bool"
  for app :: "('a, 'u) app" where
  joined:
    "i \<noteq> 0 \<Longrightarrow> sh_conns s i = None \<Longrightarrow> Connection_new K i (Some loop) name fd la pa = Inr c \<Longrightarrow>
     loop_entry (sh_loop s) fd = None \<Longrightarrow>
     \<forall>j d. sh_conns s j = Some d \<longrightarrow> ch_fd (co_channel (sd_conn d)) \<noteq> fd \<Longrightarrow>
     shared_step app s (s\<lparr>sh_conns := (sh_conns s)(i \<mapsto> \<lparr>sd_conn = with_callbacks onc onm onw onh oncl c,
       sd_wire = [], sd_accepted = [], sd_gone = False\<rparr>)\<rparr>)"
| acted:
    "kernel_doc K \<Longrightarrow> sh_conns s i = Some c \<Longrightarrow> \<not> sd_gone c \<Longrightarrow> conn_act K app (conn_view i c s) t \<Longrightarrow>
     shared_step app s (conn_effect i False t s)"
| asked:
    "f = ConnectEstablished \<or> f = ConnectDestroyed \<Longrightarrow> sh_conns s i \<noteq> None \<Longrightarrow>
     shared_step app s (s\<lparr>sh_loop := queueInLoop w tid (i, f) (sh_loop s)\<rparr>)"
| sent_late:
    "sh_conns s i \<noteq> None \<Longrightarrow> sh_strings s ptr = Some buf \<Longrightarrow>
     shared_step app s (s\<lparr>sh_loop := queueInLoop w tid (i, SendInLoop ptr (of_nat (length buf))) (sh_loop s)\<rparr>)"
| shut_stored:
    "sh_conns s i = Some c \<Longrightarrow> co_state (sd_conn c) \<noteq> kConnecting \<Longrightarrow>
     shared_step app s (s\<lparr>sh_conns := (sh_conns s)(i \<mapsto> c\<lparr>sd_conn := (sd_conn c)\<lparr>co_state := kDisconnecting\<rparr>\<rparr>)\<rparr>)"
| shut_late:
    "sh_conns s i \<noteq> None \<Longrightarrow>
     shared_step app s (s\<lparr>sh_loop := queueInLoop w tid (i, ShutdownInLoop) (sh_loop s)\<rparr>)"
| performed:
    "kernel_doc K \<Longrightarrow> el_pending (sh_loop s) = (i, f) # fs \<Longrightarrow> sh_conns s i = Some c \<Longrightarrow>
     (f = ConnectEstablished \<longleftrightarrow> co_state (sd_conn c) = kConnecting) \<Longrightarrow>
     shared_task K app (el_thread (sh_loop s)) (i, f)
       (s\<lparr>sh_loop := (sh_loop s)\<lparr>el_pending := fs\<rparr>\<rparr>) = Inr t \<Longrightarrow>
     shared_step app s t"
| loop_moved:
    "map_option interest (el_poller l) = map_option interest (el_poller (sh_loop s)) \<Longrightarrow>
     el_thread l = el_thread (sh_loop s) \<Longrightarrow> el_wakeup l = el_wakeup (sh_loop s) \<Longrightarrow>
     el_pending l = el_pending (sh_loop s) \<Longrightarrow> shared_step app s (s\<lparr>sh_loop := l\<rparr>)"
| string_made:
    "length buf \<le> max_bytes \<Longrightarrow>
     shared_step app s (s\<lparr>sh_strings := (sh_strings s)(ptr \<mapsto> buf), sh_next := n\<rparr>)"
| string_freed: "shared_step app s (s\<lparr>sh_strings := (sh_strings s)(ptr := None)\<rparr>)"
| deleted:
    "sh_conns s i = Some c \<Longrightarrow> sd_gone c \<Longrightarrow> \<forall>f. (i, f) \<in> set (el_pending (sh_loop s)) \<longrightarrow> \<not> holds_conn f \<Longrightarrow>
     shared_step app s (s\<lparr>sh_conns := (sh_conns s)(i := None)\<rparr>)"

definition shared_init :: "('a, 'u) shared \<Rightarrow> bool" where
  "shared_init s \<longleftrightarrow> sh_conns s = Map.empty \<and> el_poller (sh_loop s) \<noteq> None \<and> el_pending (sh_loop s) = [] \<and>
     (\<forall>cb. has_callback (el_wakeup (sh_loop s)) cb \<longrightarrow> cb = Of_loop) \<and> short_strings (sh_strings s)"

section \<open>The invariant\<close>

text \<open>Connections have their numbers and descriptors of their own.\<close>

definition shared_base :: "('a, 'u) shared \<Rightarrow> bool" where
  "shared_base s \<longleftrightarrow> el_poller (sh_loop s) \<noteq> None \<and> sh_conns s 0 = None \<and> short_strings (sh_strings s) \<and>
     (\<forall>cb. has_callback (el_wakeup (sh_loop s)) cb \<longrightarrow> cb = Of_loop) \<and>
     (\<forall>i c. sh_conns s i = Some c \<longrightarrow> co_id (sd_conn c) = i) \<and>
     (\<forall>i c j d. sh_conns s i = Some c \<longrightarrow> sh_conns s j = Some d \<longrightarrow> i \<noteq> j \<longrightarrow>
        ch_fd (co_channel (sd_conn c)) \<noteq> ch_fd (co_channel (sd_conn d)))"

definition shared_inv :: "('a, 'u) shared \<Rightarrow> bool" where
  "shared_inv s \<longleftrightarrow> shared_base s \<and>
     (\<forall>i c. sh_conns s i = Some c \<longrightarrow> \<not> sd_gone c \<longrightarrow> held_inv (conn_view i c s))"

lemma own_functors_simps [simp]:
  "own_functors i [] = []" "own_functors i (p @ q) = own_functors i p @ own_functors i q"
  "own_functors i ((j, f) # q) = (if j = i then f # own_functors i q else own_functors i q)"
  "own_functors i (map (Pair j) fs) = (if j = i then fs else [])"
  by (simp_all add: own_functors_def comp_def)

lemma own_functors_set: "f \<in> set (own_functors i q) \<longleftrightarrow> (i, f) \<in> set q"
  by (force simp: own_functors_def)

lemma loop_as_simps [simp]:
  "el_pending (loop_as q w l) = q" "el_wakeup (loop_as q w l) = w" "el_poller (loop_as q w l) = el_poller l"
  "el_thread (loop_as q w l) = el_thread l" "loop_entry (loop_as q w l) = loop_entry l"
  by (simp_all add: loop_as_def loop_entry_def fun_eq_iff)

lemma conn_view_simps [simp]:
  "w_conn (conn_view i c s) = sd_conn c" "w_wire (conn_view i c s) = sd_wire c"
  "w_accepted (conn_view i c s) = sd_accepted c" "w_strings (conn_view i c s) = sh_strings s"
  "w_next (conn_view i c s) = sh_next s" "el_thread (w_loop (conn_view i c s)) = el_thread (sh_loop s)"
  "el_poller (w_loop (conn_view i c s)) = el_poller (sh_loop s)"
  "el_pending (w_loop (conn_view i c s)) = own_functors i (el_pending (sh_loop s))"
  "loop_entry (w_loop (conn_view i c s)) = loop_entry (sh_loop s)"
  by (simp_all add: conn_view_def)

lemma shared_base_conns:
  assumes base: "shared_base s"
    and same: "\<And>i c d. sh_conns s i = Some c \<Longrightarrow> m i = Some d \<Longrightarrow> co_id (sd_conn d) = co_id (sd_conn c) \<and>
      ch_fd (co_channel (sd_conn d)) = ch_fd (co_channel (sd_conn c))"
    and dom: "\<And>i d. m i = Some d \<Longrightarrow> sh_conns s i \<noteq> None"
  shows "shared_base (s\<lparr>sh_conns := m\<rparr>)"
proof -
  have old: "\<exists>c. sh_conns s i = Some c \<and> co_id (sd_conn d) = co_id (sd_conn c) \<and>
      ch_fd (co_channel (sd_conn d)) = ch_fd (co_channel (sd_conn c))" if "m i = Some d" for i d
    using same [OF _ that] dom [OF that] by blast
  have "m 0 = None" using base dom [of 0] by (cases "m 0") (auto simp: shared_base_def)
  moreover have "co_id (sd_conn d) = i" if "m i = Some d" for i d
    using base old [OF that] by (auto simp: shared_base_def)
  moreover have "ch_fd (co_channel (sd_conn d)) \<noteq> ch_fd (co_channel (sd_conn d'))"
    if "m i = Some d" "m j = Some d'" "i \<noteq> j" for i j d d'
    using base old [OF that(1)] old [OF that(2)] that(3) unfolding shared_base_def by metis
  ultimately show ?thesis using base by (simp add: shared_base_def)
qed

text \<open>Connection \<open>i\<close> apart from the others of its loop, before and after an operation.\<close>

abbreviation alone :: "nat \<Rightarrow> 'a side \<Rightarrow> ('a, 'u) shared \<Rightarrow> ('a, 'u) world \<Rightarrow> bool" where
  "alone i c s \<equiv> apart i (ch_fd (co_channel (sd_conn c))) (el_thread (sh_loop s)) (loop_entry (sh_loop s))
     (own_functors i (el_pending (sh_loop s)))"

lemma alone_view: "shared_base s \<Longrightarrow> sh_conns s i = Some c \<Longrightarrow> alone i c s (conn_view i c s)"
  by (simp add: apart_def shared_base_def)

text \<open>The views after an operation of connection \<open>i\<close>: its own, and that of another.\<close>

lemma view_own:
  assumes "\<exists>fs. el_pending (w_loop t) = own_functors i (el_pending (sh_loop s)) @ fs"
  shows "conn_view i \<lparr>sd_conn = w_conn t, sd_wire = w_wire t, sd_accepted = w_accepted t, sd_gone = g\<rparr>
      (conn_effect i g t s) =
    t\<lparr>w_loop := (w_loop t)\<lparr>el_wakeup := channel_as untagged (el_wakeup (sh_loop s))\<rparr>\<rparr>"
  using assms by (auto simp: conn_view_def conn_effect_def loop_as_def Let_def)

lemma alone_queue:
  "alone i c s t \<Longrightarrow> \<exists>fs. el_pending (w_loop t) = own_functors i (el_pending (sh_loop s)) @ fs"
  by (simp add: apart_def)

lemma view_other:
  assumes "j \<noteq> i"
  shows "conn_view j d (conn_effect i g t s) = (conn_view j d s)
    \<lparr>w_loop := loop_as (own_functors j (el_pending (sh_loop s)))
        (channel_as untagged (el_wakeup (sh_loop s))) (w_loop t),
     w_strings := w_strings t, w_next := w_next t, w_errors := w_errors t, w_app := w_app t\<rparr>"
  using assms by (simp add: conn_view_def conn_effect_def loop_as_def Let_def)

text \<open>
  The interface between a promise of one connection and the loop it shares: the promise reads the
  loop through the entry of its own descriptor, and the rest of the shared state only through the
  lengths of the strings.
\<close>

locale own_entry =
  fixes I :: "('a, 'u) world \<Rightarrow> bool"
  assumes entry: "I s \<Longrightarrow> loop_entry l (ch_fd (co_channel (w_conn s))) =
      loop_entry (w_loop s) (ch_fd (co_channel (w_conn s))) \<Longrightarrow> el_poller l \<noteq> None \<Longrightarrow> I (s\<lparr>w_loop := l\<rparr>)"
    and strings: "I s \<Longrightarrow> short_strings m \<Longrightarrow> I (s\<lparr>w_strings := m, w_next := n, w_errors := es, w_app := u\<rparr>)"
    and poller: "I s \<Longrightarrow> el_poller (w_loop s) \<noteq> None"
begin

lemma wakeup_channel: "I s \<Longrightarrow> I (s\<lparr>w_loop := (w_loop s)\<lparr>el_wakeup := ch\<rparr>\<rparr>)"
  by (frule poller, erule entry) (simp_all add: loop_entry_def)

lemma other:
  assumes base: "shared_base s" and i: "sh_conns s i = Some c" and t: "alone i c s t" "short_strings (w_strings t)"
    and j: "j \<noteq> i" "sh_conns s j = Some d" "I (conn_view j d s)"
  shows "I (conn_view j d (conn_effect i g t s))"
proof -
  have "ch_fd (co_channel (sd_conn d)) \<noteq> ch_fd (co_channel (sd_conn c))"
    using base i j(1,2) unfolding shared_base_def by blast
  then have "I ((conn_view j d s)\<lparr>w_loop := loop_as (own_functors j (el_pending (sh_loop s)))
      (channel_as untagged (el_wakeup (sh_loop s))) (w_loop t)\<rparr>)"
    using t(1) by (intro entry [OF j(3)]) (simp_all add: apart_def)
  from strings [OF this t(2)] show ?thesis by (simp add: view_other [OF j(1)])
qed

lemma loop_changed:
  assumes "I (conn_view i c s)"
    and "map_option interest (el_poller l) = map_option interest (el_poller (sh_loop s))"
  shows "I (conn_view i c (s\<lparr>sh_loop := l\<rparr>))"
proof -
  have "loop_entry l = loop_entry (sh_loop s)" "el_poller l = None \<longleftrightarrow> el_poller (sh_loop s) = None"
    using assms(2) by (auto simp: loop_entry_def fun_eq_iff split: option.splits)
  moreover have "el_poller (sh_loop s) \<noteq> None" using poller [OF assms(1)] by simp
  ultimately have "I ((conn_view i c s)\<lparr>w_loop := w_loop (conn_view i c (s\<lparr>sh_loop := l\<rparr>))\<rparr>)"
    by (intro entry [OF assms(1)]) simp_all
  then show ?thesis by (simp add: conn_view_def)
qed

end

lemma conn_inv_shared:
  "conn_inv s \<Longrightarrow> short_strings m \<Longrightarrow>
     conn_inv (s\<lparr>w_strings := m, w_next := n, w_errors := es, w_app := u\<rparr>)"
  by (simp add: conn_inv_defs short_strings_def)

lemma late_shared:
  "late_inv s \<Longrightarrow> short_strings m \<Longrightarrow>
     late_inv (s\<lparr>w_strings := m, w_next := n, w_errors := es, w_app := u\<rparr>)"
  by (simp add: late_inv_def late_base_def)

lemma conn_inv_poller: "conn_inv s \<Longrightarrow> el_poller (w_loop s) \<noteq> None"
  using inv_in_step by (fastforce simp: loop_in_step_def split: option.splits)

lemma held_poller:
  assumes "held_inv s"
  shows "el_poller (w_loop s) \<noteq> None"
proof (cases "conn_inv s")
  case False
  with assms have "loop_in_step (simple_epoll_ctl, co_id (w_conn s)) (co_channel (w_conn s)) (w_loop s)"
    by (simp add: held_inv_def late_inv_def late_base_def)
  then show ?thesis by (auto simp: loop_in_step_def split: option.splits)
qed (rule conn_inv_poller)

interpretation ci: own_entry conn_inv
  by unfold_locales (blast intro: conn_inv_entry conn_inv_shared dest: conn_inv_poller)+

interpretation hi: own_entry held_inv
proof unfold_locales
  fix s :: "('a, 'b) world" and l :: "('a conn_task, conn_cb) evloop"
  assume "held_inv s" "el_poller l \<noteq> None" "loop_entry l (ch_fd (co_channel (w_conn s))) =
      loop_entry (w_loop s) (ch_fd (co_channel (w_conn s)))"
  then show "held_inv (s\<lparr>w_loop := l\<rparr>)"
    unfolding held_inv_def by (blast intro: conn_inv_entry late_entry)
next
  fix s :: "('a, 'b) world" and m n es u
  assume "held_inv s" "short_strings m"
  then show "held_inv (s\<lparr>w_strings := m, w_next := n, w_errors := es, w_app := u\<rparr>)"
    unfolding held_inv_def by (blast intro: conn_inv_shared late_shared)
qed (rule held_poller)

lemma held_short: "held_inv s \<Longrightarrow> short_strings (w_strings s)"
  by (auto simp: held_inv_def late_short) (simp add: conn_inv_def stream_base)

lemma effect_base:
  assumes "shared_base s" and "sh_conns s i = Some c" and "alone i c s t" and "short_strings (w_strings t)"
  shows "shared_base (conn_effect i g t s)"
proof -
  have "i \<noteq> 0" using assms(1,2) by (cases i) (simp_all add: shared_base_def)
  with assms show ?thesis by (auto simp: shared_base_def conn_effect_def apart_def Let_def)
qed

lemma effect_inv:
  assumes inv: "shared_inv s" and i: "sh_conns s i = Some c"
    and t: "alone i c s t" "short_strings (w_strings t)" and own: "g \<or> held_inv t"
  shows "shared_inv (conn_effect i g t s)"
  unfolding shared_inv_def
proof (intro conjI allI impI)
  have base: "shared_base s" using inv by (simp add: shared_inv_def)
  show "shared_base (conn_effect i g t s)" by (rule effect_base [OF base i t])
  fix j d
  assume j: "sh_conns (conn_effect i g t s) j = Some d" "\<not> sd_gone d"
  show "held_inv (conn_view j d (conn_effect i g t s))"
  proof (cases "j = i")
    case True
    then have "d = \<lparr>sd_conn = w_conn t, sd_wire = w_wire t, sd_accepted = w_accepted t, sd_gone = g\<rparr>"
      using j(1) by (simp add: conn_effect_def Let_def)
    with True own j(2) view_own [OF alone_queue [OF t(1)]] show ?thesis by (auto intro: hi.wakeup_channel)
  next
    case False
    then have "sh_conns s j = Some d" using j(1) by (simp add: conn_effect_def Let_def)
    with hi.other [OF base i t False] inv j(2) show ?thesis by (simp add: shared_inv_def)
  qed
qed

text \<open>The loop may change as long as its entries, its thread and its wakeup channel do not.\<close>

lemma shared_inv_loop:
  assumes "shared_inv s" and "map_option interest (el_poller l) = map_option interest (el_poller (sh_loop s))"
    and "el_wakeup l = el_wakeup (sh_loop s)"
  shows "shared_inv (s\<lparr>sh_loop := l\<rparr>)"
  using assms hi.loop_changed [OF _ assms(2)] by (auto simp: shared_inv_def shared_base_def)

lemma shared_inv_queue: "shared_inv s \<Longrightarrow> shared_inv (s\<lparr>sh_loop := queueInLoop w tid x (sh_loop s)\<rparr>)"
  by (rule shared_inv_loop) (auto simp: queueInLoop_def push_functor_def wakeup_def Let_def split: sum.split)

lemma shared_inv_frame:
  assumes "shared_inv s" and "short_strings m"
  shows "shared_inv (s\<lparr>sh_strings := m, sh_next := n\<rparr>)"
  unfolding shared_inv_def
proof (intro conjI allI impI)
  show "shared_base (s\<lparr>sh_strings := m, sh_next := n\<rparr>)"
    using assms by (simp add: shared_inv_def shared_base_def)
  fix i c
  assume "sh_conns (s\<lparr>sh_strings := m, sh_next := n\<rparr>) i = Some c" "\<not> sd_gone c"
  then have "held_inv (conn_view i c s)" using assms(1) by (simp add: shared_inv_def)
  from hi.strings [OF this assms(2), where n = n and es = "sh_errors s" and u = "sh_app s"]
  show "held_inv (conn_view i c (s\<lparr>sh_strings := m, sh_next := n\<rparr>))" by (simp add: conn_view_def)
qed

text \<open>One connection's step, as a step of its own machine and as one apart from the others.\<close>

lemma conn_act_step: "conn_act K app s t \<Longrightarrow> kernel_doc K \<Longrightarrow> conn_step app s t"
  by (induction rule: conn_act.induct) (blast intro: conn_step.intros)+

lemma conn_act_held:
  assumes "conn_act K app s t" and K: "kernel_doc K" and inv: "held_inv s"
  shows "held_inv t"
proof (cases "conn_inv s")
  case True
  from conn_step_inv [OF conn_act_step [OF assms(1) K] True] show ?thesis by (simp add: held_inv_def)
next
  case False
  with inv have late: "late_inv s" by (simp add: held_inv_def)
  from assms(1) have "late_inv t"
  proof cases
    case act_establish
    with late show ?thesis by simp
  next
    case (act_event time r)
    then show ?thesis by (intro late_dispatch [OF K late_revents [OF late]])
  next
    case (act_send tid ptr)
    with late_calls(1) [OF late, of K tid ptr] show ?thesis by simp
  next
    case (act_send_chars tid data len)
    with late_calls(3) [OF late, of K tid data len] show ?thesis by simp
  next
    case (act_shutdown tid)
    with late_calls(2) [OF late, of K tid] show ?thesis by simp
  qed
  then show ?thesis by (simp add: held_inv_def)
qed

lemma conn_act_keeps:
  assumes "conn_act K app s t" and K: "kernel_doc K" and "apart me f tid W P s"
  shows "apart me f tid W P t"
  using assms
proof (induction rule: conn_act.induct)
  case (act_establish s t)
  show ?case by (rule keepsD [OF ap.established_keeps [OF K act_establish.prems(2)] act_establish.hyps(2)])
next
  case (act_event s time r t)
  have "apart me f tid W P (s\<lparr>w_conn := (w_conn s)\<lparr>co_channel := (co_channel (w_conn s))\<lparr>ch_revents := r\<rparr>\<rparr>\<rparr>)"
    using act_event.prems(2) by (simp add: apart_def)
  from ap.dispatch_keeps [OF K this act_event.hyps(2)] show ?case .
next
  case (act_send tid' ptr s t)
  show ?case by (rule keepsD [OF ap.send_keeps [OF K act_send.prems(2)] act_send.hyps])
next
  case (act_send_chars tid' data len s t)
  show ?case by (rule keepsD [OF ap.send_chars_keeps [OF K act_send_chars.prems(2)] act_send_chars.hyps])
next
  case (act_shutdown tid' s t)
  show ?case by (rule keepsD [OF ap.shutdown_keeps [OF act_shutdown.prems(2)] act_shutdown.hyps])
qed

lemma conn_inv_short: "conn_inv s \<Longrightarrow> short_strings (w_strings s)"
  by (simp add: conn_inv_def stream_inv_def short_strings_def)

lemma task_shared_inv:
  assumes inv: "shared_inv s" and K: "kernel_doc K" and i: "sh_conns s i = Some c"
    and st: "f = ConnectEstablished \<longleftrightarrow> co_state (sd_conn c) = kConnecting"
    and run: "shared_task K app tid (i, f) s = Inr t"
  shows "shared_inv t"
proof -
  let ?w = "conn_view i c s"
  have base: "shared_base s" using inv by (simp add: shared_inv_def)
  obtain u where u: "run_task K app tid f ?w = Inr u"
    and t: "t = (if f = ConnectDestroyed then retire i else id) (conn_effect i (sd_gone c) u s)"
    using run i by (auto simp: shared_task_def on_conn_def rbind_Inr_iff split: if_splits)
  have al: "alone i c s u"
    by (rule keepsD [OF ap.task_keeps [OF K alone_view [OF base i]] u])
  have sh: "short_strings (w_strings u)"
    by (rule keepsD [OF sh.task_keeps [OF K] u]) (use base in \<open>simp add: shared_base_def\<close>)
  have "retire i (conn_effect i g u s) = conn_effect i True u s" for g
    by (simp add: retire_def conn_effect_def Let_def)
  with t have eff: "t = conn_effect i (f = ConnectDestroyed \<or> sd_gone c) u s" by auto
  have "held_inv u" if "f \<noteq> ConnectDestroyed" "\<not> sd_gone c"
  proof -
    have w: "held_inv ?w" using inv i that(2) by (simp add: shared_inv_def)
    show ?thesis
    proof (cases "conn_inv ?w")
      case True
      then have "conn_inv u"
        using u st that(1) connectEstablished_inv [OF K True] run_task_inv [OF K True _ _ u]
        by (cases "f = ConnectEstablished") (auto simp: life_task_def)
      then show ?thesis by (simp add: held_inv_def)
    next
      case False
      with w have late: "late_inv ?w" by (simp add: held_inv_def)
      then have "f \<noteq> ConnectEstablished" using st late_not_connected(2) [OF late] by auto
      with late_task [OF K late, of f app tid] u that(1) have "late_inv u" by (simp add: life_task_def)
      then show ?thesis by (simp add: held_inv_def)
    qed
  qed
  then have "(f = ConnectDestroyed \<or> sd_gone c) \<or> held_inv u" by blast
  from effect_inv [OF inv i al sh this] show ?thesis unfolding eff .
qed

lemma shared_step_inv: "shared_step app s t \<Longrightarrow> shared_inv s \<Longrightarrow> shared_inv t"
proof (induction rule: shared_step.induct)
  case (joined i s K loop name fd la pa c onc onm onw onh oncl)
  let ?d = "\<lparr>sd_conn = with_callbacks onc onm onw onh oncl c, sd_wire = [], sd_accepted = [], sd_gone = False\<rparr>"
  let ?s = "s\<lparr>sh_conns := (sh_conns s)(i \<mapsto> ?d)\<rparr>"
  have base: "shared_base s" using joined.prems by (simp add: shared_inv_def)
  obtain b where new: "Buffer_new kInitialSize = Inr b"
    using joined.hyps(3) by (auto simp: Connection_new_def rbind_Inr_iff conn_CheckLoopNotNull_def)
  note c = Connection_new_fields [OF new joined.hyps(3)]
  have "conn_init (conn_view i ?d ?s)"
    unfolding conn_init_def
  proof (intro conjI exI)
    show "Connection_new K i (Some loop) name fd la pa = Inr c" by (rule joined.hyps(3))
    show "case el_poller (w_loop (conn_view i ?d ?s)) of None \<Rightarrow> False | Some p \<Rightarrow> interest p fd = None"
      using base joined.hyps(4) by (auto simp: shared_base_def loop_entry_def split: option.splits)
  qed (use base in \<open>auto simp: shared_base_def short_strings_def\<close>)
  then have new: "held_inv (conn_view i ?d ?s)" by (simp add: held_inv_def conn_init_inv)
  have "held_inv (conn_view j d ?s)" if "sh_conns s j = Some d" "\<not> sd_gone d" for j d
    using joined.prems that by (simp add: shared_inv_def conn_view_def)
  moreover have "shared_base ?s"
    using base joined.hyps(1,2,5) unfolding shared_base_def
    by (simp add: c) (use joined.hyps(5) in blast)
  ultimately show ?case using new by (auto simp: shared_inv_def)
next
  case (acted K s i c t)
  have base: "shared_base s" and w: "held_inv (conn_view i c s)"
    using acted.prems acted.hyps(2,3) by (simp_all add: shared_inv_def)
  have t: "held_inv t" by (rule conn_act_held [OF acted.hyps(4,1) w])
  from effect_inv [OF acted.prems acted.hyps(2) conn_act_keeps [OF acted.hyps(4,1) alone_view [OF base acted.hyps(2)]]
      held_short [OF t]] t show ?case by simp
next
  case (asked f s i w tid)
  show ?case by (rule shared_inv_queue [OF asked.prems])
next
  case (sent_late s i ptr buf w tid)
  show ?case by (rule shared_inv_queue [OF sent_late.prems])
next
  case (shut_stored s i c)
  let ?d = "c\<lparr>sd_conn := (sd_conn c)\<lparr>co_state := kDisconnecting\<rparr>\<rparr>"
  let ?s = "s\<lparr>sh_conns := (sh_conns s)(i \<mapsto> ?d)\<rparr>"
  have base: "shared_base ?s"
    by (rule shared_base_conns) (use shut_stored in \<open>auto simp: shared_inv_def split: if_splits\<close>)
  have "held_inv (conn_view i ?d ?s)" if "\<not> sd_gone c"
  proof -
    have "held_inv (setState kDisconnecting (conn_view i c s))"
      using shut_stored that by (intro late_store) (auto simp: shared_inv_def)
    then show ?thesis by (simp add: conn_view_def setState_def)
  qed
  moreover have "held_inv (conn_view j d ?s)" if "sh_conns s j = Some d" "\<not> sd_gone d" for j d
    using shut_stored.prems that by (simp add: shared_inv_def conn_view_def)
  ultimately show ?case using base by (auto simp: shared_inv_def)
next
  case (shut_late s i w tid)
  show ?case by (rule shared_inv_queue [OF shut_late.prems])
next
  case (performed K s i f fs c t)
  have "shared_inv (s\<lparr>sh_loop := (sh_loop s)\<lparr>el_pending := fs\<rparr>\<rparr>)"
    by (rule shared_inv_loop [OF performed.prems]) simp_all
  from task_shared_inv [OF this performed.hyps(1) _ performed.hyps(4,5)] performed.hyps(3) show ?case by simp
next
  case (loop_moved l s)
  then show ?case by (intro shared_inv_loop)
next
  case (string_made buf s ptr n)
  then show ?case
    by (intro shared_inv_frame) (auto simp: shared_inv_def shared_base_def short_strings_def)
next
  case (string_freed s ptr)
  have "short_strings ((sh_strings s)(ptr := None))"
    using string_freed.prems by (auto simp: shared_inv_def shared_base_def short_strings_def)
  from shared_inv_frame [OF string_freed.prems this, of "sh_next s"] show ?case by simp
next
  case (deleted s i c)
  then show ?case by (auto simp: shared_inv_def shared_base_def conn_view_def)
qed

lemma shared_init_inv: "shared_init s \<Longrightarrow> shared_inv s"
  by (simp add: shared_init_def shared_inv_def shared_base_def)

interpretation sl: invariant_machine "\<lambda>_. True" shared_init shared_step shared_inv
  by unfold_locales (auto intro: shared_init_inv shared_step_inv)

text \<open>What the invariant of a connection says of its stream and of the kernel's entry for it.\<close>

lemma conn_inv_accepted: "conn_inv w \<Longrightarrow> w_wire w @ out_bytes w = w_accepted w"
  by (simp add: conn_inv_def stream_inv_def)

lemma conn_inv_entry_own:
  assumes "conn_inv w" and "conn_up (co_state (w_conn w))"
  shows "loop_entry (w_loop w) (ch_fd (co_channel (w_conn w))) =
    Some (ch_events (co_channel (w_conn w)), co_id (w_conn w))"
proof -
  obtain p where p: "el_poller (w_loop w) = Some p" "in_step (ctl, co_id (w_conn w)) (co_channel (w_conn w)) p" for ctl
    using inv_in_step [OF assms(1)] by (auto simp: loop_in_step_def split: option.splits)
  with conn_inv_up(4) [OF assms] show ?thesis
    by (auto simp: loop_watched_def watched_events_def loop_entry_def in_step_def)
qed

section \<open>The connections run by the loop\<close>

text \<open>
  Established connections, the set \<open>D\<close> of them, whose functors in the queue are those of the loop's
  own thread: what the \<open>while\<close> of the loop keeps for all of them.
\<close>

definition shared_running :: "nat set \<Rightarrow> nat \<Rightarrow> nat set \<Rightarrow> ('a, 'u) shared \<Rightarrow> bool" where
  "shared_running D tid A s \<longleftrightarrow> shared_base s \<and> dom (sh_conns s) = D \<and> el_thread (sh_loop s) = tid \<and>
     (\<forall>x \<in> set (el_pending (sh_loop s)). fst x \<in> D \<and> own_task (snd x)) \<and>
     (\<forall>ptr \<in> A. sh_strings s ptr \<noteq> None \<and> ptr < sh_next s) \<and>
     (\<forall>i c. sh_conns s i = Some c \<longrightarrow> conn_inv (conn_view i c s) \<and> co_state (sd_conn c) \<noteq> kConnecting)"

lemma running_view:
  assumes "shared_running D tid A s" and "sh_conns s i = Some c"
  shows "running tid A (conn_view i c s)"
  using assms by (force simp: shared_running_def running_def own_thread_def own_functors_set)

lemma effect_running:
  assumes run: "shared_running D tid A s" and i: "sh_conns s i = Some c"
    and t: "alone i c s t" "running tid A t"
  shows "shared_running D tid A (conn_effect i g t s)"
proof -
  let ?s = "conn_effect i g t s"
  have base: "shared_base s" using run by (simp add: shared_running_def)
  note sh = conn_inv_short [OF runningD(1) [OF t(2)]]
  have D: "dom (sh_conns ?s) = D"
    using run i by (auto simp: shared_running_def conn_effect_def Let_def)
  obtain fs where fs: "el_pending (w_loop t) = own_functors i (el_pending (sh_loop s)) @ fs"
    using t(1) by (auto simp: apart_def)
  with runningD(2) [OF t(2)] run i have q: "\<forall>x \<in> set (el_pending (sh_loop ?s)). fst x \<in> D \<and> own_task (snd x)"
    by (auto simp: conn_effect_def Let_def own_thread_def shared_running_def)
  have "conn_inv (conn_view j d ?s) \<and> co_state (sd_conn d) \<noteq> kConnecting" if j: "sh_conns ?s j = Some d" for j d
  proof (cases "j = i")
    case True
    then have "d = \<lparr>sd_conn = w_conn t, sd_wire = w_wire t, sd_accepted = w_accepted t, sd_gone = g\<rparr>"
      using j by (simp add: conn_effect_def Let_def)
    with True runningD(1,4) [OF t(2)] view_own [OF alone_queue [OF t(1)]] show ?thesis by (auto intro: ci.wakeup_channel)
  next
    case False
    then have "sh_conns s j = Some d" using j by (simp add: conn_effect_def Let_def)
    with ci.other [OF base i t(1) sh False] run show ?thesis by (simp add: shared_running_def)
  qed
  moreover have "el_thread (sh_loop ?s) = tid" "\<forall>ptr \<in> A. sh_strings ?s ptr \<noteq> None \<and> ptr < sh_next ?s"
    using runningD(2) [OF t(2)] by (simp_all add: conn_effect_def Let_def own_thread_def)
  ultimately show ?thesis
    unfolding shared_running_def using effect_base [OF base i t(1) sh] D q by blast
qed

text \<open>An operation that is sound for the connection, and apart from the others, is so for all.\<close>

lemma on_conn_sound:
  assumes run: "shared_running D tid A s" and i: "i \<in> D"
    and op: "\<And>w. running tid A w \<Longrightarrow> sound defined_fault (running tid A) (op w)"
    and ap: "\<And>me f tid W P w. apart me f tid W P w \<Longrightarrow> keeps (apart me f tid W P) (op w)"
  shows "sound defined_fault (shared_running D tid A) (on_conn i op s)"
proof -
  obtain c where c: "sh_conns s i = Some c" using run i by (auto simp: shared_running_def)
  have base: "shared_base s" using run by (simp add: shared_running_def)
  note snd = op [OF running_view [OF run c]] and al = ap [OF alone_view [OF base c]]
  show ?thesis
  proof (cases "op (conn_view i c s)")
    case (Inl e)
    with snd c show ?thesis by (simp add: on_conn_def)
  next
    case (Inr t)
    with snd al have "running tid A t" "alone i c s t" by simp_all
    from effect_running [OF run c this(2,1)] Inr c show ?thesis by (simp add: on_conn_def)
  qed
qed

lemma shared_task_sound:
  assumes env: "run_env K app A" and run: "shared_running D tid A s" and x: "fst x \<in> D" "own_task (snd x)"
  shows "sound defined_fault (shared_running D tid A) (shared_task K app tid x s)"
proof -
  obtain i f where [simp]: "x = (i, f)" by (cases x)
  have "sound defined_fault (shared_running D tid A) (on_conn i (run_task K app tid f) s)"
    using x task_sound [OF env] ap.task_keeps [OF run_envD(1) [OF env]] by (intro on_conn_sound [OF run]) auto
  moreover have "f \<noteq> ConnectDestroyed" using x(2) by auto
  ultimately show ?thesis by (simp add: shared_task_def) (rule sound_rbind, auto)
qed

lemma shared_running_loop:
  assumes run: "shared_running D tid A s"
    and l: "map_option interest (el_poller l) = map_option interest (el_poller (sh_loop s))"
      "el_thread l = el_thread (sh_loop s)" "set (el_pending l) \<subseteq> set (el_pending (sh_loop s))"
    and w: "\<forall>cb. has_callback (el_wakeup l) cb \<longrightarrow> cb = Of_loop"
  shows "shared_running D tid A (s\<lparr>sh_loop := l\<rparr>)"
  using run l(2,3) w ci.loop_changed [OF _ l(1)] l(1) by (auto simp: shared_running_def shared_base_def)

lemma shared_callbacks:
  assumes "shared_running D tid A s" and "has_callback (h_chan (shared_host K app tid) s cid) cb"
  shows "cb = Of_loop \<or> (\<exists>i \<in> D. \<exists>c. cb = Of_conn i c)"
  using assms
  by (auto simp: shared_host_def has_callback_def channel_as_def shared_running_def shared_base_def
      split: option.splits)

lemma wakeup_sound:
  "shared_running D tid A s \<Longrightarrow>
     shared_running D tid A (s\<lparr>sh_loop := EventLoop_handleRead r (sh_loop s)\<rparr>)"
  by (rule shared_running_loop)
    (auto simp: EventLoop_handleRead_def shared_running_def shared_base_def split: sum.split)

lemma shared_callback_sound:
  assumes env: "run_env K app A" and run: "shared_running D tid A s"
    and cb: "has_callback (h_chan (shared_host K app tid) s cid) cb"
  shows "sound defined_fault (shared_running D tid A) (shared_callback K app tid cb s)"
    and "sound defined_fault (shared_running D tid A) (shared_readback K app tid cb time s)"
  using shared_callbacks [OF run cb] wakeup_sound [OF run]
    on_conn_sound [OF run _ callback_run_sound [OF env] ap.callback_keeps [OF run_envD(1) [OF env]]]
    on_conn_sound [OF run _ readback_run_sound [OF env] ap.readback_keeps [OF run_envD(1) [OF env]]]
  by auto

text \<open>The poll reports events to the channels of the connections and to the wakeup channel.\<close>

lemma channel_as_tag: "channel_as untagged (channel_as (Of_conn i) ch) = (ch :: conn_cb channel)"
  by (simp add: channel_as_def option.map_comp comp_def option.map_ident)

lemma channel_as_revents: "channel_as f (ch\<lparr>ch_revents := r\<rparr>) = (channel_as f ch)\<lparr>ch_revents := r\<rparr>"
  by (simp add: channel_as_def)

lemma poll_running:
  assumes run: "shared_running D tid A s" and p: "el_poller (sh_loop s) = Some p"
    and e: "Epollpoller_poll epoll_wait (h_chan (shared_host K app tid) s) p [] = (chans, p', active)"
  shows "shared_running D tid A (h_upd (shared_host K app tid)
    (\<lambda>l. l\<lparr>el_poller := Some p', el_active := active, el_pollTime := now\<rparr>)
    (h_chans (shared_host K app tid) chans s))"
proof -
  let ?l = "(sh_loop s)\<lparr>el_wakeup := chans 0, el_poller := Some p', el_active := active, el_pollTime := now\<rparr>"
  let ?conns = "\<lambda>i. map_option (\<lambda>c. c\<lparr>sd_conn := (sd_conn c)\<lparr>co_channel := channel_as untagged (chans i)\<rparr>\<rparr>) (sh_conns s i)"
  have r: "\<exists>r. channel_as untagged (chans i) = (co_channel (sd_conn c))\<lparr>ch_revents := r\<rparr>"
    if "sh_conns s i = Some c" for i c
    using poll_revents(1) [OF e, of i] that
    by (auto simp: shared_host_def channel_as_revents channel_as_tag)
  have inv: "conn_inv (conn_view i (c\<lparr>sd_conn := (sd_conn c)\<lparr>co_channel := channel_as untagged (chans i)\<rparr>\<rparr>)
      (s\<lparr>sh_conns := ?conns\<rparr>))" if c: "sh_conns s i = Some c" for i c
  proof -
    obtain r where "channel_as untagged (chans i) = (co_channel (sd_conn c))\<lparr>ch_revents := r\<rparr>"
      using r [OF c] by blast
    moreover have "conn_inv (conn_view i c s)" using run c by (simp add: shared_running_def)
    ultimately show ?thesis
      using conn_inv_revents [where s = "conn_view i c s" and r = r] by (simp add: conn_view_def)
  qed
  have same: "co_id (sd_conn d) = co_id (sd_conn c) \<and>
      ch_fd (co_channel (sd_conn d)) = ch_fd (co_channel (sd_conn c))"
    if "sh_conns s i = Some c" "?conns i = Some d" for i c d
    using r [OF that(1)] that by auto
  have base: "shared_base (s\<lparr>sh_conns := ?conns\<rparr>)"
    by (rule shared_base_conns [OF _ same]) (use run in \<open>auto simp: shared_running_def\<close>)
  have 1: "shared_running D tid A (s\<lparr>sh_conns := ?conns\<rparr>)"
    using run inv base by (auto simp: shared_running_def dom_def)
  have "sh_conns s 0 = None" using run by (simp add: shared_running_def shared_base_def)
  with poll_revents(1) [OF e, of 0] obtain r where "chans 0 = (el_wakeup (sh_loop s))\<lparr>ch_revents := r\<rparr>"
    by (auto simp: shared_host_def)
  with run have w: "\<forall>cb. has_callback (el_wakeup ?l) cb \<longrightarrow> cb = Of_loop"
    by (simp add: shared_running_def shared_base_def has_callback_def)
  from shared_running_loop [OF 1, of ?l] w p poll_revents(2) [OF e] show ?thesis
    by (simp add: shared_host_def)
qed

interpretation sr: sound_host "shared_host K app tid"
  "\<lambda>s. run_env K app A \<and> shared_running D tid A s" "\<lambda>x. fst x \<in> D \<and> own_task (snd x)" defined_fault
proof unfold_locales
  fix s :: "('a, 'b) shared" and g :: "(nat \<times> 'a conn_task, shared_cb) evloop \<Rightarrow> (nat \<times> 'a conn_task, shared_cb) evloop"
  assume ok: "run_env K app A \<and> shared_running D tid A s"
    and "el_poller (g (h_loop (shared_host K app tid) s)) = el_poller (h_loop (shared_host K app tid) s)"
    and "el_thread (g (h_loop (shared_host K app tid) s)) = el_thread (h_loop (shared_host K app tid) s)"
    and "el_wakeup (g (h_loop (shared_host K app tid) s)) = el_wakeup (h_loop (shared_host K app tid) s)"
    and "set (el_pending (g (h_loop (shared_host K app tid) s))) \<subseteq> set (el_pending (h_loop (shared_host K app tid) s))"
  moreover have "\<forall>cb. has_callback (el_wakeup (sh_loop s)) cb \<longrightarrow> cb = Of_loop"
    using ok by (simp add: shared_running_def shared_base_def)
  ultimately show "run_env K app A \<and> shared_running D tid A (h_upd (shared_host K app tid) g s)"
    using shared_running_loop [of D tid A s "g (sh_loop s)"] by (simp add: shared_host_def)
next
  fix s :: "('a, 'b) shared"
  assume "run_env K app A \<and> shared_running D tid A s"
  then show "el_poller (h_loop (shared_host K app tid) s) \<noteq> None"
    by (simp add: shared_host_def shared_running_def shared_base_def)
next
  fix s :: "('a, 'b) shared" and p epoll_wait chans p' active now
  assume "run_env K app A \<and> shared_running D tid A s" "el_poller (h_loop (shared_host K app tid) s) = Some p"
    "Epollpoller_poll epoll_wait (h_chan (shared_host K app tid) s) p [] = (chans, p', active)"
  then show "run_env K app A \<and> shared_running D tid A (h_upd (shared_host K app tid)
      (\<lambda>l. l\<lparr>el_poller := Some p', el_active := active, el_pollTime := now\<rparr>)
      (h_chans (shared_host K app tid) chans s))"
    using poll_running [of D tid A s p] by (simp add: shared_host_def)
next
  fix s :: "('a, 'b) shared" and x
  assume "run_env K app A \<and> shared_running D tid A s" "x \<in> set (el_pending (h_loop (shared_host K app tid) s))"
  then show "fst x \<in> D \<and> own_task (snd x)" by (auto simp: shared_host_def shared_running_def)
next
  fix s :: "('a, 'b) shared" and x cid cb t
  assume ok: "run_env K app A \<and> shared_running D tid A s"
  then have k: "run_env K app A" "shared_running D tid A s" by blast+
  let ?ok = "\<lambda>s. run_env K app A \<and> shared_running D tid A s"
  show "fst x \<in> D \<and> own_task (snd x) \<Longrightarrow> sound defined_fault ?ok (h_functor (shared_host K app tid) x s)"
    using shared_task_sound [OF k] k(1) by (auto simp: shared_host_def intro: sound_mono)
  assume "has_callback (h_chan (shared_host K app tid) s cid) cb"
  note cb = shared_callback_sound [OF k this]
  show "sound defined_fault ?ok (h_callback (shared_host K app tid) cb s)"
    using sound_mono [OF cb(1)] k(1) by (simp add: shared_host_def)
  show "sound defined_fault ?ok (h_readback (shared_host K app tid) cb t s)"
    using sound_mono [OF cb(2)] k(1) by (simp add: shared_host_def)
qed (simp_all add: shared_host_def)

section \<open>Runs\<close>

text \<open>A loop with string objects, and connections on it in the states their runs pass through.\<close>

definition demo_shared :: "(unit, unit) shared" where
  "demo_shared = \<lparr>sh_loop = loop_as [] (Channel_new 0 5) demo_loop, sh_conns = Map.empty,
     sh_strings = [0 \<mapsto> ''hello''], sh_next = 1, sh_errors = [], sh_app = ()\<rparr>"

definition demo_new_conn :: "nat \<Rightarrow> int \<Rightarrow> unit connection" where
  "demo_new_conn i fd = (demo_conn None)\<lparr>co_id := i, co_sock := (Socket_new fd)\<lparr>sk_keepalive := True\<rparr>,
     co_channel := demo_channel\<lparr>ch_fd := fd\<rparr>, cn_writeCompleteCallback := None\<rparr>"

definition demo_up_conn :: "nat \<Rightarrow> int \<Rightarrow> unit connection" where
  "demo_up_conn i fd = (demo_new_conn i fd)\<lparr>co_state := kConnected, co_channel := demo_channel
     \<lparr>ch_fd := fd, ch_events := 3, ch_index := 1, ch_tie := Some i, ch_tied := True\<rparr>\<rparr>"

definition demo_side :: "unit connection \<Rightarrow> unit side" where
  "demo_side c = \<lparr>sd_conn = c, sd_wire = [], sd_accepted = [], sd_gone = False\<rparr>"

definition demo_watch :: "nat \<Rightarrow> int \<Rightarrow> poller \<Rightarrow> poller" where
  "demo_watch i fd p = p\<lparr>channels := (channels p)(fd \<mapsto> i), interest := (interest p)(fd \<mapsto> (3, i))\<rparr>"

definition demo_add :: "nat \<Rightarrow> int \<Rightarrow> (unit, unit) shared \<Rightarrow> (unit, unit) shared" where
  "demo_add i fd s = s\<lparr>sh_loop := (sh_loop s)\<lparr>el_poller := map_option (demo_watch i fd) (el_poller (sh_loop s))\<rparr>,
     sh_conns := (sh_conns s)(i \<mapsto> demo_side (demo_up_conn i fd))\<rparr>"

lemma demo_shared_init: "shared_init demo_shared"
  by (auto simp: shared_init_def demo_shared_def demo_loop_def loop_as_def has_callback_def Channel_new_def
      short_strings_def max_bytes_val)

lemma demo_new: "Connection_new demo_kernel i (Some 0) ''demo'' fd demo_addr demo_addr =
    Inr ((demo_new_conn i fd)\<lparr>cn_connectionCallback := None\<rparr>)"
  by (simp add: Connection_new_def conn_CheckLoopNotNull_def initial_buffer_facts demo_kernel_def
      setKeepAlive_def demo_new_conn_def demo_conn_def setCloseCallback_def setErrorCallback_def
      setWriteCallback_def setReadCallback_def Channel_new_def demo_channel_def Let_def)

lemma demo_shared_established:
  assumes "el_poller (sh_loop s) = Some p" and "interest p fd = None"
  shows "connectEstablished demo_kernel quiet_app tid (conn_view i (demo_side (demo_new_conn i fd)) s) =
    Inr ((conn_view i (demo_side (demo_up_conn i fd)) s)
      \<lparr>w_loop := (w_loop (conn_view i (demo_side (demo_up_conn i fd)) s))\<lparr>el_poller := Some (demo_watch i fd p)\<rparr>\<rparr>)"
  using assms
  by (simp add: connectEstablished_def setState_def on_channel_def enableReading_def
      EventLoop_updateChannel_def Epollpoller_updateChannel_def Epollpoller_update_def
      demo_side_def demo_new_conn_def demo_up_conn_def demo_watch_def demo_conn_def demo_channel_def
      Channel_tie_def demo_kernel_def simple_epoll_ctl_def call_user_def quiet_app_def
      conn_view_def loop_as_def kNew_def kAdded_def Let_def)

text \<open>A connection is constructed and established.\<close>

lemma demo_add_reachable:
  assumes reach: "reachable shared_init (shared_step quiet_app) s" and p: "el_poller (sh_loop s) = Some p"
    and new: "i \<noteq> 0" "sh_conns s i = None" "interest p fd = None"
      "\<forall>j d. sh_conns s j = Some d \<longrightarrow> ch_fd (co_channel (sd_conn d)) \<noteq> fd"
  shows "reachable shared_init (shared_step quiet_app) (demo_add i fd s)"
proof -
  let ?c = "demo_side (demo_new_conn i fd)"
  let ?s = "s\<lparr>sh_conns := (sh_conns s)(i \<mapsto> ?c)\<rparr>"
  let ?w = "conn_view i (demo_side (demo_up_conn i fd)) ?s"
  let ?t = "?w\<lparr>w_loop := (w_loop ?w)\<lparr>el_poller := Some (demo_watch i fd p)\<rparr>\<rparr>"
  have "loop_entry (sh_loop s) fd = None" using p new(3) by (simp add: loop_entry_def)
  from joined [OF new(1,2) demo_new this new(4), of quiet_app "Some ()" None None None None]
  have "shared_step quiet_app s ?s"
    by (simp add: demo_side_def with_callbacks_def setConnectionCallback_def setMessageCallback_def
        setWriteCompleteCallback_def setHighWaterMarkCallback_def conn_setCloseCallback_def
        demo_new_conn_def demo_conn_def)
  then have 1: "reachable shared_init (shared_step quiet_app) ?s" by (rule reach_step [OF reach])
  have "connectEstablished demo_kernel quiet_app (el_thread (w_loop (conn_view i ?c ?s))) (conn_view i ?c ?s) = Inr ?t"
    by (rule demo_shared_established) (use p new(3) in simp_all)
  moreover have "co_state (w_conn (conn_view i ?c ?s)) = kConnecting"
    by (simp add: demo_side_def demo_new_conn_def demo_conn_def)
  ultimately have "conn_act demo_kernel quiet_app (conn_view i ?c ?s) ?t" by (rule act_establish [rotated])
  from acted [OF demo_kernel_doc _ _ this] have "shared_step quiet_app ?s (conn_effect i False ?t ?s)"
    by (simp add: demo_side_def)
  moreover have "conn_effect i False ?t ?s = demo_add i fd s"
    using p by (simp add: conn_effect_def demo_add_def conn_view_def loop_as_def demo_side_def Let_def)
  ultimately show ?thesis using reach_step [OF 1] by simp
qed

definition demo_pair :: "(unit, unit) shared" where
  "demo_pair = demo_add 4 9 (demo_add 3 7 demo_shared)"

lemma demo_one_reachable: "reachable shared_init (shared_step quiet_app) (demo_add 3 7 demo_shared)"
proof (rule demo_add_reachable [where p = empty_poller])
  show "reachable shared_init (shared_step quiet_app) demo_shared" by (rule reach_init) (rule demo_shared_init)
qed (simp_all add: demo_shared_def demo_loop_def empty_poller_def)

lemma demo_pair_reachable: "reachable shared_init (shared_step quiet_app) demo_pair"
  unfolding demo_pair_def
  by (rule demo_add_reachable [OF demo_one_reachable, where p = "demo_watch 3 7 empty_poller"])
    (simp_all add: demo_add_def demo_shared_def demo_loop_def empty_poller_def demo_watch_def demo_side_def
      demo_up_conn_def)

text \<open>The connection destroyed, as the server asks.\<close>

lemma demo_shared_destroyed:
  assumes "el_poller (sh_loop s) = Some (demo_watch i fd p)"
  shows "\<exists>ch p'. connectDestroyed demo_kernel quiet_app tid (conn_view i (demo_side (demo_up_conn i fd)) s) =
    Inr ((conn_view i (demo_side (demo_up_conn i fd)) s)
      \<lparr>w_conn := (demo_up_conn i fd)\<lparr>co_state := kDisconnected, co_channel := ch\<rparr>,
       w_loop := (w_loop (conn_view i (demo_side (demo_up_conn i fd)) s))\<lparr>el_poller := Some p'\<rparr>\<rparr>)"
  using assms
  by (simp add: connectDestroyed_def setState_def on_channel_def disableAll_def channel_remove_def
      EventLoop_updateChannel_def EventLoop_removeChannel_def Epollpoller_updateChannel_def
      Epollpoller_removeChannel_def Epollpoller_update_def isNoneEvent_def
      demo_side_def demo_new_conn_def demo_up_conn_def demo_watch_def demo_conn_def demo_channel_def
      demo_kernel_def simple_epoll_ctl_def call_user_def quiet_app_def conn_view_def loop_as_def
      kNew_def kAdded_def kDeleted_def Let_def)

definition demo_asked :: "(unit, unit) shared" where
  "demo_asked = (demo_add 3 7 demo_shared)\<lparr>sh_loop := queueInLoop simple_efd_write 0 (3, ConnectDestroyed)
     (sh_loop (demo_add 3 7 demo_shared))\<rparr>"

lemma demo_asked_fields:
  "el_pending (sh_loop demo_asked) = [(3, ConnectDestroyed)]" "el_efd (sh_loop demo_asked) = 1"
  "el_poller (sh_loop demo_asked) = Some (demo_watch 3 7 empty_poller)" "el_thread (sh_loop demo_asked) = 1"
  "sh_conns demo_asked = [3 \<mapsto> demo_side (demo_up_conn 3 7)]" "sh_strings demo_asked = [0 \<mapsto> ''hello'']"
  by (simp_all add: demo_asked_def demo_add_def demo_shared_def demo_loop_def queueInLoop_def push_functor_def
      isInLoopThread_def wakeup_def simple_efd_write_def loop_as_def)

lemma demo_asked_reachable: "reachable shared_init (shared_step quiet_app) demo_asked"
  unfolding demo_asked_def
  by (rule reach_step [OF demo_one_reachable], rule asked) (simp_all add: demo_add_def)

section \<open>Properties\<close>

text \<open>
  C12: Any number of connections on one loop keep what each promises, however their operations, their
  functors, the calls of other threads, new connections and deletions interleave, a thread that is
  overtaken by the closing of the connection between the test and the store of \<open>shutdown\<close> included.
  For every connection that has not been destroyed, the bytes on its wire and in its output buffer
  are those accepted, in order. As long as nobody has closed it, that is while its channel asks for
  reading, as it does whenever the connection is connected, it asks for writability exactly when
  output is pending, and the kernel reports what it asks for to its own channel; and the descriptor
  belongs to no other connection.
\<close>

theorem shared_connections:
  assumes "reachable shared_init (shared_step app) s" and "sh_conns s i = Some c" and "\<not> sd_gone c"
  shows "sd_wire c @ contents (OutputBuffer (sd_conn c)) = sd_accepted c \<and>
    (co_state (sd_conn c) = kConnected \<longrightarrow> isReading (co_channel (sd_conn c))) \<and>
    (isReading (co_channel (sd_conn c)) \<longrightarrow>
       (isWriting (co_channel (sd_conn c)) \<longleftrightarrow> contents (OutputBuffer (sd_conn c)) \<noteq> []) \<and>
       loop_entry (sh_loop s) (ch_fd (co_channel (sd_conn c))) = Some (ch_events (co_channel (sd_conn c)), i)) \<and>
    (\<forall>j d. sh_conns s j = Some d \<longrightarrow> j \<noteq> i \<longrightarrow> ch_fd (co_channel (sd_conn d)) \<noteq> ch_fd (co_channel (sd_conn c)))"
proof -
  have inv: "shared_inv s" using sl.reachable_inv [OF _ assms(1)] by simp
  with assms(2,3) have held: "held_inv (conn_view i c s)" by (simp add: shared_inv_def)
  have own: "co_id (sd_conn c) = i" "\<forall>j d. sh_conns s j = Some d \<longrightarrow> j \<noteq> i \<longrightarrow>
      ch_fd (co_channel (sd_conn d)) \<noteq> ch_fd (co_channel (sd_conn c))"
    using inv assms(2) by (simp_all add: shared_inv_def shared_base_def)
  show ?thesis
  proof (cases "conn_inv (conn_view i c s)")
    case w: True
    have "co_state (sd_conn c) = kConnected \<or> co_state (sd_conn c) = kDisconnecting" if "isReading (co_channel (sd_conn c))"
      using w that by (cases "co_state (sd_conn c)")
        (auto simp: conn_inv_def mode_inv_def isReading_def isNoneEvent_def Let_def)
    with own show ?thesis
      using conn_inv_accepted [OF w] conn_inv_up(1,2) [OF w] conn_inv_entry_own [OF w] by auto
  next
    case False
    with held have "late_inv (conn_view i c s)" by (simp add: held_inv_def)
    with own show ?thesis by (auto simp: late_inv_def late_base_def)
  qed
qed

theorem shared_connections_witness:
  "\<exists>s :: (unit, unit) shared. reachable shared_init (shared_step quiet_app) s \<and> dom (sh_conns s) = {3, 4} \<and>
    loop_entry (sh_loop s) 7 = Some (3, 3) \<and> loop_entry (sh_loop s) 9 = Some (3, 4)"
proof -
  have 3: "sh_conns demo_pair 3 = Some (demo_side (demo_up_conn 3 7))"
    and 4: "sh_conns demo_pair 4 = Some (demo_side (demo_up_conn 4 9))"
    by (simp_all add: demo_pair_def demo_add_def)
  have "loop_entry (sh_loop demo_pair) 7 = Some (3, 3)"
    using shared_connections [OF demo_pair_reachable 3] by (simp add: demo_side_def demo_up_conn_def)
  moreover have "loop_entry (sh_loop demo_pair) 9 = Some (3, 4)"
    using shared_connections [OF demo_pair_reachable 4] by (simp add: demo_side_def demo_up_conn_def)
  moreover have "dom (sh_conns demo_pair) = {3, 4}"
    by (auto simp: demo_pair_def demo_add_def demo_shared_def)
  ultimately show ?thesis using demo_pair_reachable by blast
qed

text \<open>
  C25: A send from another thread can outlive its connection: the functor of \<open>sendInLoop\<close> is bound with
  \<open>this\<close> and holds no reference. If the connection is destroyed between the test of its state and
  the queueing, and deleted before the loop's next pass, the functor calls a member of a deleted
  object; the string it sends is still there. The state is reachable.
\<close>

theorem send_outlives_connection:
  "\<exists>s :: (unit, unit) shared. reachable shared_init (shared_step quiet_app) s \<and> sh_conns s 3 = None \<and>
    el_pending (sh_loop s) = [(3, SendInLoop 0 5)] \<and> sh_strings s 0 = Some ''hello'' \<and>
    doPendingFunctors (shared_host demo_kernel quiet_app (el_thread (sh_loop s))) s = Inl Use_after_free"
proof -
  let ?c = "demo_side (demo_up_conn 3 7)"
  let ?s = "demo_asked\<lparr>sh_loop := (sh_loop demo_asked)\<lparr>el_pending := []\<rparr>\<rparr>"
  obtain ch p' where d: "connectDestroyed demo_kernel quiet_app 1 (conn_view 3 ?c ?s) =
    Inr ((conn_view 3 ?c ?s)\<lparr>w_conn := (demo_up_conn 3 7)\<lparr>co_state := kDisconnected, co_channel := ch\<rparr>,
       w_loop := (w_loop (conn_view 3 ?c ?s))\<lparr>el_poller := Some p'\<rparr>\<rparr>)" (is "_ = Inr ?t")
    using demo_shared_destroyed [of ?s 3 7 empty_poller 1] by (auto simp: demo_asked_fields)
  define u where "u = retire 3 (conn_effect 3 False ?t ?s)"
  define v where "v = u\<lparr>sh_loop := queueInLoop simple_efd_write 2 (3, SendInLoop 0 (of_nat (length ''hello''))) (sh_loop u)\<rparr>"
  have conns: "sh_conns ?s 3 = Some ?c" "el_thread (sh_loop demo_asked) = 1" "sd_gone ?c = False"
    by (simp_all add: demo_asked_fields demo_side_def)
  have "shared_step quiet_app demo_asked u"
  proof (rule performed [where c = ?c and fs = "[]", OF demo_kernel_doc])
    show "shared_task demo_kernel quiet_app (el_thread (sh_loop demo_asked)) (3, ConnectDestroyed) ?s = Inr u"
      by (simp only: shared_task_def on_conn_def prod.case conns option.case run_task.simps d rbind_simps
          simp_thms if_True u_def)
  qed (simp_all add: demo_asked_fields demo_side_def demo_up_conn_def demo_new_conn_def)
  then have 1: "reachable shared_init (shared_step quiet_app) u" by (rule reach_step [OF demo_asked_reachable])
  have u: "el_pending (sh_loop u) = []" "sh_strings u 0 = Some ''hello''" "\<exists>c. sh_conns u 3 = Some c \<and> sd_gone c"
    by (simp_all add: u_def retire_def conn_effect_def demo_asked_fields Let_def)
  have "shared_step quiet_app u v" unfolding v_def by (rule sent_late) (use u in auto)
  then have 2: "reachable shared_init (shared_step quiet_app) v" by (rule reach_step [OF 1])
  have v: "el_pending (sh_loop v) = [(3, SendInLoop 0 5)]" "sh_strings v 0 = Some ''hello''"
    "\<exists>c. sh_conns v 3 = Some c \<and> sd_gone c" using u by (simp_all add: v_def)
  then obtain c where "sh_conns v 3 = Some c" "sd_gone c" by blast
  then have "shared_step quiet_app v (v\<lparr>sh_conns := (sh_conns v)(3 := None)\<rparr>)"
    by (rule deleted) (simp add: v)
  from reach_step [OF 2 this] v show ?thesis
    by (intro exI [of _ "v\<lparr>sh_conns := (sh_conns v)(3 := None)\<rparr>"])
      (simp add: doPendingFunctors_def shared_host_def shared_task_def on_conn_def)
qed

end
