(* ===== verification/Threads.thy ===== *)
theory Threads
  imports Net_Prelude
begin

text \<open>
  Threads: the cached thread number of \<open>include/net/CurrentThread.h\<close> and
  \<open>src/base/CurrentThread.cc\<close>, and the wrapper of \<open>include/net/Thread.h\<close> and
  \<open>src/net/Thread.cc\<close> around a \<open>std::thread\<close>.
\<close>

section \<open>The number of the current thread\<close>

text \<open>\<open>cached\<close> is the thread's \<open>t_cachedTid\<close>, \<open>gettid\<close> what the system call answers in it.\<close>

definition cacheTid :: "int \<Rightarrow> int \<Rightarrow> int" where
  "cacheTid gettid cached = (if cached = 0 then gettid else cached)"

text \<open>\<open>tid\<close> returns the number and leaves the cache.\<close>

definition CurrentThread_tid :: "int \<Rightarrow> int \<Rightarrow> int \<times> int" where
  "CurrentThread_tid gettid cached =
     (let cached' = (if cached = 0 then cacheTid gettid cached else cached) in (cached', cached'))"

lemma CurrentThread_tid_cached:
  assumes "gettid \<noteq> 0" and "CurrentThread_tid gettid 0 = (t, c)"
  shows "t = gettid \<and> CurrentThread_tid gettid' c = (gettid, c)"
  using assms by (auto simp: CurrentThread_tid_def cacheTid_def Let_def)

section \<open>The wrapper\<close>

text \<open>
  A \<open>std::thread\<close>: joinable, or no longer, having been joined or detached. The member
  \<open>thread_\<close> is a shared pointer, null before \<open>start\<close>.
\<close>

datatype std_thread = Joinable | Joined | Detached

record Thread =
  th_started :: bool
  th_joined :: bool
  th_thread :: "std_thread option"
  th_tid :: int
  th_name :: string

text \<open>
  \<open>num\<close> is \<open>numCreated_\<close>, which every construction increments; an empty name becomes
  \<open>Thread\<close> and the number, a blank and a line end, cut to the 32-byte buffer.
\<close>

definition setDefaultName :: "nat \<Rightarrow> Thread \<Rightarrow> Thread \<times> nat" where
  "setDefaultName num t =
     (let n = Suc num in
      (if th_name t = [] then t\<lparr>th_name := take 31 (''Thread'' @ show_nat n @ '' '' @ [CHR 0x0A])\<rparr>
       else t, n))"

definition Thread_new :: "string \<Rightarrow> nat \<Rightarrow> Thread \<times> nat" where
  "Thread_new name num =
     setDefaultName num
       \<lparr>th_started = False, th_joined = False, th_thread = None, th_tid = 0, th_name = name\<rparr>"

text \<open>
  Dropping a \<open>std::thread\<close> that is still joinable terminates the process: \<open>start\<close> does so when
  it replaces the pointer of a thread that was started before.
\<close>

definition drop_thread :: "std_thread option \<Rightarrow> unit result" where
  "drop_thread t = (if t = Some Joinable then Inl Terminated else Inr ())"

text \<open>
  \<open>start\<close> returns when the new thread has stored its number and posted the semaphore; \<open>gettid\<close>
  is what the system call answers in the new thread, whose cache is empty.
\<close>

definition Thread_start :: "int \<Rightarrow> Thread \<Rightarrow> Thread result" where
  "Thread_start gettid t =
     rbind (drop_thread (th_thread t)) (\<lambda>_.
     Inr (t\<lparr>th_started := True, th_thread := Some Joinable,
           th_tid := fst (CurrentThread_tid gettid 0)\<rparr>))"

definition Thread_join :: "Thread \<Rightarrow> Thread result" where
  "Thread_join t =
     (case th_thread t of
        None \<Rightarrow> Inl Null_dereference
      | Some Joinable \<Rightarrow> Inr (t\<lparr>th_joined := True, th_thread := Some Joined\<rparr>)
      | Some _ \<Rightarrow> Inl System_error)"

text \<open>The destructor: detaches a started thread that was not joined, then drops the pointer.\<close>

definition Thread_delete :: "Thread \<Rightarrow> Thread result" where
  "Thread_delete t =
     rbind (if th_started t \<and> \<not> th_joined t then
              (case th_thread t of
                 None \<Rightarrow> Inl Null_dereference
               | Some Joinable \<Rightarrow> Inr (t\<lparr>th_thread := Some Detached\<rparr>)
               | Some _ \<Rightarrow> Inl System_error)
            else Inr t) (\<lambda>t1.
     rbind (drop_thread (th_thread t1)) (\<lambda>_. Inr (t1\<lparr>th_thread := None\<rparr>)))"

definition thread_started :: "Thread \<Rightarrow> bool" where
  "thread_started t = th_started t"

definition thread_tid :: "Thread \<Rightarrow> int" where
  "thread_tid t = th_tid t"

definition thread_name :: "Thread \<Rightarrow> string" where
  "thread_name t = th_name t"

text \<open>After \<open>start\<close> the number of the thread is there, since it waits for the semaphore.\<close>

lemma Thread_start_get:
  "Thread_start gettid t = Inr t' \<Longrightarrow> thread_started t' \<and> thread_tid t' = gettid \<and> thread_name t' = thread_name t"
  by (auto simp: Thread_start_def CurrentThread_tid_def cacheTid_def rbind_Inr_iff thread_started_def
      thread_tid_def thread_name_def)

section \<open>The life of a thread object\<close>

datatype thread_call = Start int | Join

fun thread_calls :: "thread_call list \<Rightarrow> Thread \<Rightarrow> Thread result" where
  "thread_calls [] t = Inr t"
| "thread_calls (Start g # cs) t = rbind (Thread_start g t) (thread_calls cs)"
| "thread_calls (Join # cs) t = rbind (Thread_join t) (thread_calls cs)"

text \<open>What the flags say of the \<open>std::thread\<close>.\<close>

definition thread_inv :: "Thread \<Rightarrow> bool" where
  "thread_inv t \<longleftrightarrow>
     (th_thread t = None \<longleftrightarrow> \<not> th_started t) \<and> th_thread t \<noteq> Some Detached \<and>
     (th_thread t = Some Joined \<longrightarrow> th_joined t) \<and> (th_joined t \<longrightarrow> th_started t)"

lemma thread_new_inv: "thread_inv (fst (Thread_new name num))"
  by (simp add: Thread_new_def setDefaultName_def Let_def thread_inv_def)

lemma thread_calls_inv: "thread_calls cs t = Inr t' \<Longrightarrow> thread_inv t \<Longrightarrow> thread_inv t'"
proof (induction cs t rule: thread_calls.induct)
  case (2 g cs t)
  then show ?case
    by (auto simp: rbind_Inr_iff Thread_start_def drop_thread_def thread_inv_def split: if_splits)
next
  case (3 cs t)
  then show ?case
    by (auto simp: rbind_Inr_iff Thread_join_def thread_inv_def split: option.splits std_thread.splits)
qed simp

text \<open>
  A thread that is joined, and started again afterwards, keeps its \<open>joined_\<close> flag, so that its
  destructor does not detach the second \<open>std::thread\<close> and the process is terminated.
\<close>

lemma restart_terminates:
  "rbind (thread_calls [Start 7, Join, Start 8] (fst (Thread_new name num))) Thread_delete = Inl Terminated"
  by (simp add: Thread_start_def Thread_join_def Thread_delete_def drop_thread_def Thread_new_def
      setDefaultName_def Let_def)

section \<open>Properties\<close>

text \<open>
  A thread object that is started at most once can be destroyed at any point: whatever calls of
  \<open>start\<close> and \<open>join\<close> succeeded on it, its destructor returns, and a thread that was started and not
  joined is detached. In particular a thread that was never started is destroyed without touching
  the null pointer.
\<close>

theorem thread_destructible:
  assumes "thread_calls cs (fst (Thread_new name num)) = Inr t"
    and "length (filter (\<lambda>c. c \<noteq> Join) cs) \<le> 1"
  shows "\<exists>t'. Thread_delete t = Inr t' \<and> th_thread t' = None \<and>
    (th_started t \<longleftrightarrow> filter (\<lambda>c. c \<noteq> Join) cs \<noteq> []) \<and> (th_joined t \<longleftrightarrow> Join \<in> set cs)"
proof -
  have gen: "(th_started t \<longleftrightarrow> th_started u \<or> filter (\<lambda>c. c \<noteq> Join) cs \<noteq> []) \<and>
      (th_joined t \<longleftrightarrow> th_joined u \<or> Join \<in> set cs) \<and> (th_thread t = Some Joinable \<longrightarrow> \<not> th_joined t)"
    if "thread_calls cs u = Inr t" "thread_inv u" "th_thread u = Some Joinable \<longrightarrow> \<not> th_joined u"
      "length (filter (\<lambda>c. c \<noteq> Join) cs) \<le> (if th_started u then 0 else 1)" for u
    using that
  proof (induction cs u rule: thread_calls.induct)
    case (2 g cs u)
    from "2.prems"(1) obtain v where v: "Thread_start g u = Inr v" "thread_calls cs v = Inr t"
      by (auto simp: rbind_Inr_iff)
    then have e: "th_started v" "th_thread v = Some Joinable" "th_joined v = th_joined u" "thread_inv v"
      using "2.prems"(2) by (auto simp: Thread_start_def rbind_Inr_iff thread_inv_def)
    have u: "\<not> th_started u" "filter (\<lambda>c. c \<noteq> Join) cs = []"
      using "2.prems"(4) by (auto split: if_splits)
    then have "\<not> th_joined u" using "2.prems"(2) by (simp add: thread_inv_def)
    with "2.IH" [OF v(2) e(4)] e u show ?case by auto
  next
    case (3 cs u)
    from "3.prems"(1) obtain v where v: "Thread_join u = Inr v" "thread_calls cs v = Inr t"
      by (auto simp: rbind_Inr_iff)
    then have "v = u\<lparr>th_joined := True, th_thread := Some Joined\<rparr>" "th_thread u = Some Joinable"
      by (auto simp: Thread_join_def split: option.splits std_thread.splits)
    then have e: "th_started v" "th_thread v = Some Joined" "th_joined v" "thread_inv v" "th_started u"
      using "3.prems"(2) by (auto simp: thread_inv_def)
    with "3.IH" [OF v(2) e(4)] "3.prems"(4) show ?case by auto
  qed auto
  let ?u = "fst (Thread_new name num)"
  have u: "\<not> th_started ?u" "\<not> th_joined ?u" "th_thread ?u = None"
    by (simp_all add: Thread_new_def setDefaultName_def Let_def)
  have g: "(th_started t \<longleftrightarrow> filter (\<lambda>c. c \<noteq> Join) cs \<noteq> []) \<and> (th_joined t \<longleftrightarrow> Join \<in> set cs) \<and>
      (th_thread t = Some Joinable \<longrightarrow> \<not> th_joined t)"
    using gen [OF assms(1) thread_new_inv] u assms(2) by auto
  moreover have "thread_inv t" by (rule thread_calls_inv [OF assms(1) thread_new_inv])
  ultimately show ?thesis
    by (auto simp: Thread_delete_def drop_thread_def thread_inv_def split: option.splits std_thread.splits)
qed

theorem thread_destructible_witness:
  "\<exists>t t'. thread_calls [Start 99] (fst (Thread_new [] 4)) = Inr t \<and> th_tid t = 99 \<and>
    th_name t = ''Thread5 '' @ [CHR 0x0A] \<and> Thread_delete t = Inr t'"
proof -
  let ?u = "fst (Thread_new [] 4)"
  let ?t = "?u\<lparr>th_started := True, th_thread := Some Joinable, th_tid := 99\<rparr>"
  have "char_of (53 :: nat) = CHR ''5''" by code_simp
  then have d: "show_nat 5 = ''5''" by (subst show_nat.simps) (simp add: digit_char_def)
  have u: "th_name ?u = ''Thread5 '' @ [CHR 0x0A]" "th_thread ?u = None"
    by (simp_all add: Thread_new_def setDefaultName_def Let_def d)
  have t: "thread_calls [Start 99] ?u = Inr ?t"
    using u(2) by (simp add: Thread_start_def drop_thread_def CurrentThread_tid_def cacheTid_def)
  have n: "th_tid ?t = 99" "th_name ?t = ''Thread5 '' @ [CHR 0x0A]" using u(1) by simp_all
  have "length (filter (\<lambda>c. c \<noteq> Join) [Start 99]) \<le> 1" by simp
  from thread_destructible [OF t this] t n show ?thesis by blast
qed

end
