(* ===== verification/LoopThreads.thy ===== *)
theory LoopThreads
  imports EventLoop Threads
begin

text \<open>
  A thread with a loop of its own: \<open>include/net/EventLoopThread.h\<close> and
  \<open>src/net/EventLoopThread.cc\<close>. The owner starts the thread and waits until the thread has
  published the address of its loop; the destructor asks the loop to quit and joins.
\<close>

section \<open>State\<close>

text \<open>
  Where the owner is: before \<open>startloop\<close>, about to test \<open>loop_\<close> under the lock, blocked on the
  condition variable, returned from \<open>startloop\<close>, in the destructor about to call \<open>quit\<close>,
  joining, or done. Where the thread is: not started, about to construct its loop, about to call
  the init callback, to publish the loop, to enter it, in it, about to clear the pointer, or ended.
\<close>

datatype owner_pc = S_none | S_check | S_wait | S_done | S_quit | S_join | S_gone
datatype child_pc = C_none | C_create | C_callback | C_publish | C_enter | C_loop | C_clear | C_ended

text \<open>
  \<open>et_loop\<close> says that \<open>loop_\<close> is not null; \<open>et_evloop\<close> is the local object of \<open>threadFunc\<close> while
  it lives. The histories \<open>et_called\<close> and \<open>et_asked\<close> record that the thread has passed the init
  callback and that somebody has called \<open>quit\<close> on the loop.
\<close>

record ('f, 'cb) loop_thread =
  et_loop :: bool
  et_exiting :: bool
  et_thread :: Thread
  et_evloop :: "('f, 'cb) evloop option"
  et_owner :: owner_pc
  et_child :: child_pc
  et_called :: bool
  et_asked :: bool

definition EventLoopThread_new :: "string \<Rightarrow> nat \<Rightarrow> ('f, 'cb) loop_thread \<times> nat" where
  "EventLoopThread_new name num =
     (let r = Thread_new name num in
      (\<lparr>et_loop = False, et_exiting = False, et_thread = fst r, et_evloop = None, et_owner = S_none,
        et_child = C_none, et_called = False, et_asked = False\<rparr>, snd r))"

section \<open>Operations\<close>

text \<open>The test of \<open>startloop\<close> under the lock; a null pointer blocks and releases the lock.\<close>

definition startloop_test :: "('f, 'cb) loop_thread \<Rightarrow> ('f, 'cb) loop_thread" where
  "startloop_test s = s\<lparr>et_owner := (if et_loop s then S_done else S_wait)\<rparr>"

text \<open>What \<open>threadFunc\<close> does under the lock before and after the loop.\<close>

definition publish_loop :: "('f, 'cb) loop_thread \<Rightarrow> ('f, 'cb) loop_thread" where
  "publish_loop s = s\<lparr>et_loop := True, et_child := C_enter,
     et_owner := (if et_owner s = S_wait then S_check else et_owner s)\<rparr>"

definition clear_loop :: "('f, 'cb) loop_thread \<Rightarrow> ('f, 'cb) loop_thread" where
  "clear_loop s = s\<lparr>et_loop := False, et_evloop := None, et_child := C_ended\<rparr>"

definition on_evloop ::
  "(('f, 'cb) evloop \<Rightarrow> ('f, 'cb) evloop) \<Rightarrow> ('f, 'cb) loop_thread \<Rightarrow> ('f, 'cb) loop_thread" where
  "on_evloop f s = s\<lparr>et_evloop := map_option f (et_evloop s)\<rparr>"

text \<open>The destructor up to the test of the pointer.\<close>

definition delete_test :: "('f, 'cb) loop_thread \<Rightarrow> ('f, 'cb) loop_thread" where
  "delete_test s = s\<lparr>et_exiting := True, et_owner := (if et_loop s then S_quit else S_gone)\<rparr>"

section \<open>Steps\<close>

text \<open>The steps of the owner and of the thread; \<open>w\<close> is \<open>write\<close> on the eventfd.\<close>

inductive elt_own ::
  "efd_write_fn \<Rightarrow> ('f, 'cb) loop_thread \<Rightarrow> ('f, 'cb) loop_thread \<Rightarrow> bool"
  for w :: efd_write_fn where
  owner_start:
    "et_owner s = S_none \<Longrightarrow> Thread_start g (et_thread s) = Inr t \<Longrightarrow>
     elt_own w s (s\<lparr>et_thread := t, et_owner := S_check, et_child := C_create\<rparr>)"
| owner_test:
    "et_owner s = S_check \<Longrightarrow> elt_own w s (startloop_test s)"
| owner_delete:
    "et_owner s \<in> {S_none, S_done} \<Longrightarrow> elt_own w s (delete_test s)"
| owner_quit:
    "et_owner s = S_quit \<Longrightarrow> et_evloop s \<noteq> None \<Longrightarrow>
     elt_own w s (on_evloop (EventLoop_quit w tid) (s\<lparr>et_owner := S_join, et_asked := True\<rparr>))"
| owner_join:
    "et_owner s = S_join \<Longrightarrow> et_child s = C_ended \<Longrightarrow> Thread_join (et_thread s) = Inr t \<Longrightarrow>
     elt_own w s (s\<lparr>et_thread := t, et_owner := S_gone\<rparr>)"
| child_create:
    "et_child s = C_create \<Longrightarrow>
     EventLoop_new use_poll ec ef k cb self (nat (th_tid (et_thread s))) None = Inr (l, t_loop) \<Longrightarrow>
     elt_own w s (s\<lparr>et_evloop := Some l, et_child := C_callback\<rparr>)"
| child_callback:
    "et_child s = C_callback \<Longrightarrow>
     elt_own w s (on_evloop (fold (queueInLoop w tid) fs) (s\<lparr>et_child := C_publish, et_called := True\<rparr>))"
| child_publish:
    "et_child s = C_publish \<Longrightarrow> elt_own w s (publish_loop s)"
| child_enter:
    "et_child s = C_enter \<Longrightarrow>
     elt_own w s (on_evloop (\<lambda>l. l\<lparr>el_looping := True, el_quit := False\<rparr>) (s\<lparr>et_child := C_loop\<rparr>))"
| child_leave:
    "et_child s = C_loop \<Longrightarrow> et_evloop s = Some l \<Longrightarrow> el_quit l \<Longrightarrow>
     elt_own w s (on_evloop (\<lambda>l. l\<lparr>el_looping := False\<rparr>) (s\<lparr>et_child := C_clear\<rparr>))"
| child_clear:
    "et_child s = C_clear \<Longrightarrow> elt_own w s (clear_loop s)"

text \<open>Steps of others: a spurious wakeup, and somebody who has the loop calls \<open>quit\<close> on it.\<close>

inductive elt_env ::
  "efd_write_fn \<Rightarrow> ('f, 'cb) loop_thread \<Rightarrow> ('f, 'cb) loop_thread \<Rightarrow> bool"
  for w :: efd_write_fn where
  env_spurious:
    "et_owner s = S_wait \<Longrightarrow> elt_env w s (s\<lparr>et_owner := S_check\<rparr>)"
| env_quit:
    "et_evloop s \<noteq> None \<Longrightarrow> elt_env w s (on_evloop (EventLoop_quit w tid) (s\<lparr>et_asked := True\<rparr>))"

definition elt_step ::
  "efd_write_fn \<Rightarrow> ('f, 'cb) loop_thread \<Rightarrow> ('f, 'cb) loop_thread \<Rightarrow> bool" where
  "elt_step w s t \<longleftrightarrow> elt_own w s t \<or> elt_env w s t"

definition elt_init :: "('f, 'cb) loop_thread \<Rightarrow> bool" where
  "elt_init s \<longleftrightarrow> (\<exists>name num. s = fst (EventLoopThread_new name num))"

section \<open>The invariant\<close>

definition elt_inv :: "('f, 'cb) loop_thread \<Rightarrow> bool" where
  "elt_inv s \<longleftrightarrow>
     (et_evloop s \<noteq> None \<longleftrightarrow> et_child s \<in> {C_callback, C_publish, C_enter, C_loop, C_clear}) \<and>
     (et_loop s \<longleftrightarrow> et_child s \<in> {C_enter, C_loop, C_clear}) \<and>
     (et_called s \<longleftrightarrow> et_child s \<in> {C_publish, C_enter, C_loop, C_clear, C_ended}) \<and>
     (et_owner s = S_none \<longrightarrow> et_child s = C_none) \<and>
     (et_child s = C_none \<longrightarrow> et_owner s \<in> {S_none, S_gone}) \<and>
     (et_owner s = S_wait \<longrightarrow> et_child s \<in> {C_create, C_callback, C_publish, C_ended}) \<and>
     (et_owner s \<in> {S_done, S_quit, S_join} \<longrightarrow> et_child s \<in> {C_enter, C_loop, C_clear, C_ended}) \<and>
     (\<not> et_asked s \<longrightarrow> et_child s \<notin> {C_clear, C_ended} \<and>
        (\<forall>l. et_evloop s = Some l \<longrightarrow> \<not> el_quit l))"

lemma on_evloop_simps [simp]:
  "et_loop (on_evloop f s) = et_loop s" "et_owner (on_evloop f s) = et_owner s"
  "et_child (on_evloop f s) = et_child s" "et_called (on_evloop f s) = et_called s"
  "et_asked (on_evloop f s) = et_asked s" "et_thread (on_evloop f s) = et_thread s"
  "et_evloop (on_evloop f s) = map_option f (et_evloop s)"
  by (simp_all add: on_evloop_def)

lemma fold_queue_quit [simp]: "el_quit (fold (queueInLoop w tid) fs l) = el_quit l"
  by (induction fs arbitrary: l) auto

lemma new_loop_not_quit:
  assumes "EventLoop_new use_poll ec ef k cb self tid t_loop = Inr (l, t)"
  shows "\<not> el_quit l"
  using assms loop_update_frame(4)
  by (fastforce simp: EventLoop_new_def rbind_Inr_iff Let_def enableReading_def split: if_splits)

lemma elt_own_inv: "elt_own w s t \<Longrightarrow> elt_inv s \<Longrightarrow> elt_inv t"
proof (induction rule: elt_own.induct)
  case (child_create s use_poll ec ef k cb self l t_loop)
  with new_loop_not_quit [OF child_create.hyps(2)] show ?case by (auto simp: elt_inv_def)
next
  case (owner_test s)
  then show ?case by (cases "et_child s") (simp_all add: elt_inv_def startloop_test_def)
qed (auto simp: elt_inv_def startloop_test_def delete_test_def publish_loop_def clear_loop_def)

lemma elt_env_inv: "elt_env w s t \<Longrightarrow> elt_inv s \<Longrightarrow> elt_inv t"
  by (induction rule: elt_env.induct) (auto simp: elt_inv_def)

lemma elt_init_inv: "elt_init s \<Longrightarrow> elt_inv s"
  by (auto simp: elt_init_def EventLoopThread_new_def elt_inv_def Let_def)

interpretation et: invariant_machine "\<lambda>_ :: efd_write_fn. True" elt_init elt_step elt_inv
  by unfold_locales (auto simp: elt_step_def intro: elt_init_inv elt_own_inv elt_env_inv)

text \<open>A thread whose owner has asked its loop to quit while it was in the loop is joined.\<close>

lemma quit_joins:
  assumes "et_owner s = S_join" and "et_child s = C_loop" and "et_evloop s = Some l" and "el_quit l"
    and "th_thread (et_thread s) = Some Joinable"
  shows "\<exists>ts t. is_run (elt_own w) s (ts @ [t]) \<and> et_owner t = S_gone \<and>
    th_thread (et_thread t) = Some Joined"
proof -
  let ?a = "on_evloop (\<lambda>l. l\<lparr>el_looping := False\<rparr>) (s\<lparr>et_child := C_clear\<rparr>)"
  let ?b = "clear_loop ?a"
  let ?c = "?b\<lparr>et_thread := (et_thread s)\<lparr>th_joined := True, th_thread := Some Joined\<rparr>, et_owner := S_gone\<rparr>"
  have "elt_own w s ?a" by (rule child_leave [OF assms(2-4)])
  moreover have "elt_own w ?a ?b" by (rule child_clear) simp
  moreover have "elt_own w ?b ?c"
    by (rule owner_join) (use assms in \<open>simp_all add: clear_loop_def Thread_join_def\<close>)
  ultimately show ?thesis by (intro exI [of _ "[?a, ?b]"] exI [of _ ?c]) simp
qed

section \<open>Runs\<close>

definition thread_start :: "(nat, unit) loop_thread" where
  "thread_start = fst (EventLoopThread_new ''io'' 0)"

lemma thread_start_reachable: "reachable elt_init step thread_start"
  by (rule reach_init) (auto simp: elt_init_def thread_start_def)

lemma some_loop:
  "\<exists>l t. EventLoop_new False (Inr 4) (Inr 5) (simple_epoll_ctl, 9) () 9 tid None
     = Inr (l :: (nat, unit) evloop, t)"
  by (simp add: EventLoop_new_def newDefaultPoller_def Epollpoller_new_def creatEventfd_def Let_def
      enableReading_def EventLoop_updateChannel_def Epollpoller_updateChannel_def
      Epollpoller_update_def simple_epoll_ctl_def Channel_new_def kNew_def kReadEvent_def
      setReadCallback_def)

text \<open>The run in which \<open>startloop\<close> returns, ending before the thread enters its loop.\<close>

lemma started_reachable:
  "\<exists>s :: (nat, unit) loop_thread. reachable elt_init (elt_step w) s \<and> et_owner s = S_done \<and>
    et_child s = C_enter \<and> et_loop s \<and> et_evloop s \<noteq> None \<and> th_thread (et_thread s) = Some Joinable \<and>
    \<not> et_asked s"
proof -
  let ?t = "(et_thread thread_start)\<lparr>th_started := True, th_thread := Some Joinable, th_tid := 77\<rparr>"
  let ?a = "thread_start\<lparr>et_thread := ?t, et_owner := S_check, et_child := C_create\<rparr>"
  obtain l u where l: "EventLoop_new False (Inr 4) (Inr 5) (simple_epoll_ctl, 9) () 9
    (nat (th_tid (et_thread ?a))) None = Inr (l :: (nat, unit) evloop, u)"
    using some_loop by blast
  let ?b = "?a\<lparr>et_evloop := Some l, et_child := C_callback\<rparr>"
  let ?c = "on_evloop (fold (queueInLoop w 0) []) (?b\<lparr>et_child := C_publish, et_called := True\<rparr>)"
  let ?d = "publish_loop ?c"
  let ?e = "startloop_test ?d"
  have "elt_own w thread_start ?a"
    by (rule owner_start [of _ 77]) (simp_all add: thread_start_def EventLoopThread_new_def Let_def
      Thread_new_def setDefaultName_def Thread_start_def drop_thread_def CurrentThread_tid_def cacheTid_def)
  moreover have "elt_own w ?a ?b" by (rule child_create [OF _ l]) simp
  moreover have "elt_own w ?b ?c" by (rule child_callback) simp
  moreover have "elt_own w ?c ?d" by (rule child_publish) simp
  moreover have "elt_own w ?d ?e" by (rule owner_test) (simp add: publish_loop_def)
  ultimately have "is_run (elt_step w) thread_start [?a, ?b, ?c, ?d, ?e]" by (simp add: elt_step_def)
  then have "reachable elt_init (elt_step w) ?e"
    by (rule reachable_run [OF thread_start_reachable]) simp
  moreover have "et_owner ?e = S_done" "et_child ?e = C_enter" "et_loop ?e" "et_evloop ?e \<noteq> None"
    "th_thread (et_thread ?e) = Some Joinable" "\<not> et_asked ?e"
    by (simp_all add: startloop_test_def publish_loop_def thread_start_def EventLoopThread_new_def
        Let_def)
  ultimately show ?thesis by blast
qed

section \<open>Properties\<close>

text \<open>
  C16: The start of a loop thread loses no notification: as long as nobody has asked the loop to
  quit, an owner that waits in \<open>startloop\<close> waits for a thread that has yet to publish its loop,
  and when \<open>startloop\<close> has returned, the pointer it returned is that of a loop that is alive and
  whose init callback has been called.
\<close>

theorem startloop_handshake:
  assumes "reachable elt_init (elt_step w) s" and "\<not> et_asked s"
  shows "(et_owner s = S_wait \<longrightarrow> et_child s \<in> {C_create, C_callback, C_publish}) \<and>
    (et_owner s = S_done \<longrightarrow> et_loop s \<and> et_evloop s \<noteq> None \<and> et_called s)"
  using et.reachable_inv [OF _ assms(1)] assms(2) by (auto simp: elt_inv_def)

theorem startloop_handshake_witness:
  "\<exists>s :: (nat, unit) loop_thread. et_owner s = S_done \<and> et_called s \<and> et_evloop s \<noteq> None"
proof -
  obtain s :: "(nat, unit) loop_thread" where
    s: "reachable elt_init (elt_step simple_efd_write) s" "et_owner s = S_done" "\<not> et_asked s"
    using started_reachable by blast
  from startloop_handshake [OF s(1,3)] s(2) show ?thesis by blast
qed

text \<open>
  C29: A quit that comes too early is lost: if the destructor of a loop thread calls \<open>quit\<close> after the
  loop was published and before the thread enters it, \<open>loop()\<close> resets the flag, and the owner
  waits in \<open>join\<close> for a thread that stays in its loop: neither can make a step.
\<close>

theorem early_quit_hangs:
  "\<exists>s :: (nat, unit) loop_thread. reachable elt_init (elt_step w) s \<and> et_owner s = S_join \<and>
    et_child s = C_loop \<and> (\<nexists>t. elt_own w s t)"
proof -
  obtain s :: "(nat, unit) loop_thread" where s: "reachable elt_init (elt_step w) s"
    "et_owner s = S_done" "et_child s = C_enter" "et_loop s" "et_evloop s \<noteq> None"
    using started_reachable by blast
  then obtain l where l: "et_evloop s = Some l" by auto
  let ?a = "delete_test s"
  let ?b = "on_evloop (EventLoop_quit w 1) (?a\<lparr>et_owner := S_join, et_asked := True\<rparr>)"
  let ?c = "on_evloop (\<lambda>l. l\<lparr>el_looping := True, el_quit := False\<rparr>) (?b\<lparr>et_child := C_loop\<rparr>)"
  have "elt_own w s ?a" by (rule owner_delete) (simp add: s(2))
  moreover have "elt_own w ?a ?b"
    by (rule owner_quit) (simp_all add: delete_test_def s(4,5))
  moreover have "elt_own w ?b ?c" by (rule child_enter) (simp add: delete_test_def s(3))
  ultimately have "is_run (elt_step w) s [?a, ?b, ?c]" by (simp add: elt_step_def)
  then have "reachable elt_init (elt_step w) ?c" by (rule reachable_run [OF s(1)]) simp
  moreover have c: "et_owner ?c = S_join" "et_child ?c = C_loop" "\<And>l. et_evloop ?c = Some l \<Longrightarrow> \<not> el_quit l"
    by (auto simp: delete_test_def)
  moreover have "\<not> elt_own w ?c t" for t
    by (rule notI, cases rule: elt_own.cases [where ?a1.0 = ?c and ?a2.0 = t], assumption)
      (auto simp: delete_test_def s(2-5) l)
  ultimately show ?thesis by blast
qed

end
