(* ===== verification/Timestamps.thy ===== *)
theory Timestamps
  imports Net_Prelude
begin

text \<open>
  Points in time: \<open>include/net/Timestamp.h\<close> and \<open>src/net/Timestamp.cc\<close>. The 64-bit member is
  named for microseconds but holds what \<open>time(2)\<close> answers, seconds. \<open>localtime\<close> is a parameter.
\<close>

type_synonym int64 = "64 word"

record Timestamp =
  microSecondsSinceEpoch :: int64

definition Timestamp_new :: Timestamp where
  "Timestamp_new = \<lparr>microSecondsSinceEpoch = 0\<rparr>"

definition Timestamp_of :: "int64 \<Rightarrow> Timestamp" where
  "Timestamp_of us = \<lparr>microSecondsSinceEpoch = us\<rparr>"

text \<open>\<open>operator-\<close>: the other minus this one.\<close>

definition Timestamp_minus :: "Timestamp \<Rightarrow> Timestamp \<Rightarrow> int64" where
  "Timestamp_minus this other = microSecondsSinceEpoch other - microSecondsSinceEpoch this"

text \<open>\<open>seconds\<close> is the answer of \<open>time(NULL)\<close>.\<close>

definition Timestamp_now :: "int64 \<Rightarrow> Timestamp" where
  "Timestamp_now seconds = Timestamp_of seconds"

text \<open>The members of \<open>struct tm\<close> that are printed.\<close>

record tm =
  tm_sec :: int
  tm_min :: int
  tm_hour :: int
  tm_mday :: int
  tm_mon :: int
  tm_year :: int

definition show_int :: "int \<Rightarrow> string" where
  "show_int i = (if i < 0 then CHR ''-'' # show_nat (nat (- i)) else show_nat (nat i))"

text \<open>\<open>%4d\<close> pads with blanks; \<open>%02d\<close> pads with zeros, for numbers that are not negative.\<close>

definition pad_left :: "char \<Rightarrow> nat \<Rightarrow> string \<Rightarrow> string" where
  "pad_left c n t = replicate (n - length t) c @ t"

definition fmt_02d :: "int \<Rightarrow> string" where
  "fmt_02d i = pad_left (CHR ''0'') 2 (show_int i)"

definition toString :: "(int64 \<Rightarrow> tm) \<Rightarrow> Timestamp \<Rightarrow> string" where
  "toString localtime t =
     (let m = localtime (microSecondsSinceEpoch t)
      in take 127 (pad_left (CHR '' '') 4 (show_int (tm_year m + 1900)) @ ''/'' @
           fmt_02d (tm_mon m + 1) @ ''/'' @ fmt_02d (tm_mday m) @ '' '' @
           fmt_02d (tm_hour m) @ '':'' @ fmt_02d (tm_min m) @ '':'' @ fmt_02d (tm_sec m)))"

section \<open>The printed form\<close>

text \<open>What \<open>localtime\<close> answers: fields in their ranges, for years of four digits.\<close>

definition tm_ok :: "tm \<Rightarrow> bool" where
  "tm_ok m \<longleftrightarrow> 0 \<le> tm_sec m \<and> tm_sec m \<le> 60 \<and> 0 \<le> tm_min m \<and> tm_min m < 60 \<and>
     0 \<le> tm_hour m \<and> tm_hour m < 24 \<and> 1 \<le> tm_mday m \<and> tm_mday m \<le> 31 \<and>
     0 \<le> tm_mon m \<and> tm_mon m < 12 \<and> - 900 \<le> tm_year m \<and> tm_year m < 8100"

lemma length_show_nat: "10 ^ k \<le> n \<Longrightarrow> n < 10 ^ Suc k \<Longrightarrow> length (show_nat n) = Suc k"
proof (induction k arbitrary: n)
  case 0
  then show ?case by (subst show_nat.simps) simp
next
  case (Suc k)
  have "10 ^ k \<le> n div 10" "n div 10 < 10 ^ Suc k" using Suc.prems by auto
  with Suc.IH have "length (show_nat (n div 10)) = Suc k" by blast
  moreover have "\<not> n < 10"
  proof -
    have "(10 :: nat) \<le> 10 ^ Suc k" by simp
    with Suc.prems(1) show ?thesis by linarith
  qed
  ultimately show ?case by (subst show_nat.simps) simp
qed

lemma fmt_02d_two: "0 \<le> i \<Longrightarrow> i < 100 \<Longrightarrow> length (fmt_02d i) = 2 \<and> read_nat (fmt_02d i) = nat i"
proof -
  assume i: "0 \<le> i" "i < 100"
  show ?thesis
  proof (cases "i < 10")
    case True
    then have "show_nat (nat i) = [digit_char (nat i)]" by (subst show_nat.simps) (use i in auto)
    with i True show ?thesis
      by (simp add: fmt_02d_def show_int_def pad_left_def read_nat_def nat_less_iff)
  next
    case False
    then have "length (show_nat (nat i)) = 2"
      using length_show_nat [of 1 "nat i"] i by (simp add: le_nat_iff nat_less_iff)
    with i show ?thesis by (simp add: fmt_02d_def show_int_def pad_left_def)
  qed
qed

lemma year_four:
  "1000 \<le> y \<Longrightarrow> y < 10000 \<Longrightarrow>
     length (pad_left c 4 (show_int y)) = 4 \<and> read_nat (pad_left c 4 (show_int y)) = nat y"
  using length_show_nat [of 3 "nat y"]
  by (simp add: pad_left_def show_int_def le_nat_iff nat_less_iff)

lemma slice_append: "length xs = n \<Longrightarrow> drop n (xs @ ys) = ys" "length xs = n \<Longrightarrow> take n (xs @ ys) = xs"
  by simp_all

section \<open>Properties\<close>

text \<open>
  For every date with a year of four digits \<open>toString\<close> is 19 characters long, and each of its
  fields stands at its fixed place and reads back as the number of that field.
\<close>

theorem toString_fields:
  assumes "tm_ok (localtime (microSecondsSinceEpoch t))"
  shows "let m = localtime (microSecondsSinceEpoch t); u = toString localtime t in
    length u = 19 \<and> read_nat (take 4 u) = nat (tm_year m + 1900) \<and>
    read_nat (take 2 (drop 5 u)) = nat (tm_mon m + 1) \<and>
    read_nat (take 2 (drop 8 u)) = nat (tm_mday m) \<and>
    read_nat (take 2 (drop 11 u)) = nat (tm_hour m) \<and>
    read_nat (take 2 (drop 14 u)) = nat (tm_min m) \<and>
    read_nat (take 2 (drop 17 u)) = nat (tm_sec m)"
proof -
  let ?m = "localtime (microSecondsSinceEpoch t)"
  define y where "y = pad_left (CHR '' '') 4 (show_int (tm_year ?m + 1900))"
  have y: "length y = 4" "read_nat y = nat (tm_year ?m + 1900)"
    using assms year_four [of "tm_year ?m + 1900"] by (simp_all add: tm_ok_def y_def)
  have f: "length (fmt_02d i) = 2" "read_nat (fmt_02d i) = nat i" if "0 \<le> i" "i < 100" for i
    using fmt_02d_two [OF that] by simp_all
  have r: "0 \<le> tm_mon ?m + 1 \<and> tm_mon ?m + 1 < 100" "0 \<le> tm_mday ?m \<and> tm_mday ?m < 100"
    "0 \<le> tm_hour ?m \<and> tm_hour ?m < 100" "0 \<le> tm_min ?m \<and> tm_min ?m < 100"
    "0 \<le> tm_sec ?m \<and> tm_sec ?m < 100"
    using assms by (simp_all add: tm_ok_def)
  have u: "toString localtime t = y @ ''/'' @ fmt_02d (tm_mon ?m + 1) @ ''/'' @ fmt_02d (tm_mday ?m) @
      '' '' @ fmt_02d (tm_hour ?m) @ '':'' @ fmt_02d (tm_min ?m) @ '':'' @ fmt_02d (tm_sec ?m)"
    using y r by (simp add: toString_def y_def [symmetric] Let_def f)
  show ?thesis
    using r by (simp add: Let_def u y f)
qed

theorem toString_fields_witness:
  "let u = toString (\<lambda>_. \<lparr>tm_sec = 5, tm_min = 4, tm_hour = 3, tm_mday = 2, tm_mon = 0, tm_year = 125\<rparr>)
      (Timestamp_now 1735787045)
   in length u = 19 \<and> read_nat (take 4 u) = 2025 \<and> read_nat (take 2 (drop 14 u)) = 4"
  using toString_fields [of "\<lambda>_. \<lparr>tm_sec = 5, tm_min = 4, tm_hour = 3, tm_mday = 2, tm_mon = 0,
      tm_year = 125\<rparr>" "Timestamp_now 1735787045"]
  by (simp add: tm_ok_def Let_def)

text \<open>The difference of two times is negative when the first one is later.\<close>

lemma Timestamp_minus_reversed:
  "Timestamp_minus (Timestamp_of (t + d)) (Timestamp_of t) = - d"
  by (simp add: Timestamp_minus_def Timestamp_of_def)

end
