(* ===== verification/LoopPool.thy ===== *)
theory LoopPool
  imports LoopThreads Timestamps
begin

text \<open>
  The pool of loop threads of \<open>include/net/EventLoopThreadPool.h\<close> and
  \<open>src/net/EventLoopThreadPool.cc\<close>. A pointer to a loop is the loop's number.
\<close>

record loop_pool =
  lp_baseLoop :: nat
  lp_name :: string
  lp_started :: bool
  lp_numThreads :: int
  lp_next :: nat
  lp_threads :: "string list"
  lp_loops :: "nat list"

definition EventLoopThreadPool_new :: "nat \<Rightarrow> string \<Rightarrow> loop_pool" where
  "EventLoopThreadPool_new baseloop nameArg =
     \<lparr>lp_baseLoop = baseloop, lp_name = nameArg, lp_started = False, lp_numThreads = 0, lp_next = 0,
      lp_threads = [], lp_loops = []\<rparr>"

definition pool_setThreadNum :: "int \<Rightarrow> loop_pool \<Rightarrow> loop_pool" where
  "pool_setThreadNum n p = p\<lparr>lp_numThreads := n\<rparr>"

text \<open>\<open>snprintf\<close> of the name and the index into 32 bytes more than the name has.\<close>

definition pool_thread_name :: "string \<Rightarrow> int \<Rightarrow> string" where
  "pool_thread_name name i = take (31 + length name) (name @ show_int i)"

text \<open>
  \<open>startloop_of i\<close> is what \<open>startloop\<close> of the thread with index \<open>i\<close> returns. The second component
  lists the loops on which an init callback is called: the threads' own, or the base loop.
\<close>

fun start_threads :: "(nat \<Rightarrow> nat) \<Rightarrow> nat list \<Rightarrow> loop_pool \<Rightarrow> loop_pool" where
  "start_threads startloop_of [] p = p"
| "start_threads startloop_of (i # is) p =
     start_threads startloop_of is
       (p\<lparr>lp_threads := lp_threads p @ [pool_thread_name (lp_name p) (int i)],
          lp_loops := lp_loops p @ [startloop_of i]\<rparr>)"

definition loop_pool_start :: "(nat \<Rightarrow> nat) \<Rightarrow> bool \<Rightarrow> loop_pool \<Rightarrow> loop_pool \<times> nat list" where
  "loop_pool_start startloop_of cb p =
     (let p1 = p\<lparr>lp_started := True\<rparr>;
          is = [0..<nat (lp_numThreads p1)];
          p2 = start_threads startloop_of is p1
      in (p2, (if cb then map startloop_of is else []) @
              (if lp_numThreads p2 = 0 \<and> cb then [lp_baseLoop p2] else [])))"

definition getNextLoop :: "loop_pool \<Rightarrow> (nat \<times> loop_pool) result" where
  "getNextLoop p =
     (let loop = lp_baseLoop p in
      if lp_loops p \<noteq> [] then
        if lp_next p < length (lp_loops p) then
          let loop1 = lp_loops p ! lp_next p;
              p1 = p\<lparr>lp_next := lp_next p + 1\<rparr>
          in Inr (loop1, if lp_next p1 \<ge> length (lp_loops p1) then p1\<lparr>lp_next := 0\<rparr> else p1)
        else Inl Out_of_bounds
      else Inr (loop, p))"

definition getAllloops :: "loop_pool \<Rightarrow> nat list" where
  "getAllloops p = (if lp_loops p = [] then [lp_baseLoop p] else lp_loops p)"

definition loop_pool_started :: "loop_pool \<Rightarrow> bool" where
  "loop_pool_started p = lp_started p"

definition loop_pool_name :: "loop_pool \<Rightarrow> string" where
  "loop_pool_name p = lp_name p"

section \<open>Starting\<close>

lemma start_threads_eq:
  "start_threads f is p = p\<lparr>lp_threads := lp_threads p @ map (\<lambda>i. pool_thread_name (lp_name p) (int i)) is,
     lp_loops := lp_loops p @ map f is\<rparr>"
  by (induction "is" arbitrary: p) simp_all

lemma loop_pool_start_get:
  "loop_pool_started (fst (loop_pool_start f cb p))"
  "loop_pool_name (fst (loop_pool_start f cb p)) = loop_pool_name p"
  by (simp_all add: loop_pool_start_def start_threads_eq loop_pool_started_def loop_pool_name_def Let_def)

text \<open>What \<open>start\<close> makes of a new pool: the name of a thread is never cut.\<close>

lemma length_show_nat_le: "n < 10 ^ Suc k \<Longrightarrow> length (show_nat n) \<le> Suc k"
proof (induction k arbitrary: n)
  case 0
  then show ?case by (subst show_nat.simps) simp
next
  case (Suc k)
  then have "length (show_nat (n div 10)) \<le> Suc k" by (intro Suc.IH) auto
  then show ?case by (subst show_nat.simps) simp
qed

lemma pool_thread_name_whole:
  assumes "i < 2 ^ 31"
  shows "pool_thread_name name (int i) = name @ show_nat i"
proof -
  have "length (show_nat i) \<le> 10" using length_show_nat_le [of i 9] assms by simp
  then show ?thesis by (simp add: pool_thread_name_def show_int_def)
qed

definition pool_ok :: "loop_pool \<Rightarrow> bool" where
  "pool_ok p \<longleftrightarrow> (if lp_loops p = [] then lp_next p = 0 else lp_next p < length (lp_loops p))"

lemma pool_new_ok: "pool_ok (EventLoopThreadPool_new base name)"
  by (simp add: pool_ok_def EventLoopThreadPool_new_def)

lemma pool_setThreadNum_ok [simp]: "pool_ok (pool_setThreadNum n p) = pool_ok p"
  by (simp add: pool_ok_def pool_setThreadNum_def)

lemma pool_start_ok: "pool_ok p \<Longrightarrow> pool_ok (fst (loop_pool_start f cb p))"
  by (auto simp: pool_ok_def loop_pool_start_def start_threads_eq Let_def split: if_splits)

section \<open>Round robin\<close>

lemma getNextLoop_eq:
  assumes "pool_ok p"
  shows "getNextLoop p =
    Inr (getAllloops p ! lp_next p, p\<lparr>lp_next := (lp_next p + 1) mod length (getAllloops p)\<rparr>)"
proof (cases "lp_loops p = []")
  case True
  with assms show ?thesis by (simp add: getNextLoop_def getAllloops_def pool_ok_def Let_def)
next
  case False
  then have n: "lp_next p < length (lp_loops p)" using assms by (simp add: pool_ok_def)
  with False show ?thesis
    by (cases "Suc (lp_next p) = length (lp_loops p)") (simp_all add: getNextLoop_def getAllloops_def Let_def)
qed

lemma getNextLoop_ok: "pool_ok p \<Longrightarrow> getNextLoop p = Inr (l, p') \<Longrightarrow> pool_ok p'"
  by (auto simp: getNextLoop_def pool_ok_def Let_def split: if_splits)

text \<open>The loops that a number of calls returns.\<close>

fun next_loops :: "nat \<Rightarrow> loop_pool \<Rightarrow> (nat list \<times> loop_pool) result" where
  "next_loops 0 p = Inr ([], p)"
| "next_loops (Suc m) p =
     rbind (getNextLoop p) (\<lambda>(l, p1). rbind (next_loops m p1) (\<lambda>(ls, p2). Inr (l # ls, p2)))"

lemma getAllloops_next [simp]: "getAllloops (p\<lparr>lp_next := n\<rparr>) = getAllloops p"
  by (simp add: getAllloops_def)

lemma getAllloops_nonempty [simp]: "0 < length (getAllloops p)"
  by (simp add: getAllloops_def)

lemma pool_ok_less: "pool_ok p \<Longrightarrow> lp_next p < length (getAllloops p)"
  by (simp add: pool_ok_def getAllloops_def split: if_splits)

lemma pool_ok_next: "pool_ok p \<Longrightarrow> pool_ok (p\<lparr>lp_next := n mod length (getAllloops p)\<rparr>)"
  by (auto simp: pool_ok_def getAllloops_def)

lemma next_loops_eq:
  assumes "pool_ok p"
  shows "next_loops m p =
    Inr (map (\<lambda>j. getAllloops p ! ((lp_next p + j) mod length (getAllloops p))) [0..<m],
      p\<lparr>lp_next := (lp_next p + m) mod length (getAllloops p)\<rparr>)"
  using assms
proof (induction m arbitrary: p)
  case 0
  then show ?case using pool_ok_less [OF 0] by simp
next
  case (Suc m)
  let ?n = "length (getAllloops p)"
  let ?p = "p\<lparr>lp_next := (lp_next p + 1) mod ?n\<rparr>"
  have "map (\<lambda>j. getAllloops p ! (((lp_next p + 1) mod ?n + j) mod ?n)) [0..<m]
      = map (\<lambda>j. getAllloops p ! ((lp_next p + j) mod ?n)) (map Suc [0..<m])"
    by (simp add: mod_add_left_eq)
  also have "map Suc [0..<m] = [1..<Suc m]" by (simp add: map_Suc_upt)
  finally have "getAllloops p ! lp_next p #
      map (\<lambda>j. getAllloops p ! (((lp_next p + 1) mod ?n + j) mod ?n)) [0..<m]
      = map (\<lambda>j. getAllloops p ! ((lp_next p + j) mod ?n)) [0..<Suc m]"
    using pool_ok_less [OF Suc.prems] by (simp add: upt_conv_Cons del: upt_Suc)
  moreover have "((lp_next p + 1) mod ?n + m) mod ?n = (lp_next p + Suc m) mod ?n"
    by (simp add: mod_add_left_eq)
  ultimately show ?case
    using getNextLoop_eq [OF Suc.prems] Suc.IH [OF pool_ok_next [OF Suc.prems]] by simp
qed

lemma round_is_rotation:
  "map (\<lambda>j. xs ! ((s + j) mod length xs)) [0..<length xs] = rotate s xs"
  by (rule nth_equalityI) (simp_all add: nth_rotate add.commute)

lemma count_list_append' [simp]: "count_list (xs @ ys) x = count_list xs x + count_list ys x"
  by (induction xs) auto

lemma count_list_rotate: "count_list (rotate s xs) x = count_list xs x"
proof -
  have "count_list (rotate s xs) x = count_list (take (s mod length xs) xs @ drop (s mod length xs) xs) x"
    by (simp only: rotate_drop_take count_list_append' add.commute)
  then show ?thesis by simp
qed

lemma rounds_count:
  "count_list (map (\<lambda>j. xs ! ((s + j) mod length xs)) [0..<k * length xs]) x = k * count_list xs x"
proof (induction k)
  case (Suc k)
  let ?f = "\<lambda>j. xs ! ((s + j) mod length xs)"
  have "map ?f [0..<Suc k * length xs] = map ?f [0..<k * length xs] @
      map ?f [k * length xs..<k * length xs + length xs]"
    using upt_add_eq_append [of 0 "k * length xs" "length xs"] by (simp add: add.commute)
  also have "map ?f [k * length xs..<k * length xs + length xs]
      = map (\<lambda>j. ?f (j + k * length xs)) [0..<length xs]"
    by (simp add: map_add_upt [symmetric] comp_def add.commute)
  also have "\<dots> = rotate s xs"
    by (simp flip: round_is_rotation add.assoc)
  finally show ?case
    using Suc.IH by (simp add: count_list_rotate)
qed simp

section \<open>Properties\<close>

text \<open>
  C30: A started pool hands out its loops in turn: the \<open>j\<close>-th of any number of calls of
  \<open>getNextLoop\<close> returns loop \<open>j mod n\<close> of the \<open>n\<close> threads, in \<open>k n\<close> calls each loop comes up
  equally often, and a pool without threads always answers the base loop; the index is never out
  of range. The init callback is called once on every thread's loop, or on the base loop if there
  are no threads.
\<close>

theorem pool_round_robin:
  "let (p, called) = loop_pool_start startloop_of cb (pool_setThreadNum n (EventLoopThreadPool_new base name));
       loops = (if n \<le> 0 then [base] else map startloop_of [0..<nat n])
   in getAllloops p = loops \<and>
      (\<exists>p'. next_loops m p = Inr (map (\<lambda>j. loops ! (j mod length loops)) [0..<m], p') \<and>
         getAllloops p' = loops) \<and>
      count_list (map (\<lambda>j. loops ! (j mod length loops)) [0..<k * length loops]) l =
        k * count_list loops l \<and>
      called = (if \<not> cb then [] else if n < 0 then [] else loops)"
proof -
  define q where "q = pool_setThreadNum n (EventLoopThreadPool_new base name)"
  define p where "p = fst (loop_pool_start startloop_of cb q)"
  define loops where "loops = (if n \<le> 0 then [base] else map startloop_of [0..<nat n])"
  have ok: "pool_ok p" by (simp add: p_def q_def pool_start_ok pool_new_ok)
  have l: "getAllloops p = loops" "lp_next p = 0"
    and c: "snd (loop_pool_start startloop_of cb q) = (if \<not> cb then [] else if n < 0 then [] else loops)"
    by (auto simp: p_def q_def loops_def loop_pool_start_def start_threads_eq Let_def getAllloops_def
        pool_setThreadNum_def EventLoopThreadPool_new_def)
  have r: "next_loops m p = Inr (map (\<lambda>j. loops ! (j mod length loops)) [0..<m],
      p\<lparr>lp_next := m mod length loops\<rparr>)"
    using next_loops_eq [OF ok, of m] by (simp add: l)
  have e: "loop_pool_start startloop_of cb q = (p, if \<not> cb then [] else if n < 0 then [] else loops)"
    using c by (simp add: p_def prod_eq_iff)
  show ?thesis
    using r rounds_count [of loops 0 k l]
    by (simp add: q_def [symmetric] e loops_def [symmetric] l)
qed

end
