(* ===== verification/Server.thy ===== *)
theory Server
  imports Acceptor Connection_Props LoopPool
begin

text \<open>
  The server of \<open>include/net/TcpServer.h\<close> and \<open>src/net/TcpServer.cc\<close>: it names the accepted
  connections, spreads them over the loops of its pool, keeps them in a table, and takes them out
  again when they close, passing work between the loops' threads. What a connection does when it
  is established, closed or destroyed is the matter of \<open>Connection\<close>; here each of these operations
  is given its outcome, which may be any state of the connection or any fault.
\<close>

section \<open>State\<close>

text \<open>
  The functors the server binds for its loops; a connection object is its number. \<open>Cb_accept\<close> is
  \<open>Acceptor::handleRead\<close> bound as callback of the accept channel.
\<close>

datatype server_task = Task_listen | Task_established nat | Task_remove nat | Task_destroyed nat
datatype server_cb = Cb_wakeup | Cb_accept

record 'a server =
  ts_loop :: nat
  ts_ipPort :: string
  ts_name :: string
  ts_acceptor :: "(unit, server_cb) acceptor"
  ts_pool :: loop_pool
  ts_connectionCallback :: "'a option"
  ts_messageCallback :: "'a option"
  ts_writeCompleteCallback :: "'a option"
  ts_threadInitCallback :: bool
  ts_started :: "32 word"
  ts_nextConnId :: int
  ts_connections :: "string \<Rightarrow> nat option"

text \<open>
  The server with the loops of the program and the connection objects ever made; \<open>ns_calls\<close>
  records what has been called on each of them. \<open>ns_alive\<close> says that the server object is alive.
\<close>

datatype conn_call = Established | Closed | Destroyed

record 'a net =
  ns_server :: "'a server"
  ns_alive :: bool
  ns_loops :: "nat \<Rightarrow> (server_task, server_cb) evloop"
  ns_conns :: "'a connection list"
  ns_calls :: "nat \<Rightarrow> conn_call list"

section \<open>Construction\<close>

definition server_CheckLoopNotNull :: "nat option \<Rightarrow> nat result" where
  "server_CheckLoopNotNull loop = (case loop of None \<Rightarrow> Inl Fatal_exit | Some l \<Rightarrow> Inr l)"

datatype Option = kNoReusePort | kReusePort

text \<open>The option reaches the acceptor as the test for \<open>kNoReusePort\<close>.\<close>

definition TcpServer_new ::
  "acceptor_calls \<Rightarrow> nat option \<Rightarrow> InetAddress \<Rightarrow> string \<Rightarrow> Option \<Rightarrow> 'a server result" where
  "TcpServer_new kern loop listenAddr name option =
     rbind (server_CheckLoopNotNull loop) (\<lambda>l.
     rbind (Acceptor_new kern l Cb_accept listenAddr (option = kNoReusePort)) (\<lambda>a.
     Inr \<lparr>ts_loop = l, ts_ipPort = toIpPort listenAddr, ts_name = name,
          ts_acceptor = setNewConnecitonCallback () a, ts_pool = EventLoopThreadPool_new l name,
          ts_connectionCallback = None, ts_messageCallback = None, ts_writeCompleteCallback = None,
          ts_threadInitCallback = False, ts_started = 0, ts_nextConnId = 1,
          ts_connections = (\<lambda>_. None)\<rparr>))"

definition server_setThreadNum :: "int \<Rightarrow> 'a server \<Rightarrow> 'a server" where
  "server_setThreadNum n v = v\<lparr>ts_pool := pool_setThreadNum n (ts_pool v)\<rparr>"

definition server_setThreadInitCallback :: "bool \<Rightarrow> 'a server \<Rightarrow> 'a server" where
  "server_setThreadInitCallback cb v = v\<lparr>ts_threadInitCallback := cb\<rparr>"

definition server_setConnectionCallback :: "'a option \<Rightarrow> 'a server \<Rightarrow> 'a server" where
  "server_setConnectionCallback cb v = v\<lparr>ts_connectionCallback := cb\<rparr>"

definition server_setMessageCallback :: "'a option \<Rightarrow> 'a server \<Rightarrow> 'a server" where
  "server_setMessageCallback cb v = v\<lparr>ts_messageCallback := cb\<rparr>"

definition server_setWriteCompleteCallback :: "'a option \<Rightarrow> 'a server \<Rightarrow> 'a server" where
  "server_setWriteCompleteCallback cb v = v\<lparr>ts_writeCompleteCallback := cb\<rparr>"

definition server_getLoop :: "'a server \<Rightarrow> nat" where
  "server_getLoop v = ts_loop v"

definition getName :: "'a server \<Rightarrow> string" where
  "getName v = ts_name v"

definition getIpPort :: "'a server \<Rightarrow> string" where
  "getIpPort v = ts_ipPort v"

lemma TcpServer_new_get:
  "TcpServer_new kern (Some l) listenAddr name opt = Inr v \<Longrightarrow>
     server_getLoop v = l \<and> getName v = name \<and> getIpPort v = toIpPort listenAddr"
  by (auto simp: TcpServer_new_def server_CheckLoopNotNull_def rbind_Inr_iff server_getLoop_def
      getName_def getIpPort_def)

section \<open>Passing work between loops\<close>

definition net_queue :: "kernel \<Rightarrow> nat \<Rightarrow> nat \<Rightarrow> server_task \<Rightarrow> 'a net \<Rightarrow> 'a net" where
  "net_queue K l tid f s =
     s\<lparr>ns_loops := (ns_loops s)(l := queueInLoop (kn_efd_write K) tid f (ns_loops s l))\<rparr>"

text \<open>\<open>runInLoop\<close> of loop \<open>l\<close> from thread \<open>tid\<close>, for a functor whose effect is \<open>run\<close>.\<close>

definition net_runInLoop ::
  "kernel \<Rightarrow> nat \<Rightarrow> nat \<Rightarrow> server_task \<Rightarrow> ('a net \<Rightarrow> 'a net result) \<Rightarrow> 'a net \<Rightarrow> 'a net result" where
  "net_runInLoop K l tid f run s =
     (if isInLoopThread tid (ns_loops s l) then run s else Inr (net_queue K l tid f s))"

text \<open>
  An operation of a connection object, \<open>connectEstablished\<close>, \<open>handleClose\<close> up to the call of the
  close callback, or \<open>connectDestroyed\<close>. Its outcome \<open>r\<close> is the state in which it leaves the
  connection or the fault with which it fails: they change the channel through \<open>epoll_ctl\<close>, and
  call the connection callback, which may be empty. Nothing is assumed of the outcome, so what is
  shown holds for those that \<open>Connection\<close> gives.
\<close>

definition conn_record :: "conn_call \<Rightarrow> StateE \<Rightarrow> nat \<Rightarrow> 'a net \<Rightarrow> 'a net" where
  "conn_record e st c s =
     s\<lparr>ns_conns := (ns_conns s)[c := (ns_conns s ! c)\<lparr>co_state := st\<rparr>],
       ns_calls := (ns_calls s)(c := ns_calls s c @ [e])\<rparr>"

definition conn_called :: "conn_call \<Rightarrow> StateE result \<Rightarrow> nat \<Rightarrow> 'a net \<Rightarrow> 'a net result" where
  "conn_called e r c s = rbind r (\<lambda>st. Inr (conn_record e st c s))"

lemma conn_called_Inr [simp]: "conn_called e (Inr st) c s = Inr (conn_record e st c s)"
  by (simp add: conn_called_def)

lemma conn_called_iff:
  "conn_called e r c s = Inr t \<longleftrightarrow> (\<exists>st. r = Inr st \<and> t = conn_record e st c s)"
  "conn_called e r c s = Inl x \<longleftrightarrow> r = Inl x"
  by (auto simp: conn_called_def rbind_Inr_iff rbind_Inl_iff)

section \<open>Operations\<close>

definition server_listen :: "kernel \<Rightarrow> errno option \<Rightarrow> 'a net \<Rightarrow> 'a net result" where
  "server_listen K err s =
     (let v = ns_server s; l = ts_loop v in
      rbind (Acceptor_listen (kn_ctl K, 0) err (ts_acceptor v) (ns_loops s l))
        (\<lambda>(a, el). Inr (s\<lparr>ns_server := v\<lparr>ts_acceptor := a\<rparr>, ns_loops := (ns_loops s)(l := el)\<rparr>)))"

definition TcpServer_start ::
  "kernel \<Rightarrow> (nat \<Rightarrow> nat) \<Rightarrow> errno option \<Rightarrow> nat \<Rightarrow> 'a net \<Rightarrow> 'a net result" where
  "TcpServer_start K startloop_of err tid s =
     (let v = ns_server s;
          s1 = s\<lparr>ns_server := v\<lparr>ts_started := ts_started v + 1\<rparr>\<rparr>
      in if ts_started v = 0 then
           let p = fst (loop_pool_start startloop_of (ts_threadInitCallback v) (ts_pool v));
               s2 = s1\<lparr>ns_server := (ns_server s1)\<lparr>ts_pool := p\<rparr>\<rparr>
           in net_runInLoop K (ts_loop v) tid Task_listen (server_listen K err) s2
         else Inr s1)"

definition conn_name :: "'a server \<Rightarrow> int \<Rightarrow> string" where
  "conn_name v n = ts_name v @ take 63 (''-'' @ ts_ipPort v @ ''#'' @ show_int n)"

text \<open>
  \<open>newConnection\<close> on the thread of the base loop. \<open>removal\<close> stands for the close callback the
  server binds; \<open>getsockname\<close> fills in the local address, which is zero if it fails; \<open>r\<close> is the
  outcome of \<open>connectEstablished\<close> when it is called in place.
\<close>

definition newConnection ::
  "kernel \<Rightarrow> StateE result \<Rightarrow> 'a \<Rightarrow> errno + InetAddress \<Rightarrow> int \<Rightarrow> InetAddress \<Rightarrow> nat \<Rightarrow> 'a net \<Rightarrow>
     'a net result" where
  "newConnection K r removal getsockname sockfd peerAddr tid s =
     (let v = ns_server s in
      rbind (getNextLoop (ts_pool v)) (\<lambda>(ioLoop, pool).
      let connName = conn_name v (ts_nextConnId v)
      in if ts_nextConnId v = 2 ^ 31 - 1 then Inl Signed_overflow
         else
           let local = (case getsockname of
                          Inl e \<Rightarrow> \<lparr>sin_family = 0, sin_port = 0, sin_addr = (0, 0, 0, 0)\<rparr>
                        | Inr addr \<Rightarrow> addr);
               c = length (ns_conns s)
           in rbind (Connection_new K c (Some ioLoop) connName sockfd local peerAddr) (\<lambda>conn.
              let conn1 = conn_setCloseCallback (Some removal)
                            (setWriteCompleteCallback (ts_writeCompleteCallback v)
                            (setMessageCallback (ts_messageCallback v)
                            (setConnectionCallback (ts_connectionCallback v) conn)));
                  s1 = s\<lparr>ns_server := v\<lparr>ts_pool := pool, ts_nextConnId := ts_nextConnId v + 1,
                           ts_connections := (ts_connections v)(connName \<mapsto> c)\<rparr>,
                         ns_conns := ns_conns s @ [conn1]\<rparr>
              in net_runInLoop K ioLoop tid (Task_established c)
                   (conn_called Established r c) s1)))"

text \<open>Both run on the server object, which must be alive.\<close>

definition removeConnectionInLoop :: "kernel \<Rightarrow> nat \<Rightarrow> nat \<Rightarrow> 'a net \<Rightarrow> 'a net result" where
  "removeConnectionInLoop K tid c s =
     (if \<not> ns_alive s then Inl Use_after_free
      else
        let v = ns_server s; conn = ns_conns s ! c;
            s1 = s\<lparr>ns_server := v\<lparr>ts_connections := (ts_connections v)(co_name conn := None)\<rparr>\<rparr>
        in Inr (net_queue K (conn_loop conn) tid (Task_destroyed c) s1))"

definition removeConnection :: "kernel \<Rightarrow> nat \<Rightarrow> nat \<Rightarrow> 'a net \<Rightarrow> 'a net result" where
  "removeConnection K tid c s =
     (if \<not> ns_alive s then Inl Use_after_free
      else net_runInLoop K (ts_loop (ns_server s)) tid (Task_remove c) (removeConnectionInLoop K tid c) s)"

text \<open>
  The destructor, given an enumeration of the table: its body, then the destructor of the acceptor
  and the end of the object.
\<close>

fun destroy_all ::
  "kernel \<Rightarrow> (nat \<Rightarrow> StateE result) \<Rightarrow> nat \<Rightarrow> nat list \<Rightarrow> 'a net \<Rightarrow> 'a net result" where
  "destroy_all K r tid [] s = Inr s"
| "destroy_all K r tid (c # cs) s =
     rbind (net_runInLoop K (conn_loop (ns_conns s ! c)) tid (Task_destroyed c)
              (conn_called Destroyed (r c) c) s)
       (destroy_all K r tid cs)"

definition TcpServer_delete ::
  "kernel \<Rightarrow> (nat \<Rightarrow> StateE result) \<Rightarrow> nat \<Rightarrow> nat list \<Rightarrow> 'a net \<Rightarrow> 'a net result" where
  "TcpServer_delete K r tid items s =
     rbind (destroy_all K r tid items s) (\<lambda>s1.
     let v = ns_server s1; l = ts_loop v in
     rbind (Acceptor_delete (kn_ctl K, 0) (ts_acceptor v) (ns_loops s1 l)) (\<lambda>(a, el).
     Inr (s1\<lparr>ns_server := v\<lparr>ts_acceptor := a, ts_connections := (\<lambda>_. None)\<rparr>, ns_alive := False,
            ns_loops := (ns_loops s1)(l := el)\<rparr>)))"

text \<open>
  What a functor does on the thread of its loop; \<open>r\<close> is the outcome of the connection's operation.
\<close>

fun run_server_task ::
  "kernel \<Rightarrow> errno option \<Rightarrow> StateE result \<Rightarrow> nat \<Rightarrow> server_task \<Rightarrow> 'a net \<Rightarrow> 'a net result" where
  "run_server_task K err r tid Task_listen s = server_listen K err s"
| "run_server_task K err r tid (Task_established c) s = conn_called Established r c s"
| "run_server_task K err r tid (Task_remove c) s = removeConnectionInLoop K tid c s"
| "run_server_task K err r tid (Task_destroyed c) s = conn_called Destroyed r c s"

text \<open>
  The close handler of a connection: its own part, then the close callback the server has set. A
  connection callback that throws keeps the server from hearing of the closing.
\<close>

definition net_close :: "kernel \<Rightarrow> StateE result \<Rightarrow> nat \<Rightarrow> nat \<Rightarrow> 'a net \<Rightarrow> 'a net result" where
  "net_close K r tid c s = rbind (conn_called Closed r c s) (removeConnection K tid c)"

section \<open>The life of the connections\<close>

text \<open>
  The steps of the program while the server object is alive: the base loop runs the read handler of
  the listening acceptor, whose callback is \<open>newConnection\<close>; a loop performs the next of its
  functors; the close handler of a connection runs on the thread of its loop. It has no guard of its
  own and one dispatch of an event can call it twice, so it may run any number of times between the
  connection's establishment, which registers the channel, and its destruction, which removes it.
  The functors of a pass are taken one at a time, in the order that \<open>functors_fifo_exactly_once\<close> of
  \<open>EventLoop\<close> gives.
\<close>

definition take_task :: "nat \<Rightarrow> 'a net \<Rightarrow> 'a net" where
  "take_task l s = s\<lparr>ns_loops := (ns_loops s)(l := (ns_loops s l)\<lparr>el_pending := tl (el_pending (ns_loops s l))\<rparr>)\<rparr>"

inductive net_step :: "kernel \<Rightarrow> 'a net \<Rightarrow> 'a net \<Rightarrow> bool" for K :: kernel where
  net_accept:
    "lisntenning (ts_acceptor (ns_server s)) \<Longrightarrow> tid = el_thread (ns_loops s (ts_loop (ns_server s))) \<Longrightarrow>
     Acceptor_handleRead (\<lambda>_ sockfd peer. newConnection K r removal getsockname sockfd peer tid)
       (\<lambda>_ s. s) peer0 accept4 (ts_acceptor (ns_server s)) s = Inr t \<Longrightarrow> net_step K s t"
| net_task:
    "el_pending (ns_loops s l) = f # fs \<Longrightarrow> tid = el_thread (ns_loops s l) \<Longrightarrow>
     run_server_task K err r tid f (take_task l s) = Inr t \<Longrightarrow> net_step K s t"
| net_closed:
    "c < length (ns_conns s) \<Longrightarrow> Established \<in> set (ns_calls s c) \<Longrightarrow> Destroyed \<notin> set (ns_calls s c) \<Longrightarrow>
     tid = el_thread (ns_loops s (conn_loop (ns_conns s ! c))) \<Longrightarrow>
     net_close K r tid c s = Inr t \<Longrightarrow> net_step K s t"

text \<open>A server after \<open>start\<close>, before it has accepted anything.\<close>

definition net_init :: "'a net \<Rightarrow> bool" where
  "net_init s \<longleftrightarrow>
     ns_alive s \<and> pool_ok (ts_pool (ns_server s)) \<and> lp_next (ts_pool (ns_server s)) = 0 \<and>
     (\<exists>a. ts_ipPort (ns_server s) = toIpPort a) \<and> ts_nextConnId (ns_server s) = 1 \<and>
     ts_connections (ns_server s) = (\<lambda>_. None) \<and> ns_conns s = [] \<and> ns_calls s = (\<lambda>_. []) \<and>
     (\<forall>l. set (el_pending (ns_loops s l)) \<subseteq> {Task_listen})"

text \<open>
  How often a functor is pending in each loop, for the functors that concern a connection; the
  connection they concern; and whether the connection is in the table.
\<close>

definition net_count :: "'a net \<Rightarrow> server_task \<Rightarrow> nat \<Rightarrow> nat" where
  "net_count s f l = count_list (el_pending (ns_loops s l)) f"

fun task_conn :: "server_task \<Rightarrow> nat option" where
  "task_conn Task_listen = None"
| "task_conn (Task_established c) = Some c"
| "task_conn (Task_remove c) = Some c"
| "task_conn (Task_destroyed c) = Some c"

type_synonym counts = "(nat \<Rightarrow> nat) \<times> (nat \<Rightarrow> nat) \<times> (nat \<Rightarrow> nat)"

definition tasks_of :: "nat \<Rightarrow> 'a net \<Rightarrow> counts" where
  "tasks_of c s =
     (net_count s (Task_established c), net_count s (Task_remove c), net_count s (Task_destroyed c))"

abbreviation no_tasks :: counts where
  "no_tasks \<equiv> ((\<lambda>_. 0), (\<lambda>_. 0), (\<lambda>_. 0))"

definition listed :: "nat \<Rightarrow> 'a net \<Rightarrow> bool" where
  "listed c s \<longleftrightarrow> ts_connections (ns_server s) (co_name (ns_conns s ! c)) = Some c"

text \<open>
  The phases of a connection with loop \<open>io\<close>: about to be established; established, closed \<open>n\<close> times
  and then destroyed \<open>m\<close> times, where of the \<open>n\<close> closings \<open>R\<close> are still to be reported to the base
  loop and \<open>D\<close> have led to a destruction that is still to come. It is in the table until the first
  report.
\<close>

definition life :: "nat \<Rightarrow> nat \<Rightarrow> conn_call list" where
  "life n m = Established # replicate n Closed @ replicate m Destroyed"

definition phase :: "nat \<Rightarrow> nat \<Rightarrow> conn_call list \<Rightarrow> bool \<Rightarrow> counts \<Rightarrow> bool" where
  "phase io base calls inTable T \<longleftrightarrow>
     calls = [] \<and> inTable \<and> T = ((\<lambda>_. 0)(io := 1), (\<lambda>_. 0), (\<lambda>_. 0)) \<or>
     (\<exists>n m R D. calls = life n m \<and> T = ((\<lambda>_. 0), (\<lambda>_. 0)(base := R), (\<lambda>_. 0)(io := D)) \<and>
        n = R + D + m \<and> (inTable \<longleftrightarrow> D + m = 0))"

definition phase_of :: "nat \<Rightarrow> 'a net \<Rightarrow> bool" where
  "phase_of c s \<longleftrightarrow> phase (conn_loop (ns_conns s ! c)) (ts_loop (ns_server s)) (ns_calls s c)
     (listed c s) (tasks_of c s)"

lemma life_simps [simp]:
  "life n m \<noteq> []" "Established \<in> set (life n m)" "Destroyed \<in> set (life n m) \<longleftrightarrow> 0 < m"
  "Closed \<in> set (life n m) \<longleftrightarrow> 0 < n" "life n 0 @ [Closed] = life (Suc n) 0"
  "life n m @ [Destroyed] = life n (Suc m)" "life 0 0 = [Established]" "life (Suc 0) 0 = [Established, Closed]"
  by (auto simp: life_def replicate_append_same [symmetric])

text \<open>What never changes once a connection exists.\<close>

definition net_fixed :: "'a net \<Rightarrow> bool" where
  "net_fixed s \<longleftrightarrow>
     (let v = ns_server s; n = length (ns_conns s); loops = getAllloops (ts_pool v) in
      ns_alive s \<and> pool_ok (ts_pool v) \<and> length (ts_ipPort v) \<le> 21 \<and>
      ts_nextConnId v = int n + 1 \<and> n < 2 ^ 31 - 1 \<and> lp_next (ts_pool v) = n mod length loops \<and>
      (\<forall>c < n. co_name (ns_conns s ! c) = conn_name v (int c + 1) \<and>
         conn_loop (ns_conns s ! c) = loops ! (c mod length loops)))"

definition net_inv :: "'a net \<Rightarrow> bool" where
  "net_inv s \<longleftrightarrow>
     net_fixed s \<and>
     (\<forall>m c. ts_connections (ns_server s) m = Some c \<longrightarrow>
        c < length (ns_conns s) \<and> co_name (ns_conns s ! c) = m) \<and>
     (\<forall>c < length (ns_conns s). phase_of c s) \<and>
     (\<forall>c \<ge> length (ns_conns s). tasks_of c s = no_tasks \<and> ns_calls s c = [])"

text \<open>Names are long enough for their number, so they differ.\<close>

lemma length_inet_ntop: "length (inet_ntop a) \<le> 15"
proof -
  have "length (show_nat (unat w)) \<le> 3" for w :: "8 word"
  proof (rule length_show_nat_le [of _ 2, simplified])
    have "unat w < 2 ^ LENGTH(8)" by (rule unsigned_less)
    then show "unat w < 1000" by simp
  qed
  then have "length (show_nat (unat (fst a))) + (length (show_nat (unat (fst (snd a)))) +
      (length (show_nat (unat (fst (snd (snd a))))) + length (show_nat (unat (snd (snd (snd a)))))))
      \<le> 3 + (3 + (3 + 3))"
    by (intro add_mono)
  then show ?thesis by (cases a) simp
qed

lemma length_toIpPort: "length (toIpPort a) \<le> 21"
proof -
  have "unat (ntohs (sin_port a)) < 2 ^ LENGTH(16)" by (rule unsigned_less)
  then have "length (show_nat (unat (ntohs (sin_port a)))) \<le> 5"
    by (intro length_show_nat_le [of _ 4, simplified]) simp
  with length_inet_ntop [of "sin_addr a"] show ?thesis by (simp add: toIpPort_def)
qed

lemma conn_name_whole:
  assumes "length (ts_ipPort v) \<le> 21" and "n < 2 ^ 31"
  shows "conn_name v (int n) = ts_name v @ ''-'' @ ts_ipPort v @ ''#'' @ show_nat n"
proof -
  have "length (show_nat n) \<le> 10" using length_show_nat_le [of n 9] assms(2) by simp
  with assms(1) show ?thesis by (simp add: conn_name_def show_int_def)
qed

lemma conn_name_inj:
  assumes "length (ts_ipPort v) \<le> 21" and "c < 2 ^ 31 - 1" and "d < 2 ^ 31 - 1"
  shows "conn_name v (int c + 1) = conn_name v (int d + 1) \<longleftrightarrow> c = d"
  using conn_name_whole [OF assms(1), of "c + 1"] conn_name_whole [OF assms(1), of "d + 1"] assms(2,3)
  by (simp add: add.commute)

section \<open>The invariant\<close>

definition same_static :: "'a net \<Rightarrow> 'a net \<Rightarrow> bool" where
  "same_static s t \<longleftrightarrow>
     ns_alive t = ns_alive s \<and> ts_pool (ns_server t) = ts_pool (ns_server s) \<and>
     ts_ipPort (ns_server t) = ts_ipPort (ns_server s) \<and> ts_name (ns_server t) = ts_name (ns_server s) \<and>
     ts_nextConnId (ns_server t) = ts_nextConnId (ns_server s) \<and>
     ts_loop (ns_server t) = ts_loop (ns_server s) \<and> length (ns_conns t) = length (ns_conns s) \<and>
     (\<forall>c. co_name (ns_conns t ! c) = co_name (ns_conns s ! c) \<and>
        conn_loop (ns_conns t ! c) = conn_loop (ns_conns s ! c))"

lemma same_static_trans: "same_static s t \<Longrightarrow> same_static t u \<Longrightarrow> same_static s u"
  by (simp add: same_static_def)

lemma net_fixed_static:
  assumes "same_static s t"
  shows "net_fixed t = net_fixed s"
proof -
  have e: "ns_alive t = ns_alive s" "ts_pool (ns_server t) = ts_pool (ns_server s)"
    "ts_ipPort (ns_server t) = ts_ipPort (ns_server s)" "ts_name (ns_server t) = ts_name (ns_server s)"
    "ts_nextConnId (ns_server t) = ts_nextConnId (ns_server s)"
    "length (ns_conns t) = length (ns_conns s)"
    "\<And>c. co_name (ns_conns t ! c) = co_name (ns_conns s ! c)"
    "\<And>c. conn_loop (ns_conns t ! c) = conn_loop (ns_conns s ! c)"
    using assms by (simp_all add: same_static_def)
  show ?thesis by (simp only: net_fixed_def conn_name_def Let_def e)
qed

lemma conn_record_simps [simp]:
  "ns_server (conn_record e st c s) = ns_server s" "ns_alive (conn_record e st c s) = ns_alive s"
  "ns_loops (conn_record e st c s) = ns_loops s" "tasks_of d (conn_record e st c s) = tasks_of d s"
  "ns_calls (conn_record e st c s) = (ns_calls s)(c := ns_calls s c @ [e])"
  "length (ns_conns (conn_record e st c s)) = length (ns_conns s)"
  by (simp_all add: conn_record_def tasks_of_def net_count_def fun_eq_iff)

lemma conn_record_nth [simp]:
  "co_name (ns_conns (conn_record e st c s) ! d) = co_name (ns_conns s ! d)"
  "conn_loop (ns_conns (conn_record e st c s) ! d) = conn_loop (ns_conns s ! d)"
proof -
  have "ns_conns (conn_record e st c s) ! d =
      (if d = c \<and> c < length (ns_conns s) then (ns_conns s ! c)\<lparr>co_state := st\<rparr> else ns_conns s ! d)"
    by (cases "c < length (ns_conns s)") (simp_all add: conn_record_def nth_list_update list_update_beyond)
  then show "co_name (ns_conns (conn_record e st c s) ! d) = co_name (ns_conns s ! d)"
    "conn_loop (ns_conns (conn_record e st c s) ! d) = conn_loop (ns_conns s ! d)"
    by (simp_all add: conn_loop_def OwnerLoop_def)
qed

lemma tasks_of_update [simp]:
  "tasks_of d (s\<lparr>ns_server := v\<rparr>) = tasks_of d s" "tasks_of d (s\<lparr>ns_conns := cs\<rparr>) = tasks_of d s"
  by (simp_all add: tasks_of_def net_count_def fun_eq_iff)

lemma net_count_update [simp]:
  "net_count (s\<lparr>ns_server := v\<rparr>) = net_count s" "net_count (s\<lparr>ns_conns := cs\<rparr>) = net_count s"
  "net_count (conn_record e st c s) = net_count s"
  by (simp_all add: net_count_def conn_record_def fun_eq_iff)

lemma listed_record [simp]: "listed d (conn_record e st c s) = listed d s"
  by (simp add: listed_def)

lemma same_record: "same_static s (conn_record e st c s)"
  by (simp add: same_static_def)

lemma net_queue_simps [simp]:
  "ns_server (net_queue K l tid f s) = ns_server s" "ns_alive (net_queue K l tid f s) = ns_alive s"
  "ns_calls (net_queue K l tid f s) = ns_calls s" "ns_conns (net_queue K l tid f s) = ns_conns s"
  "listed d (net_queue K l tid f s) = listed d s"
  by (simp_all add: net_queue_def listed_def)

lemma same_queue: "same_static s (net_queue K l tid f s)"
  by (simp add: same_static_def)

lemma count_queue:
  "net_count (net_queue K l tid f s) g =
     (if g = f then (net_count s g)(l := Suc (net_count s g l)) else net_count s g)"
  by (auto simp: net_count_def net_queue_def fun_eq_iff)

lemma tasks_queue_other: "task_conn f \<noteq> Some d \<Longrightarrow> tasks_of d (net_queue K l tid f s) = tasks_of d s"
  by (auto simp: tasks_of_def count_queue)

lemma take_task_simps [simp]:
  "ns_server (take_task l s) = ns_server s" "ns_alive (take_task l s) = ns_alive s"
  "ns_calls (take_task l s) = ns_calls s" "ns_conns (take_task l s) = ns_conns s"
  "listed d (take_task l s) = listed d s"
  by (simp_all add: take_task_def listed_def)

lemma same_take: "same_static s (take_task l s)"
  by (simp add: same_static_def)

lemma count_take:
  assumes "el_pending (ns_loops s l) = f # fs"
  shows "net_count (take_task l s) g =
     (if g = f then (net_count s g)(l := net_count s g l - 1) else net_count s g)"
    and "0 < net_count s f l"
  using assms by (auto simp: net_count_def take_task_def fun_eq_iff)

lemma tasks_take_other:
  "el_pending (ns_loops s l) = f # fs \<Longrightarrow> task_conn f \<noteq> Some d \<Longrightarrow> tasks_of d (take_task l s) = tasks_of d s"
  by (auto simp: tasks_of_def count_take)

text \<open>Changing the connections of a set.\<close>

lemma inv_rebuild:
  assumes fixed: "net_fixed s" and st: "same_static s t" and C: "C \<subseteq> {..<length (ns_conns s)}"
    and tab0: "\<And>m d. ts_connections (ns_server s) m = Some d \<Longrightarrow>
      d < length (ns_conns s) \<and> co_name (ns_conns s ! d) = m"
    and ph0: "\<And>d. d < length (ns_conns s) \<Longrightarrow> d \<notin> C \<Longrightarrow> phase_of d s"
    and new0: "\<And>d. length (ns_conns s) \<le> d \<Longrightarrow> tasks_of d s = no_tasks \<and> ns_calls s d = []"
    and tab: "\<And>m d. ts_connections (ns_server t) m = Some d \<Longrightarrow> ts_connections (ns_server s) m = Some d"
    and other: "\<And>d. d \<notin> C \<Longrightarrow> ns_calls t d = ns_calls s d \<and> tasks_of d t = tasks_of d s"
    and lst: "\<And>d. d \<notin> C \<Longrightarrow> d < length (ns_conns s) \<Longrightarrow> listed d t = listed d s"
    and ph: "\<And>d. d \<in> C \<Longrightarrow> phase_of d t"
  shows "net_inv t"
proof -
  have n: "length (ns_conns t) = length (ns_conns s)" "ts_loop (ns_server t) = ts_loop (ns_server s)"
    "co_name (ns_conns t ! d) = co_name (ns_conns s ! d)"
    "conn_loop (ns_conns t ! d) = conn_loop (ns_conns s ! d)" for d
    using st by (simp_all add: same_static_def)
  have "phase_of d t" if "d < length (ns_conns s)" for d
  proof (cases "d \<in> C")
    case False
    with ph0 [OF that] other [OF False] lst [OF False that] show ?thesis
      by (simp add: phase_of_def n)
  qed (rule ph)
  moreover have "tasks_of d t = no_tasks \<and> ns_calls t d = []" if "length (ns_conns s) \<le> d" for d
  proof -
    have "d \<notin> C" using C that by auto
    with other new0 [OF that] show ?thesis by simp
  qed
  moreover have "\<forall>m d. ts_connections (ns_server t) m = Some d \<longrightarrow>
      d < length (ns_conns s) \<and> co_name (ns_conns s ! d) = m"
    using tab tab0 by blast
  ultimately show ?thesis
    using fixed by (simp add: net_inv_def net_fixed_static [OF st] n)
qed

lemma inv_change:
  assumes "net_inv s" and "same_static s t" and "C \<subseteq> {..<length (ns_conns s)}"
    and "\<And>m d. ts_connections (ns_server t) m = Some d \<Longrightarrow> ts_connections (ns_server s) m = Some d"
    and "\<And>d. d \<notin> C \<Longrightarrow> ns_calls t d = ns_calls s d \<and> tasks_of d t = tasks_of d s"
    and "\<And>d. d \<notin> C \<Longrightarrow> d < length (ns_conns s) \<Longrightarrow> listed d t = listed d s"
    and "\<And>d. d \<in> C \<Longrightarrow> phase_of d t"
  shows "net_inv t"
  using assms(1) by (intro inv_rebuild [OF _ assms(2,3) _ _ _ assms(4-7)]) (simp_all add: net_inv_def)

text \<open>The functor at the head of a queue tells the phase of its connection.\<close>

lemma head_conn:
  assumes inv: "net_inv s" and hd: "el_pending (ns_loops s l) = f # fs" and f: "task_conn f = Some c"
  shows "c < length (ns_conns s)" "phase_of c s"
proof -
  have "tasks_of c s \<noteq> no_tasks"
    using count_take(2) [OF hd] f by (cases f) (auto simp: tasks_of_def fun_eq_iff)
  then show c: "c < length (ns_conns s)" using inv unfolding net_inv_def by (meson not_less)
  then show "phase_of c s" using inv by (simp add: net_inv_def)
qed

lemma head_established:
  assumes "net_inv s" and hd: "el_pending (ns_loops s l) = Task_established c # fs"
  shows "ns_calls s c = []" "listed c s" "tasks_of c (take_task l s) = no_tasks"
proof -
  have "ns_calls s c = [] \<and> listed c s \<and>
      tasks_of c s = ((\<lambda>_. 0)(conn_loop (ns_conns s ! c) := 1), (\<lambda>_. 0), (\<lambda>_. 0))"
    using head_conn(2) [OF assms, of c] count_take(2) [OF hd]
    by (auto simp: phase_of_def phase_def tasks_of_def fun_eq_iff)
  moreover from this have "conn_loop (ns_conns s ! c) = l"
    using count_take(2) [OF hd] by (auto simp: tasks_of_def fun_eq_iff split: if_splits)
  ultimately show "ns_calls s c = []" "listed c s" "tasks_of c (take_task l s) = no_tasks"
    by (auto simp: tasks_of_def count_take(1) [OF hd] fun_eq_iff)
qed

lemma head_later:
  assumes inv: "net_inv s" and hd: "el_pending (ns_loops s l) = f # fs"
    and f: "f = Task_remove c \<or> f = Task_destroyed c"
  obtains n m R D where "ns_calls s c = life n m" "n = R + D + m"
    "listed c s \<longleftrightarrow> (if f = Task_remove c then D + m = 0 else False)"
    "tasks_of c (take_task l s) =
       ((\<lambda>_. 0), (\<lambda>_. 0)(ts_loop (ns_server s) := if f = Task_remove c then R - 1 else R),
        (\<lambda>_. 0)(conn_loop (ns_conns s ! c) := if f = Task_remove c then D else D - 1))"
    "f = Task_remove c \<Longrightarrow> 0 < R" "f = Task_destroyed c \<Longrightarrow> 0 < D"
proof -
  from f have "task_conn f = Some c" by auto
  note ph = head_conn(2) [OF inv hd this] and pos = count_take(2) [OF hd]
  obtain n m R D where p: "ns_calls s c = life n m" "n = R + D + m" "listed c s \<longleftrightarrow> D + m = 0"
    "net_count s (Task_established c) = (\<lambda>_. 0)"
    "net_count s (Task_remove c) = (\<lambda>_. 0)(ts_loop (ns_server s) := R)"
    "net_count s (Task_destroyed c) = (\<lambda>_. 0)(conn_loop (ns_conns s ! c) := D)"
    using ph f pos by (auto simp: phase_of_def phase_def tasks_of_def)
  have l: "f = Task_remove c \<Longrightarrow> l = ts_loop (ns_server s)" "f = Task_destroyed c \<Longrightarrow> l = conn_loop (ns_conns s ! c)"
    using pos p(5,6) by (auto split: if_splits)
  show ?thesis
  proof (rule that [of n m R D])
    show "tasks_of c (take_task l s) =
       ((\<lambda>_. 0), (\<lambda>_. 0)(ts_loop (ns_server s) := if f = Task_remove c then R - 1 else R),
        (\<lambda>_. 0)(conn_loop (ns_conns s ! c) := if f = Task_remove c then D else D - 1))"
      unfolding tasks_of_def count_take(1) [OF hd] using f p(4-6) l by (elim disjE) simp_all
  qed (use f pos p in \<open>auto split: if_splits\<close>)
qed

lemma net_inv_phase: "net_inv s \<Longrightarrow> c < length (ns_conns s) \<Longrightarrow> phase_of c s"
  by (simp add: net_inv_def)

lemma name_inj:
  assumes "net_inv s" and "c < length (ns_conns s)" and "d < length (ns_conns s)"
  shows "co_name (ns_conns s ! c) = co_name (ns_conns s ! d) \<longleftrightarrow> c = d"
  using assms conn_name_inj [of "ns_server s" c d]
  by (auto simp: net_inv_def net_fixed_def Let_def)

lemma new_loop_pending:
  assumes "EventLoop_new use_poll ec ef k cb self tid t_loop = Inr (l, t)"
  shows "el_pending l = []"
  using assms loop_update_frame(1)
  by (fastforce simp: EventLoop_new_def rbind_Inr_iff Let_def enableReading_def split: if_splits)

lemma listen_pending:
  assumes "Acceptor_listen k err a l = Inr (a', l')"
  shows "el_pending l' = el_pending l" "el_thread l' = el_thread l"
  using assms
  by (auto simp: Acceptor_listen_def enableReading_def rbind_Inr_iff Let_def dest: loop_update_frame)

text \<open>Taking the connection out of the table, when its removal is next.\<close>

lemma remove_inv:
  assumes inv: "net_inv s" and st: "same_static s u" and c: "c < length (ns_conns s)"
    and u: "ns_server u = ns_server s" "ns_calls u c = life n m" "n = Suc (R + D + m)"
      "tasks_of c u = ((\<lambda>_. 0), (\<lambda>_. 0)(ts_loop (ns_server s) := R), (\<lambda>_. 0)(conn_loop (ns_conns s ! c) := D))"
    and other: "\<And>d. d \<noteq> c \<Longrightarrow> ns_calls u d = ns_calls s d \<and> tasks_of d u = tasks_of d s"
    and r: "removeConnectionInLoop K tid c u = Inr t"
  shows "net_inv t"
proof -
  have nm: "co_name (ns_conns u ! d) = co_name (ns_conns s ! d)"
    "conn_loop (ns_conns u ! d) = conn_loop (ns_conns s ! d)" for d
    using st by (simp_all add: same_static_def)
  let ?v = "(ns_server s)\<lparr>ts_connections := (ts_connections (ns_server s))(co_name (ns_conns s ! c) := None)\<rparr>"
  have t: "t = net_queue K (conn_loop (ns_conns s ! c)) tid (Task_destroyed c) (u\<lparr>ns_server := ?v\<rparr>)"
    using r by (auto simp: removeConnectionInLoop_def Let_def u nm split: if_splits)
  have ls: "listed d t \<longleftrightarrow> d \<noteq> c \<and> listed d s" if "d < length (ns_conns s)" for d
    using name_inj [OF inv that c] by (auto simp: t listed_def nm)
  have T: "tasks_of c t = ((\<lambda>_. 0), (\<lambda>_. 0)(ts_loop (ns_server s) := R),
      (\<lambda>_. 0)(conn_loop (ns_conns s ! c) := Suc D))"
    using u(4) by (auto simp: t tasks_of_def count_queue)
  have "phase (conn_loop (ns_conns s ! c)) (ts_loop (ns_server s)) (life n m) False
      ((\<lambda>_. 0), (\<lambda>_. 0)(ts_loop (ns_server s) := R), (\<lambda>_. 0)(conn_loop (ns_conns s ! c) := Suc D))"
    unfolding phase_def using u(3) by (intro disjI2 exI [of _ n] exI [of _ m] exI [of _ R] exI [of _ "Suc D"]) simp
  then have ph: "phase_of c t"
    using ls [OF c] T u(2) by (simp add: phase_of_def) (simp add: t nm)
  show ?thesis
  proof (rule inv_change [OF inv, of t "{c}"])
    show "same_static s t" using st by (simp add: same_static_def t)
    show "ts_connections (ns_server t) m = Some d \<Longrightarrow> ts_connections (ns_server s) m = Some d" for m d
      by (auto simp: t split: if_splits)
    show "ns_calls t d = ns_calls s d \<and> tasks_of d t = tasks_of d s" if "d \<notin> {c}" for d
      using other [of d] that by (simp add: t tasks_queue_other)
    show "phase_of d t" if "d \<in> {c}" for d using that ph by simp
  qed (use c ls in auto)
qed

lemma task_inv:
  assumes inv: "net_inv s" and hd: "el_pending (ns_loops s l) = f # fs"
    and r: "run_server_task K err r tid f (take_task l s) = Inr t"
  shows "net_inv t"
proof (cases f)
  case Task_listen
  obtain a el where a: "Acceptor_listen (kn_ctl K, 0) err (ts_acceptor (ns_server s))
      (ns_loops (take_task l s) (ts_loop (ns_server s))) = Inr (a, el)"
    and t: "t = (take_task l s)\<lparr>ns_server := (ns_server s)\<lparr>ts_acceptor := a\<rparr>,
      ns_loops := (ns_loops (take_task l s))(ts_loop (ns_server s) := el)\<rparr>"
    using r Task_listen by (auto simp: server_listen_def Let_def rbind_Inr_iff)
  have "net_count t g = net_count (take_task l s) g" for g
    using listen_pending(1) [OF a] by (auto simp: t net_count_def fun_eq_iff)
  then have tk: "tasks_of d t = tasks_of d s" for d
    using tasks_take_other [OF hd, of d] Task_listen by (simp add: tasks_of_def)
  show ?thesis
    by (rule inv_change [OF inv, of t "{}"]) (simp_all add: tk, simp_all add: t same_static_def listed_def)
next
  case (Task_established c)
  note h = head_established [OF inv hd [unfolded Task_established]]
  obtain st where t: "t = conn_record Established st c (take_task l s)"
    using r Task_established by (auto simp: conn_called_iff)
  have "phase_of c t"
    unfolding phase_of_def phase_def using h
    by (intro disjI2 exI [of _ 0]) (simp add: t fun_eq_iff)
  then show ?thesis
    by (intro inv_change [OF inv, of t "{c}"])
      (use head_conn(1) [OF inv hd, of c] Task_established tasks_take_other [OF hd]
         same_static_trans [OF same_take same_record] in \<open>auto simp: t\<close>)
next
  case (Task_remove c)
  obtain n m R D where h: "ns_calls s c = life n m" "n = R + D + m" "0 < R"
    "tasks_of c (take_task l s) = ((\<lambda>_. 0), (\<lambda>_. 0)(ts_loop (ns_server s) := R - 1),
        (\<lambda>_. 0)(conn_loop (ns_conns s ! c) := D))"
    by (rule head_later [OF inv hd, of c]) (use Task_remove in auto)
  show ?thesis
    by (rule remove_inv [OF inv same_take, of c l n m "R - 1" D])
      (use r h tasks_take_other [OF hd] head_conn(1) [OF inv hd, of c] Task_remove in \<open>simp_all\<close>)
next
  case (Task_destroyed c)
  obtain n m R D where h: "ns_calls s c = life n m" "n = R + D + m" "0 < D" "\<not> listed c s"
    "tasks_of c (take_task l s) = ((\<lambda>_. 0), (\<lambda>_. 0)(ts_loop (ns_server s) := R),
        (\<lambda>_. 0)(conn_loop (ns_conns s ! c) := D - 1))"
    by (rule head_later [OF inv hd, of c]) (use Task_destroyed in auto)
  obtain st where t: "t = conn_record Destroyed st c (take_task l s)"
    using r Task_destroyed by (auto simp: conn_called_iff)
  have "phase_of c t"
    unfolding phase_of_def phase_def using h
    by (intro disjI2 exI [of _ n] exI [of _ "Suc m"] exI [of _ R] exI [of _ "D - 1"]) (simp add: t)
  then show ?thesis
    by (intro inv_change [OF inv, of t "{c}"])
      (use head_conn(1) [OF inv hd, of c] Task_destroyed tasks_take_other [OF hd]
         same_static_trans [OF same_take same_record] in \<open>auto simp: t\<close>)
qed

lemma close_inv:
  assumes inv: "net_inv s" and c: "c < length (ns_conns s)"
    and up: "Established \<in> set (ns_calls s c)" "Destroyed \<notin> set (ns_calls s c)"
    and r: "net_close K r tid c s = Inr t"
  shows "net_inv t"
proof -
  obtain st where cl: "removeConnection K tid c (conn_record Closed st c s) = Inr t"
    using r by (auto simp: net_close_def rbind_Inr_iff conn_called_iff)
  let ?u = "conn_record Closed st c s"
  obtain n R D where ph: "ns_calls s c = life n 0" "n = R + D" "listed c s \<longleftrightarrow> D = 0"
    "tasks_of c s = ((\<lambda>_. 0), (\<lambda>_. 0)(ts_loop (ns_server s) := R), (\<lambda>_. 0)(conn_loop (ns_conns s ! c) := D))"
  proof -
    obtain n m R D where "ns_calls s c = life n m" "n = R + D + m" "listed c s \<longleftrightarrow> D + m = 0"
      "tasks_of c s = ((\<lambda>_. 0), (\<lambda>_. 0)(ts_loop (ns_server s) := R), (\<lambda>_. 0)(conn_loop (ns_conns s ! c) := D))"
      using net_inv_phase [OF inv c] up(1) unfolding phase_of_def phase_def by auto
    with up(2) show thesis by (intro that [of n R D]) simp_all
  qed
  show ?thesis
  proof (cases "isInLoopThread tid (ns_loops ?u (ts_loop (ns_server s)))")
    case True
    then have "removeConnectionInLoop K tid c ?u = Inr t"
      using cl by (simp add: removeConnection_def net_runInLoop_def split: if_splits)
    from remove_inv [OF inv same_record c _ _ _ _ _ this, of "Suc n" 0 R D] ph show ?thesis by simp
  next
    case False
    then have t: "t = net_queue K (ts_loop (ns_server s)) tid (Task_remove c) ?u"
      using cl by (simp add: removeConnection_def net_runInLoop_def split: if_splits)
    have "tasks_of c t = ((\<lambda>_. 0), (\<lambda>_. 0)(ts_loop (ns_server s) := Suc R),
        (\<lambda>_. 0)(conn_loop (ns_conns s ! c) := D))"
      using ph(4) by (auto simp: t tasks_of_def count_queue)
    then have "phase_of c t"
      unfolding phase_of_def phase_def using ph
      by (intro disjI2 exI [of _ "Suc n"] exI [of _ 0] exI [of _ "Suc R"] exI [of _ D]) (simp add: t)
    then show ?thesis
      by (intro inv_change [OF inv, of t "{c}"])
        (use c same_static_trans [OF same_record same_queue] in \<open>auto simp: t tasks_queue_other\<close>)
  qed
qed

lemma new_connection_parts:
  assumes "Connection_new K c (Some l) name fd local peer = Inr conn"
  shows "co_name conn = name" "conn_loop conn = l" "co_state conn = kConnecting"
  using assms
  by (auto simp: Connection_new_def rbind_Inr_iff conn_CheckLoopNotNull_def conn_loop_def OwnerLoop_def
      setCloseCallback_def setErrorCallback_def setWriteCallback_def setReadCallback_def Channel_new_def)

lemma setters_parts [simp]:
  "co_name (conn_setCloseCallback a c) = co_name c" "conn_loop (conn_setCloseCallback a c) = conn_loop c"
  "co_name (setWriteCompleteCallback a c) = co_name c" "conn_loop (setWriteCompleteCallback a c) = conn_loop c"
  "co_name (setMessageCallback a c) = co_name c" "conn_loop (setMessageCallback a c) = conn_loop c"
  "co_name (setConnectionCallback a c) = co_name c" "conn_loop (setConnectionCallback a c) = conn_loop c"
  by (simp_all add: conn_setCloseCallback_def setWriteCompleteCallback_def setMessageCallback_def
      setConnectionCallback_def conn_loop_def OwnerLoop_def)

lemma accept_inv:
  assumes inv: "net_inv s" and r: "newConnection K r removal gsn fd peer tid s = Inr t"
  shows "net_inv t"
proof -
  let ?v = "ns_server s" and ?n = "length (ns_conns s)" and ?loops = "getAllloops (ts_pool (ns_server s))"
  have fx: "pool_ok (ts_pool ?v)" "length (ts_ipPort ?v) \<le> 21" "ts_nextConnId ?v = int ?n + 1"
    "?n < 2 ^ 31 - 1" "lp_next (ts_pool ?v) = ?n mod length ?loops" "ns_alive s"
    "\<And>c. c < ?n \<Longrightarrow> co_name (ns_conns s ! c) = conn_name ?v (int c + 1) \<and>
         conn_loop (ns_conns s ! c) = ?loops ! (c mod length ?loops)"
    using inv by (simp_all add: net_inv_def net_fixed_def Let_def)
  note g = getNextLoop_eq [OF fx(1)]
  let ?pool = "(ts_pool ?v)\<lparr>lp_next := (lp_next (ts_pool ?v) + 1) mod length ?loops\<rparr>"
  let ?nm = "conn_name ?v (ts_nextConnId ?v)" and ?l = "?loops ! lp_next (ts_pool ?v)"
  let ?set = "\<lambda>c. conn_setCloseCallback (Some removal)
    (setWriteCompleteCallback (ts_writeCompleteCallback ?v)
    (setMessageCallback (ts_messageCallback ?v)
    (setConnectionCallback (ts_connectionCallback ?v) c)))"
  obtain conn0 local where id: "ts_nextConnId ?v \<noteq> 2 ^ 31 - 1"
    and c0: "Connection_new K ?n (Some ?l) ?nm fd local peer = Inr conn0"
    and t0: "net_runInLoop K ?l tid (Task_established ?n)
        (conn_called Established r ?n)
        (s\<lparr>ns_server := ?v\<lparr>ts_pool := ?pool, ts_nextConnId := ts_nextConnId ?v + 1,
             ts_connections := (ts_connections ?v)(?nm \<mapsto> ?n)\<rparr>,
           ns_conns := ns_conns s @ [?set conn0]\<rparr>) = Inr t"
    using r by (auto simp: newConnection_def Let_def g rbind_Inr_iff split: if_splits)
  define conn where "conn = ?set conn0"
  note t = t0 [folded conn_def]
  have cn: "co_name conn = ?nm" "conn_loop conn = ?l"
    using new_connection_parts [OF c0] by (simp_all add: conn_def)
  let ?s = "s\<lparr>ns_server := ?v\<lparr>ts_pool := ?pool, ts_nextConnId := ts_nextConnId ?v + 1,
             ts_connections := (ts_connections ?v)(?nm \<mapsto> ?n)\<rparr>,
           ns_conns := ns_conns s @ [conn]\<rparr>"
  have n: "Suc ?n < 2 ^ 31 - 1" using id fx(3,4) by simp
  have nm: "conn_name (ns_server ?s) i = conn_name ?v i" for i by (simp add: conn_name_def)
  have fixed: "net_fixed ?s"
    unfolding net_fixed_def Let_def nm using fx n pool_ok_next [OF fx(1)] cn
    by (auto simp: nth_append less_Suc_eq mod_Suc_eq)
  have fresh: "co_name (ns_conns s ! d) \<noteq> ?nm" if "d < ?n" for d
    using fx(7) [OF that] conn_name_inj [OF fx(2), of d ?n] that fx(3,4) by simp
  have new: "tasks_of ?n s = no_tasks" "ns_calls s ?n = []" using inv by (simp_all add: net_inv_def)
  have old: "phase_of d ?s" if "d < ?n" for d
    using net_inv_phase [OF inv that] that fresh [OF that]
    by (simp add: phase_of_def listed_def nth_append)
  have tab: "d < length (ns_conns ?s) \<and> co_name (ns_conns ?s ! d) = m"
    if "ts_connections (ns_server ?s) m = Some d" for m d
    using that inv cn by (auto simp: net_inv_def nth_append split: if_splits)
  have tab_old: "ts_connections ?v m = Some d \<Longrightarrow> d < ?n" for m d
    using inv by (auto simp: net_inv_def)
  have t': "(\<exists>st. t = conn_record Established st ?n ?s) \<or> t = net_queue K ?l tid (Task_established ?n) ?s"
    using t by (auto simp: net_runInLoop_def conn_called_iff split: if_splits)
  have ph: "phase_of ?n t"
    using t'
  proof (elim disjE exE)
    fix st
    assume "t = conn_record Established st ?n ?s"
    then show ?thesis
      using new cn unfolding phase_of_def phase_def
      by (intro disjI2 exI [of _ 0]) (simp add: listed_def fun_eq_iff)
  next
    assume q: "t = net_queue K ?l tid (Task_established ?n) ?s"
    have "tasks_of ?n t = ((\<lambda>_. 0)(?l := 1), (\<lambda>_. 0), (\<lambda>_. 0))"
      using new(1) by (auto simp: q tasks_of_def count_queue)
    then show ?thesis
      using new cn unfolding phase_of_def phase_def by (simp add: q listed_def)
  qed
  show ?thesis
  proof (rule inv_rebuild [OF fixed, of t "{?n}"])
    show "same_static ?s t" using t' same_record same_queue by auto
    show "phase_of d ?s" if "d < length (ns_conns ?s)" "d \<notin> {?n}" for d
      using old that by auto
    show "tasks_of d ?s = no_tasks \<and> ns_calls ?s d = []" if "length (ns_conns ?s) \<le> d" for d
      using inv that by (simp add: net_inv_def)
    show "phase_of d t" if "d \<in> {?n}" for d using that ph by simp
  qed (use t' tab in \<open>auto simp: tasks_queue_other\<close>)
qed

lemma net_step_inv: "net_step K s t \<Longrightarrow> net_inv s \<Longrightarrow> net_inv t"
proof (induction rule: net_step.induct)
  case (net_accept s tid r removal getsockname peer0 accept4 t)
  then show ?case
    unfolding accepted_descriptor_delivered
    by (auto intro: accept_inv split: sum.splits if_splits option.splits)
qed (auto intro: task_inv close_inv)

lemma net_init_inv: "net_init s \<Longrightarrow> net_inv s"
proof -
  assume i: "net_init s"
  have "net_count s f l = 0" if "f \<noteq> Task_listen" for f l
    using i that by (auto simp: net_init_def net_count_def count_list_0_iff)
  then have "tasks_of c s = no_tasks" for c
    by (simp add: tasks_of_def fun_eq_iff)
  with i show ?thesis
    by (auto simp: net_init_def net_inv_def net_fixed_def Let_def length_toIpPort)
qed

interpretation sv: invariant_machine "\<lambda>_ :: kernel. True" net_init net_step net_inv
  by unfold_locales (auto intro: net_init_inv net_step_inv)

text \<open>Starting twice listens once; a new server that is started on idle loops may accept.\<close>

lemma server_start_again:
  assumes "ts_started (ns_server s) \<noteq> 0"
  shows "TcpServer_start K f err tid s =
    Inr (s\<lparr>ns_server := (ns_server s)\<lparr>ts_started := ts_started (ns_server s) + 1\<rparr>\<rparr>)"
  using assms by (simp add: TcpServer_start_def Let_def)

definition new_server :: "'a server \<Rightarrow> bool" where
  "new_server v \<longleftrightarrow>
     (\<exists>name. ts_pool v = EventLoopThreadPool_new (ts_loop v) name) \<and>
     (\<exists>a. ts_ipPort v = toIpPort a) \<and> ts_nextConnId v = 1 \<and> ts_connections v = (\<lambda>_. None) \<and>
     ts_started v = 0"

lemma new_server_parts: "TcpServer_new kern loop addr name opt = Inr v \<Longrightarrow> new_server v"
  by (auto simp: TcpServer_new_def rbind_Inr_iff new_server_def)

lemma new_server_setters [simp]:
  "new_server (server_setMessageCallback cb v) = new_server v"
  "new_server (server_setConnectionCallback cb v) = new_server v"
  by (simp_all add: new_server_def server_setMessageCallback_def server_setConnectionCallback_def)

lemma server_start_init:
  assumes v: "new_server v"
    and s: "ns_server s = server_setThreadNum n v" "ns_alive s" "ns_conns s = []"
      "ns_calls s = (\<lambda>_. [])" "\<And>l. el_pending (ns_loops s l) = []"
    and st: "TcpServer_start K f err tid s = Inr t"
  shows "net_init t \<and>
    getAllloops (ts_pool (ns_server t)) = (if n \<le> 0 then [ts_loop v] else map f [0..<nat n]) \<and>
    ts_messageCallback (ns_server t) = ts_messageCallback v \<and>
    ts_connectionCallback (ns_server t) = ts_connectionCallback v"
proof -
  define p where "p = fst (loop_pool_start f (ts_threadInitCallback v) (pool_setThreadNum n (ts_pool v)))"
  let ?v = "(server_setThreadNum n v)\<lparr>ts_started := 1, ts_pool := p\<rparr>"
  obtain name where pool: "ts_pool v = EventLoopThreadPool_new (ts_loop v) name"
    using v by (auto simp: new_server_def)
  have p: "pool_ok p" "lp_next p = 0"
    "getAllloops p = (if n \<le> 0 then [ts_loop v] else map f [0..<nat n])"
    by (simp_all add: p_def pool pool_start_ok pool_new_ok)
      (simp_all add: loop_pool_start_def Let_def start_threads_eq pool_setThreadNum_def
        EventLoopThreadPool_new_def getAllloops_def)
  have r: "net_runInLoop K (ts_loop v) tid Task_listen (server_listen K err) (s\<lparr>ns_server := ?v\<rparr>) = Inr t"
    using st v by (simp add: TcpServer_start_def Let_def s(1) server_setThreadNum_def p_def new_server_def)
  have "ns_conns t = [] \<and> ns_calls t = (\<lambda>_. []) \<and> ns_alive t \<and>
      (\<exists>a. ns_server t = ?v\<lparr>ts_acceptor := a\<rparr>) \<and>
      (\<forall>l. set (el_pending (ns_loops t l)) \<subseteq> {Task_listen})"
  proof (cases "isInLoopThread tid (ns_loops s (ts_loop v))")
    case True
    then obtain a el where "Acceptor_listen (kn_ctl K, 0) err (ts_acceptor v)
        (ns_loops s (ts_loop v)) = Inr (a, el)"
      and t: "t = s\<lparr>ns_server := ?v\<lparr>ts_acceptor := a\<rparr>, ns_loops := (ns_loops s)(ts_loop v := el)\<rparr>"
      using r by (auto simp: net_runInLoop_def server_listen_def Let_def rbind_Inr_iff server_setThreadNum_def)
    with listen_pending(1) have "el_pending el = []" using s(5) by metis
    then show ?thesis using s by (auto simp: t)
  next
    case False
    then have t: "t = net_queue K (ts_loop v) tid Task_listen (s\<lparr>ns_server := ?v\<rparr>)"
      using r by (simp add: net_runInLoop_def)
    show ?thesis
      using s
      by (auto simp: t server_setThreadNum_def intro!: exI [of _ "ts_acceptor v"])
        (auto simp: net_queue_def split: if_splits)
  qed
  then show ?thesis
    using p v by (auto simp: net_init_def server_setThreadNum_def new_server_def)
qed

section \<open>A concrete server\<close>

text \<open>A server on loop 0 with one thread, whose loop is 1; loop \<open>l\<close> runs on thread \<open>l\<close>.\<close>

definition serving_loop :: "nat \<Rightarrow> (server_task, server_cb) evloop" where
  "serving_loop l = \<lparr>el_looping = True, el_quit = False, el_calling = False, el_thread = l,
     el_poller = Some empty_poller, el_wakeupfd = 5, el_wakeup = Channel_new l 5, el_efd = 0,
     el_active = [], el_pollTime = 0, el_pending = []\<rparr>"

definition demo_server :: "unit server" where
  "demo_server = \<lparr>ts_loop = 0, ts_ipPort = toIpPort demo_addr, ts_name = ''srv'',
     ts_acceptor = \<lparr>acceptsockfd = Socket_new 6, acceptChannel = Channel_new 0 6,
       newConnectionCallback = Some (), listenning = True\<rparr>,
     ts_pool = fst (loop_pool_start Suc False (pool_setThreadNum 1 (EventLoopThreadPool_new 0 ''srv''))),
     ts_connectionCallback = None, ts_messageCallback = None, ts_writeCompleteCallback = None,
     ts_threadInitCallback = False, ts_started = 1, ts_nextConnId = 1, ts_connections = (\<lambda>_. None)\<rparr>"

definition demo_net :: "unit net" where
  "demo_net = \<lparr>ns_server = demo_server, ns_alive = True, ns_loops = serving_loop, ns_conns = [],
     ns_calls = (\<lambda>_. [])\<rparr>"

lemma demo_pool: "pool_ok (ts_pool demo_server)" "lp_next (ts_pool demo_server) = 0"
  "getAllloops (ts_pool demo_server) = [1]"
  by (simp_all add: demo_server_def pool_start_ok pool_new_ok)
    (simp_all add: loop_pool_start_def start_threads_eq pool_setThreadNum_def EventLoopThreadPool_new_def
      getAllloops_def Let_def)

lemma demo_net_reachable: "reachable net_init step demo_net"
proof (rule reach_init)
  have "ts_ipPort demo_server = toIpPort demo_addr" by (simp add: demo_server_def)
  then show "net_init demo_net"
    using demo_pool by (auto simp: net_init_def demo_net_def serving_loop_def demo_server_def)
qed

definition demo_name :: string where
  "demo_name = conn_name demo_server 1"

definition demo_served :: "unit server" where
  "demo_served = demo_server\<lparr>ts_pool := (ts_pool demo_server)\<lparr>lp_next := 0\<rparr>, ts_nextConnId := 2,
     ts_connections := [demo_name \<mapsto> 0]\<rparr>"

text \<open>One connection is accepted, established on loop 1, and closed by its peer.\<close>

lemma demo_run:
  "\<exists>c. co_name c = demo_name \<and> conn_loop c = 1 \<and>
    is_run (net_step demo_kernel) demo_net
      [net_queue demo_kernel 1 0 (Task_established 0)
         (demo_net\<lparr>ns_server := demo_served, ns_conns := [c]\<rparr>),
       conn_record Established kConnected 0 (take_task 1 (net_queue demo_kernel 1 0 (Task_established 0)
         (demo_net\<lparr>ns_server := demo_served, ns_conns := [c]\<rparr>))),
       net_queue demo_kernel 0 1 (Task_remove 0)
         (conn_record Closed kDisconnected 0
           (conn_record Established kConnected 0 (take_task 1 (net_queue demo_kernel 1 0 (Task_established 0)
             (demo_net\<lparr>ns_server := demo_served, ns_conns := [c]\<rparr>)))))]"
proof -
  obtain c0 where c0: "Connection_new demo_kernel 0 (Some 1) demo_name 7 demo_addr demo_addr =
      Inr (c0 :: unit connection)"
    by (auto simp: Connection_new_def conn_CheckLoopNotNull_def initial_buffer_facts)
  define c where "c = conn_setCloseCallback (Some ()) (setWriteCompleteCallback None
    (setMessageCallback None (setConnectionCallback None c0)))"
  let ?s = "demo_net\<lparr>ns_server := demo_served, ns_conns := [c]\<rparr>"
  let ?a = "net_queue demo_kernel 1 0 (Task_established 0) ?s"
  let ?b = "conn_record Established kConnected 0 (take_task 1 ?a)"
  let ?c = "net_queue demo_kernel 0 1 (Task_remove 0) (conn_record Closed kDisconnected 0 ?b)"
  have c: "co_name c = demo_name" "conn_loop c = 1"
    using new_connection_parts [OF c0] by (simp_all add: c_def)
  have v: "ts_nextConnId demo_server = 1" "ts_loop demo_server = 0" "ts_writeCompleteCallback demo_server = None"
    "ts_messageCallback demo_server = None" "ts_connectionCallback demo_server = None"
    "ts_connections demo_server = (\<lambda>_. None)"
    by (simp_all add: demo_server_def)
  have pend: "el_pending (ns_loops ?a 1) = [Task_established 0]"
    by (simp add: net_queue_def demo_net_def serving_loop_def)
  have th: "el_thread (ns_loops ?a l) = l" "el_thread (ns_loops ?b l) = l" for l
    by (simp_all add: net_queue_def demo_net_def serving_loop_def take_task_def)
  have "newConnection demo_kernel r () (Inr demo_addr) 7 demo_addr 0 demo_net = Inr ?a"
    using c0 by (simp add: newConnection_def getNextLoop_eq [OF demo_pool(1)] demo_pool demo_net_def v
        demo_name_def [symmetric] net_runInLoop_def isInLoopThread_def serving_loop_def c_def [symmetric]
        demo_served_def Let_def)
  then have h: "Acceptor_handleRead (\<lambda>_ fd peer. newConnection demo_kernel r () (Inr demo_addr) fd peer 0)
      (\<lambda>_ s. s) demo_addr (Inr (7, demo_addr)) (ts_acceptor (ns_server demo_net)) demo_net = Inr ?a"
    unfolding accepted_descriptor_delivered by (simp add: demo_net_def demo_server_def)
  have th: "0 = el_thread (ns_loops demo_net (ts_loop (ns_server demo_net)))"
    and li: "lisntenning (ts_acceptor (ns_server demo_net))"
    by (simp_all add: demo_net_def serving_loop_def v lisntenning_def) (simp add: demo_server_def)
  have 1: "net_step demo_kernel demo_net ?a" by (rule net_accept [OF li th h])
  have 2: "net_step demo_kernel ?a ?b"
    by (rule net_task [where r = "Inr kConnected", OF pend refl]) simp
  have 3: "net_step demo_kernel ?b ?c"
    by (rule net_closed [of 0, where r = "Inr kDisconnected", OF _ _ _ refl])
      (simp_all add: demo_net_def net_close_def removeConnection_def net_runInLoop_def isInLoopThread_def
        demo_served_def v c, simp_all add: conn_record_def take_task_def net_queue_def serving_loop_def c
        conn_loop_def OwnerLoop_def)
  from 1 2 3 c show ?thesis by (intro exI [of _ c]) simp
qed

text \<open>The state after that run, and what is known of it.\<close>

lemma demo_closed_reachable:
  "\<exists>s :: unit net. reachable net_init (net_step demo_kernel) s \<and> length (ns_conns s) = 1 \<and>
    ns_calls s 0 = [Established, Closed] \<and> conn_loop (ns_conns s ! 0) = 1 \<and>
    ns_server s = demo_served \<and> el_pending (ns_loops s 0) = [Task_remove 0] \<and>
    el_poller (ns_loops s 0) = Some empty_poller \<and> el_thread (ns_loops s 1) = 1 \<and>
    (\<forall>l. Task_listen \<notin> set (el_pending (ns_loops s l)))"
proof -
  obtain c where c: "conn_loop c = 1" and r: "is_run (net_step demo_kernel) demo_net
      [net_queue demo_kernel 1 0 (Task_established 0)
         (demo_net\<lparr>ns_server := demo_served, ns_conns := [c]\<rparr>),
       conn_record Established kConnected 0 (take_task 1 (net_queue demo_kernel 1 0 (Task_established 0)
         (demo_net\<lparr>ns_server := demo_served, ns_conns := [c]\<rparr>))),
       net_queue demo_kernel 0 1 (Task_remove 0)
         (conn_record Closed kDisconnected 0
           (conn_record Established kConnected 0 (take_task 1 (net_queue demo_kernel 1 0 (Task_established 0)
             (demo_net\<lparr>ns_server := demo_served, ns_conns := [c]\<rparr>)))))]"
    using demo_run by blast
  let ?s = "net_queue demo_kernel 0 1 (Task_remove 0)
         (conn_record Closed kDisconnected 0
           (conn_record Established kConnected 0 (take_task 1 (net_queue demo_kernel 1 0 (Task_established 0)
             (demo_net\<lparr>ns_server := demo_served, ns_conns := [c]\<rparr>)))))"
  have "reachable net_init (net_step demo_kernel) ?s"
    by (rule reachable_run [OF demo_net_reachable r]) simp
  moreover have "length (ns_conns ?s) = 1" "ns_calls ?s 0 = [Established, Closed]"
    "conn_loop (ns_conns ?s ! 0) = 1" "ns_server ?s = demo_served"
    by (simp_all add: c demo_net_def)
  moreover have "el_pending (ns_loops ?s 0) = [Task_remove 0]" "el_thread (ns_loops ?s 1) = 1"
    "el_poller (ns_loops ?s 0) = Some empty_poller" "\<forall>l. Task_listen \<notin> set (el_pending (ns_loops ?s l))"
    by (simp_all add: net_queue_def take_task_def demo_net_def serving_loop_def)
  ultimately show ?thesis by blast
qed

section \<open>Destruction\<close>

lemma removeChannel_pending:
  assumes "EventLoop_removeChannel k ch l = Inr (ch', l')"
  shows "el_pending l' = el_pending l"
  using assms by (auto simp: EventLoop_removeChannel_def rbind_Inr_iff split: option.splits)

lemma delete_pending:
  assumes "Acceptor_delete k a l = Inr (a', l')"
  shows "el_pending l' = el_pending l"
  using assms
  by (auto simp: Acceptor_delete_def disableAll_def rbind_Inr_iff
      dest!: loop_update_frame(1) removeChannel_pending)

lemma destroy_all_pending:
  "destroy_all K r tid cs s = Inr t \<Longrightarrow> f \<in> set (el_pending (ns_loops s l)) \<Longrightarrow>
     f \<in> set (el_pending (ns_loops t l)) \<and> ts_loop (ns_server t) = ts_loop (ns_server s)"
proof (induction cs arbitrary: s)
  case (Cons c cs)
  then obtain u where u: "net_runInLoop K (conn_loop (ns_conns s ! c)) tid (Task_destroyed c)
      (conn_called Destroyed (r c) c) s = Inr u" "destroy_all K r tid cs u = Inr t"
    by (auto simp: rbind_Inr_iff)
  then have "f \<in> set (el_pending (ns_loops u l)) \<and> ns_server u = ns_server s"
    using Cons.prems(2)
    by (auto simp: net_runInLoop_def net_queue_def conn_called_iff split: if_splits)
  with Cons.IH [OF u(2)] show ?case by simp
qed simp

section \<open>Properties\<close>

text \<open>
  C2: Every connection the server accepts lives its life in order, on whatever threads the steps run
  and whatever its own operations do or fail to do. It is established first and once; then its
  close handler runs, as often as the loop calls it; it is destroyed only after that and never more
  often than it was closed. Until it is established exactly one functor for that is pending, on its
  own loop. Every closing is one removal pending on the base loop, or one destruction pending on
  its own loop, or one destruction done; the connection is in the server's table until the first
  removal. Performing one of these functors fails only where the connection's own operation does:
  the server's part, the removal, never fails.
\<close>

theorem connection_life:
  assumes "reachable net_init (net_step K) s" and "c < length (ns_conns s)"
  shows "(ns_calls s c = [] \<and> listed c s \<and>
       net_count s (Task_established c) = (\<lambda>_. 0)(conn_loop (ns_conns s ! c) := 1) \<and>
       (\<forall>l. net_count s (Task_remove c) l = 0 \<and> net_count s (Task_destroyed c) l = 0) \<or>
     (\<exists>n m. ns_calls s c = Established # replicate n Closed @ replicate m Destroyed \<and>
        n = net_count s (Task_remove c) (ts_loop (ns_server s)) +
          net_count s (Task_destroyed c) (conn_loop (ns_conns s ! c)) + m \<and>
        (listed c s \<longleftrightarrow> net_count s (Task_remove c) (ts_loop (ns_server s)) = n) \<and>
        (\<forall>l. net_count s (Task_established c) l = 0 \<and>
           (l \<noteq> ts_loop (ns_server s) \<longrightarrow> net_count s (Task_remove c) l = 0) \<and>
           (l \<noteq> conn_loop (ns_conns s ! c) \<longrightarrow> net_count s (Task_destroyed c) l = 0)))) \<and>
    (\<forall>l f fs err r tid e. el_pending (ns_loops s l) = f # fs \<longrightarrow> task_conn f = Some c \<longrightarrow>
       run_server_task K err r tid f (take_task l s) = Inl e \<longrightarrow> r = Inl e \<and> f \<noteq> Task_remove c)"
proof -
  have inv: "net_inv s" using sv.reachable_inv [OF _ assms(1)] by simp
  have alive: "ns_alive s" using inv by (simp add: net_inv_def net_fixed_def Let_def)
  have run: "r = Inl e \<and> f \<noteq> Task_remove c"
    if "task_conn f = Some c" "run_server_task K err r tid f (take_task l s) = Inl e" for l f err r tid e
    using that alive by (cases f) (auto simp: conn_called_iff removeConnectionInLoop_def Let_def)
  have "phase_of c s" by (rule net_inv_phase [OF inv assms(2)])
  then consider
    (new) "ns_calls s c = []" "listed c s" "net_count s (Task_remove c) = (\<lambda>_. 0)"
      "net_count s (Task_established c) = (\<lambda>_. 0)(conn_loop (ns_conns s ! c) := 1)"
      "net_count s (Task_destroyed c) = (\<lambda>_. 0)"
  | (later) n m R D where "ns_calls s c = life n m" "n = R + D + m" "listed c s \<longleftrightarrow> D + m = 0"
      "net_count s (Task_established c) = (\<lambda>_. 0)"
      "net_count s (Task_remove c) = (\<lambda>_. 0)(ts_loop (ns_server s) := R)"
      "net_count s (Task_destroyed c) = (\<lambda>_. 0)(conn_loop (ns_conns s ! c) := D)"
    unfolding phase_of_def phase_def tasks_of_def by auto
  then show ?thesis
  proof cases
    case new
    with run show ?thesis by auto
  next
    case later
    then have "\<exists>n m. ns_calls s c = Established # replicate n Closed @ replicate m Destroyed \<and>
        n = net_count s (Task_remove c) (ts_loop (ns_server s)) +
          net_count s (Task_destroyed c) (conn_loop (ns_conns s ! c)) + m \<and>
        (listed c s \<longleftrightarrow> net_count s (Task_remove c) (ts_loop (ns_server s)) = n) \<and>
        (\<forall>l. net_count s (Task_established c) l = 0 \<and>
           (l \<noteq> ts_loop (ns_server s) \<longrightarrow> net_count s (Task_remove c) l = 0) \<and>
           (l \<noteq> conn_loop (ns_conns s ! c) \<longrightarrow> net_count s (Task_destroyed c) l = 0))"
      by (intro exI [of _ n] exI [of _ m]) (auto simp: life_def)
    with run show ?thesis by blast
  qed
qed

theorem connection_life_witness:
  "\<exists>s :: unit net. reachable net_init (net_step demo_kernel) s \<and> ns_calls s 0 = [Established, Closed] \<and>
    net_count s (Task_remove 0) 0 = 1 \<and> net_count s (Task_destroyed 0) 1 = 0 \<and> listed 0 s"
proof -
  obtain s :: "unit net" where s: "reachable net_init (net_step demo_kernel) s" "length (ns_conns s) = 1"
    "ns_calls s 0 = [Established, Closed]" "el_pending (ns_loops s 0) = [Task_remove 0]"
    "conn_loop (ns_conns s ! 0) = 1" "ns_server s = demo_served"
    using demo_closed_reachable by blast
  have c: "0 < length (ns_conns s)" using s(2) by simp
  have one: "n = 1 \<and> m = 0" if "[Closed] = replicate n Closed @ replicate m Destroyed" for n m
    using that by (cases n; cases m) auto
  have rem: "net_count s (Task_remove 0) 0 = 1" "ts_loop (ns_server s) = 0"
    by (simp_all add: net_count_def s(4,6) demo_served_def demo_server_def)
  from connection_life [OF s(1) c] s(1,3,5) rem one show ?thesis
    by (intro exI [of _ s]) fastforce
qed

text \<open>
  C15: Names are unique: all connections the server has ever accepted have different names, so that
  entering one into the table never replaces another, the table holds exactly connections under
  their own names, and the connections are spread over the pool's loops in turn.
\<close>

theorem names_unique:
  assumes "reachable net_init (net_step K) s"
  shows "distinct (map co_name (ns_conns s)) \<and>
    (\<forall>m c. ts_connections (ns_server s) m = Some c \<longrightarrow>
       c < length (ns_conns s) \<and> co_name (ns_conns s ! c) = m) \<and>
    (let loops = getAllloops (ts_pool (ns_server s)) in
     \<forall>c < length (ns_conns s). conn_loop (ns_conns s ! c) = loops ! (c mod length loops))"
proof -
  have inv: "net_inv s" using sv.reachable_inv [OF _ assms] by simp
  then have "distinct (map co_name (ns_conns s))"
    using name_inj [OF inv] by (auto simp: distinct_conv_nth)
  with inv show ?thesis unfolding net_inv_def net_fixed_def Let_def by blast
qed

theorem names_unique_witness:
  "\<exists>s :: unit net. length (ns_conns s) = 1 \<and> co_name (ns_conns s ! 0) = demo_name \<and>
    conn_loop (ns_conns s ! 0) = 1"
proof -
  obtain s :: "unit net" where s: "reachable net_init (net_step demo_kernel) s" "length (ns_conns s) = 1"
    "conn_loop (ns_conns s ! 0) = 1" "ns_server s = demo_served"
    using demo_closed_reachable by blast
  have "ts_connections (ns_server s) demo_name = Some 0" by (simp add: s(4) demo_served_def)
  with names_unique [OF s(1)] s(2,3) show ?thesis by blast
qed

text \<open>
  The server's destructor does not wait for removals: the functor that takes a closed
  connection out of the table is bound to the bare server object, and if it is still queued in the
  base loop when the server is destroyed, the loop will run it on the destroyed object.
\<close>

theorem removal_outlives_server:
  assumes "Task_remove c \<in> set (el_pending (ns_loops s (ts_loop (ns_server s))))"
    and "TcpServer_delete K r tid items s = Inr t"
  shows "Task_remove c \<in> set (el_pending (ns_loops t (ts_loop (ns_server t)))) \<and>
    run_server_task K err r' tid' (Task_remove c) (take_task (ts_loop (ns_server t)) t) = Inl Use_after_free"
proof -
  obtain u where u: "destroy_all K r tid items s = Inr u" using assms(2) by (auto simp: TcpServer_delete_def rbind_Inr_iff)
  note p = destroy_all_pending [OF u assms(1)]
  from assms(2) u obtain a el where
    d: "Acceptor_delete (kn_ctl K, 0) (ts_acceptor (ns_server u)) (ns_loops u (ts_loop (ns_server u))) = Inr (a, el)"
    and t: "t = u\<lparr>ns_server := (ns_server u)\<lparr>ts_acceptor := a, ts_connections := (\<lambda>_. None)\<rparr>,
      ns_alive := False, ns_loops := (ns_loops u)(ts_loop (ns_server u) := el)\<rparr>"
    by (auto simp: TcpServer_delete_def rbind_Inr_iff Let_def)
  show ?thesis
    using p delete_pending [OF d] by (simp add: t removeConnectionInLoop_def)
qed

theorem removal_outlives_server_witness:
  "\<exists>(s :: unit net) t. reachable net_init (net_step demo_kernel) s \<and>
    TcpServer_delete demo_kernel (\<lambda>_. Inr kDisconnected) 0 [0] s = Inr t \<and>
    run_server_task demo_kernel None (Inr kDisconnected) 0 (Task_remove 0) (take_task 0 t) = Inl Use_after_free"
proof -
  obtain s :: "unit net" where s: "reachable net_init (net_step demo_kernel) s"
    "conn_loop (ns_conns s ! 0) = 1" "ns_server s = demo_served" "el_pending (ns_loops s 0) = [Task_remove 0]"
    "el_poller (ns_loops s 0) = Some empty_poller" "el_thread (ns_loops s 1) = 1"
    using demo_closed_reachable by blast
  have v: "ts_loop demo_served = 0" "ts_acceptor demo_served = \<lparr>acceptsockfd = Socket_new 6,
      acceptChannel = Channel_new 0 6, newConnectionCallback = Some (), listenning = True\<rparr>"
    by (simp_all add: demo_served_def demo_server_def)
  let ?u = "net_queue demo_kernel 1 0 (Task_destroyed 0) s"
  have u: "destroy_all demo_kernel (\<lambda>_. Inr kDisconnected) 0 [0] s = Inr ?u"
    by (simp add: net_runInLoop_def isInLoopThread_def s(2) s(6) [simplified])
  have "el_poller (ns_loops ?u 0) = Some empty_poller" by (simp add: net_queue_def s(5))
  then have "\<exists>r. Acceptor_delete (simple_epoll_ctl, 0) (ts_acceptor demo_served) (ns_loops ?u 0) = Inr r"
    by (simp add: v Acceptor_delete_def disableAll_def EventLoop_updateChannel_def
        Epollpoller_updateChannel_def Epollpoller_update_def EventLoop_removeChannel_def
        Epollpoller_removeChannel_def simple_epoll_ctl_def empty_poller_def Channel_new_def kNew_def
        kAdded_def kDeleted_def isNoneEvent_def kNoneEvent_def Let_def)
  then obtain t where t: "TcpServer_delete demo_kernel (\<lambda>_. Inr kDisconnected) 0 [0] s = Inr t" "ts_loop (ns_server t) = 0"
    using u by (auto simp: TcpServer_delete_def Let_def s(3) v(1) demo_kernel_def)
  have "Task_remove 0 \<in> set (el_pending (ns_loops s (ts_loop (ns_server s))))"
    by (simp add: s(3,4) v(1))
  from removal_outlives_server [OF this t(1)] t s(1) show ?thesis by auto
qed

end
