(* ===== verification/Server_Drain.thy ===== *)
theory Server_Drain
  imports Server
begin

text \<open>
  The functors of \<open>src/net/TcpServer.cc\<close> come to an end: once no more connections are accepted or
  closed, the server's functors in all loops are bounded, in whatever order the loops take turns, and
  unless an operation of a connection fails every closed connection ends up destroyed and out of the
  table. The functors that a connection or its callbacks queue for themselves are not counted here.
\<close>

text \<open>
  A loop performs the next of its functors, other than the start of listening; the operation of the
  connection, if it is one, has some outcome.
\<close>

inductive task_step :: "kernel \<Rightarrow> 'a net \<Rightarrow> 'a net \<Rightarrow> bool" for K :: kernel where
  task: "el_pending (ns_loops s l) = f # fs \<Longrightarrow> f \<noteq> Task_listen \<Longrightarrow>
    run_server_task K err r (el_thread (ns_loops s l)) f (take_task l s) = Inr t \<Longrightarrow> task_step K s t"

text \<open>The functors a connection still needs: a removal is followed by a destruction.\<close>

definition conn_work :: "nat \<Rightarrow> 'a net \<Rightarrow> nat" where
  "conn_work c s =
     net_count s (Task_established c) (conn_loop (ns_conns s ! c)) +
     2 * net_count s (Task_remove c) (ts_loop (ns_server s)) +
     net_count s (Task_destroyed c) (conn_loop (ns_conns s ! c))"

definition net_work :: "'a net \<Rightarrow> nat" where
  "net_work s = (\<Sum>c<length (ns_conns s). conn_work c s)"

definition drained :: "'a net \<Rightarrow> bool" where
  "drained s \<longleftrightarrow> (\<forall>l. el_pending (ns_loops s l) = [])"

definition no_listen :: "'a net \<Rightarrow> bool" where
  "no_listen s \<longleftrightarrow> (\<forall>l. Task_listen \<notin> set (el_pending (ns_loops s l)))"

definition closings :: "nat \<Rightarrow> 'a net \<Rightarrow> nat" where
  "closings c s = count_list (ns_calls s c) Closed"

text \<open>One connection moves on, the others stay.\<close>

lemma work_moves:
  assumes "length (ns_conns t) = length (ns_conns s)" and "c < length (ns_conns s)"
    and "conn_work c s = Suc (conn_work c t)"
    and "\<And>d. d < length (ns_conns s) \<Longrightarrow> d \<noteq> c \<Longrightarrow> conn_work d t = conn_work d s"
  shows "net_work s = Suc (net_work t)"
proof -
  let ?n = "length (ns_conns s)"
  have "(\<Sum>d\<in>{..<?n} - {c}. conn_work d s) = (\<Sum>d\<in>{..<?n} - {c}. conn_work d t)"
    by (rule sum.cong) (use assms(4) in auto)
  then show ?thesis
    using assms(1,2,3) by (simp add: net_work_def sum.remove [of "{..<?n}" c])
qed

lemma no_listen_take: "no_listen s \<Longrightarrow> no_listen (take_task l s)"
  by (auto simp: no_listen_def take_task_def) (metis list.sel(2) list.set_sel(2))

lemma no_listen_parts [simp]:
  "no_listen (conn_record e st c s) = no_listen s" "no_listen (s\<lparr>ns_server := v\<rparr>) = no_listen s"
  by (simp_all add: no_listen_def conn_record_def)

lemma no_listen_queue: "no_listen s \<Longrightarrow> f \<noteq> Task_listen \<Longrightarrow> no_listen (net_queue K l tid f s)"
  by (auto simp: no_listen_def net_queue_def)

text \<open>Where the functor at the head of a loop's queue is pending.\<close>

lemma head_loop:
  assumes inv: "net_inv s" and hd: "el_pending (ns_loops s l) = f # fs" and f: "task_conn f = Some c"
  shows "l = (if f = Task_remove c then ts_loop (ns_server s) else conn_loop (ns_conns s ! c))"
    "0 < net_count s f l"
proof -
  note ph = head_conn(2) [OF inv hd f] and pos = count_take(2) [OF hd]
  show "0 < net_count s f l" by (rule pos)
  then show "l = (if f = Task_remove c then ts_loop (ns_server s) else conn_loop (ns_conns s ! c))"
    using ph f by (cases f) (auto simp: phase_of_def phase_def tasks_of_def split: if_splits)
qed

lemma task_step_moves:
  assumes inv: "net_inv s" and no: "no_listen s" and step: "task_step K s t"
  shows "net_inv t \<and> no_listen t \<and> length (ns_conns t) = length (ns_conns s) \<and>
    net_work s = Suc (net_work t) \<and> (\<forall>c. closings c t = closings c s)"
  using step
proof cases
  case (task l f fs err r)
  have i: "net_inv t" by (rule task_inv [OF inv task(1,3)])
  note nt = no_listen_take [OF no, of l] and ct = count_take [OF task(1)]
  have parts: "no_listen t \<and> length (ns_conns t) = length (ns_conns s) \<and> ts_loop (ns_server t) = ts_loop (ns_server s) \<and>
      (\<forall>c. closings c t = closings c s \<and> conn_loop (ns_conns t ! c) = conn_loop (ns_conns s ! c)) \<and>
      (\<forall>g. net_count t g = (if \<exists>c. f = Task_remove c \<and> g = Task_destroyed c
         then (net_count s g)(conn_loop (ns_conns s ! the (task_conn f)) :=
           Suc (net_count s g (conn_loop (ns_conns s ! the (task_conn f)))))
         else if g = f then (net_count s g)(l := net_count s g l - 1) else net_count s g))"
    using task(2,3) nt
    by (cases f)
      (auto simp: conn_called_iff removeConnectionInLoop_def Let_def closings_def ct(1) count_queue
        no_listen_queue split: if_splits)
  obtain c where f: "task_conn f = Some c" using task(2) by (cases f) auto
  note at = head_loop [OF inv task(1) f]
  have "net_work s = Suc (net_work t)"
  proof (rule work_moves)
    show "conn_work c s = Suc (conn_work c t)"
      using at f task(2) parts by (cases f) (auto simp: conn_work_def)
    show "conn_work d t = conn_work d s" if "d \<noteq> c" for d
      using that f task(2) parts by (cases f) (auto simp: conn_work_def)
  qed (use parts head_conn(1) [OF inv task(1) f] in auto)
  with i parts show ?thesis by blast
qed

lemma task_run_moves:
  assumes "net_inv s" and "no_listen s" and "is_run (task_step K) s ts"
  shows "net_inv (last (s # ts)) \<and> no_listen (last (s # ts)) \<and>
    length (ns_conns (last (s # ts))) = length (ns_conns s) \<and>
    net_work s = length ts + net_work (last (s # ts)) \<and>
    (\<forall>c. closings c (last (s # ts)) = closings c s)"
  using assms
proof (induction ts arbitrary: s)
  case (Cons u ts)
  then have "task_step K s u" "is_run (task_step K) u ts" by simp_all
  with Cons.IH [of u] task_step_moves [OF Cons.prems(1,2), of K u] show ?case by simp
qed simp

text \<open>
  A functor that is pending can be performed unless the connection's operation fails; with none
  pending, all connections have settled.
\<close>

lemma task_progress:
  assumes "net_inv s" and "no_listen s" and p: "el_pending (ns_loops s l) = f # fs"
  shows "\<exists>t. run_server_task K err (Inr st) (el_thread (ns_loops s l)) f (take_task l s) = Inr t \<and>
    task_step K s t"
proof -
  have f: "f \<noteq> Task_listen" using assms(2) p by (auto simp: no_listen_def dest: spec [of _ l])
  have "ns_alive s" using assms(1) by (simp add: net_inv_def net_fixed_def Let_def)
  then have "\<exists>t. run_server_task K err (Inr st) (el_thread (ns_loops s l)) f (take_task l s) = Inr t"
    using f by (cases f) (simp_all add: removeConnectionInLoop_def Let_def)
  with task [OF p f] show ?thesis by blast
qed

lemma drained_settled:
  assumes "net_inv s" and "drained s" and "c < length (ns_conns s)"
  shows "ns_calls s c = Established # replicate (closings c s) Closed @ replicate (closings c s) Destroyed \<and>
    (listed c s \<longleftrightarrow> closings c s = 0)"
proof -
  have "net_count s f l = 0" for f l using assms(2) by (simp add: net_count_def drained_def)
  then have "tasks_of c s = no_tasks" by (simp add: tasks_of_def fun_eq_iff)
  with net_inv_phase [OF assms(1,3)] obtain n where n: "ns_calls s c = life n n" "listed c s \<longleftrightarrow> n = 0"
    by (auto simp: phase_of_def phase_def fun_eq_iff split: if_splits)
  moreover have "count_list (replicate k x) Closed = (if x = Closed then k else 0)" for k and x :: conn_call
    by (induction k) auto
  then have "closings c s = n" by (simp add: closings_def n(1) life_def)
  ultimately show ?thesis by (simp add: life_def)
qed

lemma drained_stuck: "drained s \<Longrightarrow> \<not> task_step K s u"
  by (auto simp: drained_def elim: task_step.cases)

lemma settling_run:
  "net_inv s \<Longrightarrow> no_listen s \<Longrightarrow> \<exists>ts. is_run (task_step K) s ts \<and> drained (last (s # ts))"
proof (induction "net_work s" arbitrary: s rule: less_induct)
  case less
  show ?case
  proof (cases "drained s")
    case True
    then show ?thesis by (intro exI [of _ "[]"]) simp
  next
    case False
    then obtain l f fs where "el_pending (ns_loops s l) = f # fs"
      unfolding drained_def by (metis list.exhaust)
    from task_progress [OF less.prems this] obtain u where u: "task_step K s u" by blast
    from task_step_moves [OF less.prems u] less.hyps [of u] obtain ts where
      "is_run (task_step K) u ts" "drained (last (u # ts))" by auto
    with u show ?thesis by (intro exI [of _ "u # ts"]) simp
  qed
qed

section \<open>Properties\<close>

text \<open>
  C5: The server's own functors settle: from any reachable state after listening has begun, before
  more connections are accepted or closed, every functor the loops perform uses up one of a number
  that is known beforehand (one for a connection to be established, two for a removal, one for a
  destruction), in any order. As long as one is pending the loop can perform it, unless the
  connection's own operation fails; and when none is left every connection has been established,
  destroyed as often as it was closed, and is in the table exactly if it was never closed.
\<close>

theorem functors_settle:
  assumes "reachable net_init (net_step K) s" and "no_listen s" and "is_run (task_step K) s ts"
  shows "length ts + net_work (last (s # ts)) = net_work s \<and>
    (\<forall>l f fs err st. el_pending (ns_loops (last (s # ts)) l) = f # fs \<longrightarrow>
       (\<exists>u. run_server_task K err (Inr st) (el_thread (ns_loops (last (s # ts)) l)) f
          (take_task l (last (s # ts))) = Inr u \<and> task_step K (last (s # ts)) u)) \<and>
    (drained (last (s # ts)) \<longrightarrow> net_work (last (s # ts)) = 0 \<and>
       (\<forall>c < length (ns_conns s).
          ns_calls (last (s # ts)) c =
            Established # replicate (closings c s) Closed @ replicate (closings c s) Destroyed \<and>
          (listed c (last (s # ts)) \<longleftrightarrow> closings c s = 0)))"
proof -
  have inv: "net_inv s" using sv.reachable_inv [OF _ assms(1)] by simp
  note run = task_run_moves [OF inv assms(2,3)]
  have "net_work (last (s # ts)) = 0" if "drained (last (s # ts))"
    using that by (simp add: net_work_def conn_work_def net_count_def drained_def)
  with run drained_settled [of "last (s # ts)"] task_progress [of "last (s # ts)" _ _ _ K]
  show ?thesis by metis
qed

theorem functors_settle_witness:
  "\<exists>(s :: unit net) ts. ns_calls s 0 = [Established, Closed] \<and> is_run (task_step demo_kernel) s ts \<and>
    ns_calls (last (s # ts)) 0 = [Established, Closed, Destroyed] \<and> \<not> listed 0 (last (s # ts))"
proof -
  obtain s :: "unit net" where s: "reachable net_init (net_step demo_kernel) s"
    "length (ns_conns s) = 1" "ns_calls s 0 = [Established, Closed]" "no_listen s"
    using demo_closed_reachable unfolding no_listen_def by blast
  have inv: "net_inv s" using sv.reachable_inv [OF _ s(1)] by simp
  have one: "closings 0 s = 1" by (simp add: closings_def s(3))
  from settling_run [OF inv s(4), of demo_kernel] obtain ts where
    ts: "is_run (task_step demo_kernel) s ts" "drained (last (s # ts))" by blast
  from functors_settle [OF s(1,4) ts(1)] ts one s(2,3) show ?thesis
    by (intro exI [of _ s] exI [of _ ts]) auto
qed

end
