(* ===== verification/WorkerPool.thy ===== *)
theory WorkerPool
  imports Net_Prelude
begin

text \<open>
  The worker threads of \<open>include/net/WorkerThreadPool.h\<close> and \<open>src/net/WorkerThreadPool.cc\<close>: a
  task queue under a mutex, a condition variable on which idle workers wait, and an atomic stop
  flag that the destructor sets without taking the mutex. A task is a value of the parameter \<open>'t\<close>.
\<close>

section \<open>State\<close>

text \<open>
  Where a worker is: at the test of the outer loop, about to lock, holding the lock and about to
  evaluate the predicate of \<open>wait\<close>, holding it after the predicate was false and about to block,
  blocked (the lock released), notified and about to lock again, holding the lock after \<open>wait\<close>
  returned, running a task, or ended.
\<close>

datatype 't worker_pc =
  W_check | W_lock | W_pred | W_block | W_blocked | W_relock | W_ready | W_run 't | W_ended

record 't workpool =
  wp_workers :: "'t worker_pc list"
  taskqueue :: "'t list"
  wp_mutex :: "nat option"
  wp_stop :: bool

definition WorkThreadPool_new :: "nat \<Rightarrow> 't workpool" where
  "WorkThreadPool_new threadNum =
     \<lparr>wp_workers = replicate threadNum W_check, taskqueue = [], wp_mutex = None, wp_stop = False\<rparr>"

definition wp_size :: "'t workpool \<Rightarrow> nat" where
  "wp_size p = length (wp_workers p)"

section \<open>Operations\<close>

text \<open>The locked part of \<open>addtask\<close>; \<open>None\<close> while another thread holds the mutex.\<close>

definition push_task :: "'t \<Rightarrow> 't workpool \<Rightarrow> 't workpool option" where
  "push_task task p =
     (if wp_mutex p = None then Some (p\<lparr>taskqueue := taskqueue p @ [task]\<rparr>) else None)"

definition wp_goto :: "nat \<Rightarrow> 't worker_pc \<Rightarrow> 't workpool \<Rightarrow> 't workpool" where
  "wp_goto i pc p = p\<lparr>wp_workers := (wp_workers p)[i := pc]\<rparr>"

text \<open>A notification moves a blocked worker on; \<open>notify_all\<close> moves all of them.\<close>

definition wake_worker :: "'t worker_pc \<Rightarrow> 't worker_pc" where
  "wake_worker pc = (case pc of W_blocked \<Rightarrow> W_relock | _ \<Rightarrow> pc)"

definition notify_all :: "'t workpool \<Rightarrow> 't workpool" where
  "notify_all p = p\<lparr>wp_workers := map wake_worker (wp_workers p)\<rparr>"

definition take_mutex :: "nat \<Rightarrow> 't workpool \<Rightarrow> 't workpool result option" where
  "take_mutex i p =
     (if wp_mutex p = None then Some (Inr (wp_goto i W_pred (p\<lparr>wp_mutex := Some i\<rparr>))) else None)"

text \<open>
  The next step of worker \<open>i\<close>: \<open>None\<close> if it cannot move (it waits for the mutex or for a
  notification, or has ended). \<open>front\<close> of an empty queue is undefined.
\<close>

definition worker_step :: "nat \<Rightarrow> 't workpool \<Rightarrow> 't workpool result option" where
  "worker_step i p =
     (case wp_workers p ! i of
        W_check \<Rightarrow> Some (Inr (wp_goto i (if wp_stop p then W_ended else W_lock) p))
      | W_lock \<Rightarrow> take_mutex i p
      | W_pred \<Rightarrow>
          Some (Inr (wp_goto i (if wp_stop p \<or> taskqueue p \<noteq> [] then W_ready else W_block) p))
      | W_block \<Rightarrow> Some (Inr (wp_goto i W_blocked (p\<lparr>wp_mutex := None\<rparr>)))
      | W_blocked \<Rightarrow> None
      | W_relock \<Rightarrow> take_mutex i p
      | W_ready \<Rightarrow>
          if wp_stop p \<and> taskqueue p = [] then Some (Inr (wp_goto i W_ended (p\<lparr>wp_mutex := None\<rparr>)))
          else (case taskqueue p of
                  [] \<Rightarrow> Some (Inl Out_of_bounds)
                | t # ts \<Rightarrow> Some (Inr (wp_goto i (W_run t) (p\<lparr>taskqueue := ts, wp_mutex := None\<rparr>))))
      | W_run t \<Rightarrow> Some (Inr (wp_goto i W_check p))
      | W_ended \<Rightarrow> None)"

section \<open>The pool and its threads\<close>

text \<open>The destructor: not called, the flag set, or joining the thread of that index.\<close>

datatype dtor_pc = D_none | D_stopped | D_join nat

text \<open>
  \<open>ps_owed\<close> counts the calls of \<open>addtask\<close> that have yet to call \<open>notify_one\<close>; the histories
  \<open>ps_added\<close> and \<open>ps_taken\<close> list the tasks added and the tasks workers have taken to run.
\<close>

record 't pool_sys =
  ps_pool :: "'t workpool"
  ps_dtor :: dtor_pc
  ps_owed :: nat
  ps_added :: "'t list"
  ps_taken :: "'t list"

definition pool_start :: "nat \<Rightarrow> 't pool_sys" where
  "pool_start n = \<lparr>ps_pool = WorkThreadPool_new n, ps_dtor = D_none, ps_owed = 0, ps_added = [],
     ps_taken = []\<rparr>"

definition pool_init :: "'t pool_sys \<Rightarrow> bool" where
  "pool_init s \<longleftrightarrow> (\<exists>n. s = pool_start n)"

definition running_task :: "'t worker_pc \<Rightarrow> 't list" where
  "running_task pc = (case pc of W_run t \<Rightarrow> [t] | _ \<Rightarrow> [])"

text \<open>The steps of the pool's own threads and of its destructor.\<close>

inductive pool_own :: "'t pool_sys \<Rightarrow> 't pool_sys \<Rightarrow> bool" where
  worker_moves:
    "i < wp_size (ps_pool s) \<Longrightarrow> worker_step i (ps_pool s) = Some (Inr p) \<Longrightarrow>
     pool_own s (s\<lparr>ps_pool := p, ps_taken := ps_taken s @ running_task (wp_workers p ! i)\<rparr>)"
| set_stop:
    "ps_dtor s = D_none \<Longrightarrow>
     pool_own s (s\<lparr>ps_pool := (ps_pool s)\<lparr>wp_stop := True\<rparr>, ps_dtor := D_stopped\<rparr>)"
| stop_notify:
    "ps_dtor s = D_stopped \<Longrightarrow>
     pool_own s (s\<lparr>ps_pool := notify_all (ps_pool s), ps_dtor := D_join 0\<rparr>)"
| join_one:
    "ps_dtor s = D_join k \<Longrightarrow> k < wp_size (ps_pool s) \<Longrightarrow> wp_workers (ps_pool s) ! k = W_ended \<Longrightarrow>
     pool_own s (s\<lparr>ps_dtor := D_join (Suc k)\<rparr>)"

text \<open>
  The steps of the pool's users, with \<open>notify_one\<close> waking any one blocked worker, and the
  spurious wakeups that the condition variable may, but need not, have.
\<close>

inductive pool_env :: "'t pool_sys \<Rightarrow> 't pool_sys \<Rightarrow> bool" where
  addtask_push:
    "push_task t (ps_pool s) = Some p \<Longrightarrow>
     pool_env s (s\<lparr>ps_pool := p, ps_owed := Suc (ps_owed s), ps_added := ps_added s @ [t]\<rparr>)"
| notify_blocked:
    "ps_owed s = Suc n \<Longrightarrow> i < wp_size (ps_pool s) \<Longrightarrow> wp_workers (ps_pool s) ! i = W_blocked \<Longrightarrow>
     pool_env s (s\<lparr>ps_pool := wp_goto i W_relock (ps_pool s), ps_owed := n\<rparr>)"
| notify_nobody:
    "ps_owed s = Suc n \<Longrightarrow> W_blocked \<notin> set (wp_workers (ps_pool s)) \<Longrightarrow>
     pool_env s (s\<lparr>ps_owed := n\<rparr>)"
| spurious:
    "i < wp_size (ps_pool s) \<Longrightarrow> wp_workers (ps_pool s) ! i = W_blocked \<Longrightarrow>
     pool_env s (s\<lparr>ps_pool := wp_goto i W_relock (ps_pool s)\<rparr>)"

definition pool_step :: "'t pool_sys \<Rightarrow> 't pool_sys \<Rightarrow> bool" where
  "pool_step s t \<longleftrightarrow> pool_own s t \<or> pool_env s t"

section \<open>The invariant\<close>

definition holds_mutex :: "'t worker_pc \<Rightarrow> bool" where
  "holds_mutex pc \<longleftrightarrow> (case pc of W_pred \<Rightarrow> True | W_block \<Rightarrow> True | W_ready \<Rightarrow> True | _ \<Rightarrow> False)"

text \<open>A worker that will look at the queue again without being notified.\<close>

definition awake :: "'t worker_pc \<Rightarrow> bool" where
  "awake pc \<longleftrightarrow> (case pc of W_block \<Rightarrow> False | W_blocked \<Rightarrow> False | W_ended \<Rightarrow> False | _ \<Rightarrow> True)"

definition worker_ok :: "'t workpool \<Rightarrow> nat \<Rightarrow> bool" where
  "worker_ok p i \<longleftrightarrow>
     (let pc = wp_workers p ! i in
      (holds_mutex pc \<longleftrightarrow> wp_mutex p = Some i) \<and>
      (pc = W_ready \<longrightarrow> wp_stop p \<or> taskqueue p \<noteq> []) \<and> (pc = W_block \<longrightarrow> taskqueue p = []) \<and>
      (pc = W_ended \<longrightarrow> wp_stop p))"

definition pool_inv :: "'t pool_sys \<Rightarrow> bool" where
  "pool_inv s \<longleftrightarrow>
     (\<forall>i. wp_mutex (ps_pool s) = Some i \<longrightarrow> i < wp_size (ps_pool s)) \<and>
     (\<forall>i < wp_size (ps_pool s). worker_ok (ps_pool s) i) \<and>
     ps_added s = ps_taken s @ taskqueue (ps_pool s) \<and>
     (wp_stop (ps_pool s) \<longleftrightarrow> ps_dtor s \<noteq> D_none) \<and>
     (\<forall>k. ps_dtor s = D_join k \<longrightarrow>
        k \<le> wp_size (ps_pool s) \<and> (\<forall>i < k. wp_workers (ps_pool s) ! i = W_ended)) \<and>
     (\<not> wp_stop (ps_pool s) \<longrightarrow> taskqueue (ps_pool s) \<noteq> [] \<longrightarrow> 0 < wp_size (ps_pool s) \<longrightarrow>
        0 < ps_owed s \<or> (\<exists>i < wp_size (ps_pool s). awake (wp_workers (ps_pool s) ! i)))"

lemma worker_stepE:
  assumes "worker_step i p = Some (Inr p')"
  obtains
    (check) "wp_workers p ! i = W_check" "p' = wp_goto i (if wp_stop p then W_ended else W_lock) p"
  | (lock) "wp_workers p ! i = W_lock \<or> wp_workers p ! i = W_relock" "wp_mutex p = None"
      "p' = wp_goto i W_pred (p\<lparr>wp_mutex := Some i\<rparr>)"
  | (ready) "wp_workers p ! i = W_pred" "wp_stop p \<or> taskqueue p \<noteq> []" "p' = wp_goto i W_ready p"
  | (idle) "wp_workers p ! i = W_pred" "\<not> wp_stop p" "taskqueue p = []" "p' = wp_goto i W_block p"
  | (block) "wp_workers p ! i = W_block" "p' = wp_goto i W_blocked (p\<lparr>wp_mutex := None\<rparr>)"
  | (leave) "wp_workers p ! i = W_ready" "wp_stop p" "taskqueue p = []"
      "p' = wp_goto i W_ended (p\<lparr>wp_mutex := None\<rparr>)"
  | (pop) t ts where "wp_workers p ! i = W_ready" "taskqueue p = t # ts"
      "p' = wp_goto i (W_run t) (p\<lparr>taskqueue := ts, wp_mutex := None\<rparr>)"
  | (ran) t where "wp_workers p ! i = W_run t" "p' = wp_goto i W_check p"
proof (cases "wp_workers p ! i")
  case W_check
  then show ?thesis using check assms by (simp add: worker_step_def)
next
  case W_lock
  then show ?thesis using lock assms by (simp add: worker_step_def take_mutex_def split: if_splits)
next
  case W_pred
  then show ?thesis using ready idle assms by (simp add: worker_step_def split: if_splits)
next
  case W_block
  then show ?thesis using block assms by (simp add: worker_step_def)
next
  case W_blocked
  then show ?thesis using assms by (simp add: worker_step_def)
next
  case W_relock
  then show ?thesis using lock assms by (simp add: worker_step_def take_mutex_def split: if_splits)
next
  case W_ready
  then show ?thesis
    using leave pop assms by (cases "taskqueue p") (simp_all add: worker_step_def split: if_splits)
next
  case (W_run t)
  then show ?thesis using ran assms by (simp add: worker_step_def)
next
  case W_ended
  then show ?thesis using assms by (simp add: worker_step_def)
qed

lemma holds_mutex_simps [simp]:
  "holds_mutex W_pred" "holds_mutex W_block" "holds_mutex W_ready" "\<not> holds_mutex W_check"
  "\<not> holds_mutex W_lock" "\<not> holds_mutex W_blocked" "\<not> holds_mutex W_relock"
  "\<not> holds_mutex (W_run t)" "\<not> holds_mutex W_ended"
  by (simp_all add: holds_mutex_def)

lemma awake_simps [simp]:
  "awake W_check" "awake W_lock" "awake W_pred" "awake W_relock" "awake W_ready" "awake (W_run t)"
  "\<not> awake W_block" "\<not> awake W_blocked" "\<not> awake W_ended"
  by (simp_all add: awake_def)

lemma running_task_simps [simp]:
  "running_task (W_run t) = [t]" "running_task W_check = []" "running_task W_lock = []"
  "running_task W_pred = []" "running_task W_block = []" "running_task W_blocked = []"
  "running_task W_ready = []" "running_task W_ended = []" "running_task W_relock = []"
  by (simp_all add: running_task_def)

lemma wp_goto_simps [simp]:
  "wp_size (wp_goto i pc p) = wp_size p" "taskqueue (wp_goto i pc p) = taskqueue p"
  "wp_mutex (wp_goto i pc p) = wp_mutex p" "wp_stop (wp_goto i pc p) = wp_stop p"
  "i < wp_size p \<Longrightarrow> wp_workers (wp_goto i pc p) ! i = pc"
  "j \<noteq> i \<Longrightarrow> wp_workers (wp_goto i pc p) ! j = wp_workers p ! j"
  by (simp_all add: wp_goto_def wp_size_def)

lemma wp_size_upd [simp]:
  "wp_size (p\<lparr>taskqueue := q\<rparr>) = wp_size p" "wp_size (p\<lparr>wp_mutex := m\<rparr>) = wp_size p"
  "wp_size (p\<lparr>wp_stop := b\<rparr>) = wp_size p"
  by (simp_all add: wp_size_def)

lemma worker_step_post:
  assumes "worker_step i p = Some (Inr p')" and "i < wp_size p"
  shows "wp_size p' = wp_size p \<and> wp_stop p' = wp_stop p \<and> wp_workers p ! i \<noteq> W_ended \<and>
    (\<forall>j. j \<noteq> i \<longrightarrow> wp_workers p' ! j = wp_workers p ! j) \<and>
    taskqueue p = running_task (wp_workers p' ! i) @ taskqueue p' \<and>
    (wp_mutex p' = Some i \<or> wp_mutex p' = None \<or> wp_mutex p' = wp_mutex p) \<and>
    (worker_ok p i \<longrightarrow> awake (wp_workers p' ! i) \<or> taskqueue p' = [] \<or> wp_stop p)"
  using assms by (cases rule: worker_stepE) (auto simp: worker_ok_def)

text \<open>The mutex keeps the facts about the queue that another worker relies on.\<close>

lemma worker_step_ok:
  assumes i: "i < wp_size p" and ok: "worker_ok p i" "worker_ok p j"
    and step: "worker_step i p = Some (Inr p')" and j: "j < wp_size p"
  shows "worker_ok p' j"
proof (cases "j = i")
  case True
  from step show ?thesis
    by (cases rule: worker_stepE) (use i ok(1) True in \<open>simp_all add: worker_ok_def\<close>)
next
  case False
  from step show ?thesis
    by (cases rule: worker_stepE) (use i ok False in \<open>auto simp: worker_ok_def Let_def\<close>)
qed

lemma wake_worker_simps [simp]:
  "holds_mutex (wake_worker pc) = holds_mutex pc" "awake pc \<Longrightarrow> awake (wake_worker pc)"
  "wake_worker pc = W_ready \<longleftrightarrow> pc = W_ready" "wake_worker pc = W_block \<longleftrightarrow> pc = W_block"
  "wake_worker pc = W_ended \<longleftrightarrow> pc = W_ended"
  by (cases pc; simp add: wake_worker_def holds_mutex_def awake_def)+

lemma wake_all_nth [simp]:
  "wp_size (notify_all p) = wp_size p" "taskqueue (notify_all p) = taskqueue p"
  "wp_mutex (notify_all p) = wp_mutex p" "wp_stop (notify_all p) = wp_stop p"
  "i < wp_size p \<Longrightarrow> wp_workers (notify_all p) ! i = wake_worker (wp_workers p ! i)"
  by (simp_all add: notify_all_def wp_size_def)

lemma worker_ok_wake:
  assumes "worker_ok p j" and "wp_workers p ! i = W_blocked" and "i < wp_size p"
  shows "worker_ok (wp_goto i W_relock p) j"
  using assms by (cases "j = i") (auto simp: worker_ok_def Let_def)

lemma ended_wake:
  "wp_workers p ! i = W_blocked \<Longrightarrow> wp_workers p ! j = W_ended \<Longrightarrow>
     wp_workers (wp_goto i pc p) ! j = W_ended"
  by (cases "j = i") auto

lemma pool_own_inv: "pool_own s t \<Longrightarrow> pool_inv s \<Longrightarrow> pool_inv t"
proof (induction rule: pool_own.induct)
  case (worker_moves i s p)
  let ?p = "ps_pool s"
  note post = worker_step_post [OF worker_moves.hyps(2,1)]
  have ok: "worker_ok p j" if "j < wp_size p" for j
    using worker_step_ok [OF worker_moves.hyps(1) _ _ worker_moves.hyps(2), of j] that post
      worker_moves.prems worker_moves.hyps(1) by (auto simp: pool_inv_def)
  have joined: "wp_workers p ! j = W_ended" if "ps_dtor s = D_join k" "j < k" for j k
    using that worker_moves.prems post by (cases "j = i") (auto simp: pool_inv_def)
  have wake: "0 < ps_owed s \<or> (\<exists>j < wp_size p. awake (wp_workers p ! j))"
    if "\<not> wp_stop p" "taskqueue p \<noteq> []" "0 < wp_size p"
    using that post worker_moves by (auto simp: pool_inv_def)
  have mut: "j < wp_size p" if "wp_mutex p = Some j" for j
    using that post worker_moves.hyps(1) worker_moves.prems by (auto simp: pool_inv_def)
  have q: "ps_added s = (ps_taken s @ running_task (wp_workers p ! i)) @ taskqueue p"
    "wp_stop p \<longleftrightarrow> ps_dtor s \<noteq> D_none" "\<And>k. ps_dtor s = D_join k \<Longrightarrow> k \<le> wp_size p"
    using post worker_moves.prems by (simp_all add: pool_inv_def)
  show ?case
    unfolding pool_inv_def by (simp add: q ok mut) (use joined wake q(2) in blast)
next
  case (set_stop s)
  then show ?case by (auto simp: pool_inv_def worker_ok_def Let_def)
next
  case (stop_notify s)
  then show ?case by (auto simp: pool_inv_def worker_ok_def Let_def)
next
  case (join_one s k)
  then show ?case by (auto simp: pool_inv_def less_Suc_eq)
qed

lemma pool_env_inv: "pool_env s t \<Longrightarrow> pool_inv s \<Longrightarrow> pool_inv t"
proof (induction rule: pool_env.induct)
  case (addtask_push t s p)
  then show ?case
    by (auto simp: pool_inv_def push_task_def worker_ok_def Let_def split: if_splits)
next
  case (notify_blocked s n i)
  then show ?case
    by (auto simp: pool_inv_def worker_ok_wake ended_wake intro!: exI [of _ i])
next
  case (notify_nobody s n)
  have "0 < ps_owed (s\<lparr>ps_owed := n\<rparr>) \<or> (\<exists>i < wp_size (ps_pool s). awake (wp_workers (ps_pool s) ! i))"
    if "\<not> wp_stop (ps_pool s)" "taskqueue (ps_pool s) \<noteq> []" "0 < wp_size (ps_pool s)"
  proof -
    have "worker_ok (ps_pool s) 0"
      using notify_nobody.prems that(3) by (simp add: pool_inv_def)
    moreover have "wp_workers (ps_pool s) ! 0 \<noteq> W_blocked"
      using notify_nobody.hyps(2) that(3) nth_mem by (fastforce simp: wp_size_def)
    ultimately have "awake (wp_workers (ps_pool s) ! 0)"
      using that by (cases "wp_workers (ps_pool s) ! 0") (auto simp: worker_ok_def)
    with that(3) show ?thesis by blast
  qed
  with notify_nobody.prems show ?case by (auto simp: pool_inv_def)
next
  case (spurious i s)
  then show ?case by (auto simp: pool_inv_def worker_ok_wake ended_wake intro!: exI [of _ i])
qed

lemma pool_init_inv: "pool_init s \<Longrightarrow> pool_inv s"
  by (auto simp: pool_init_def pool_start_def WorkThreadPool_new_def pool_inv_def worker_ok_def
      wp_size_def Let_def)

interpretation wt: invariant_machine "\<lambda>_ :: unit. True" pool_init "\<lambda>_. pool_step" pool_inv
  by unfold_locales (auto simp: pool_step_def intro: pool_init_inv pool_own_inv pool_env_inv)

text \<open>A worker that waits for the mutex waits for one that can move.\<close>

lemma awake_progress:
  assumes "pool_inv s" and "i < wp_size (ps_pool s)" and "awake (wp_workers (ps_pool s) ! i)"
  shows "\<exists>j < wp_size (ps_pool s). worker_step j (ps_pool s) \<noteq> None"
proof (cases "worker_step i (ps_pool s) = None")
  case True
  then obtain j where j: "wp_mutex (ps_pool s) = Some j"
    using assms(3) by (cases "wp_workers (ps_pool s) ! i")
      (auto simp: worker_step_def take_mutex_def split: if_splits list.splits)
  then have "j < wp_size (ps_pool s)" "holds_mutex (wp_workers (ps_pool s) ! j)"
    using assms(1) by (auto simp: pool_inv_def worker_ok_def Let_def)
  then show ?thesis
    by (cases "wp_workers (ps_pool s) ! j")
      (auto intro!: exI [of _ j] simp: worker_step_def split: list.splits)
qed (use assms(2) in blast)

text \<open>No worker takes a task from an empty queue.\<close>

lemma worker_step_safe:
  "pool_inv s \<Longrightarrow> i < wp_size (ps_pool s) \<Longrightarrow> worker_step i (ps_pool s) \<noteq> Some (Inl e)"
  by (cases "wp_workers (ps_pool s) ! i")
    (auto simp: pool_inv_def worker_ok_def worker_step_def take_mutex_def Let_def split: list.splits)

section \<open>Runs\<close>

text \<open>A pool of one worker, in the states that its runs pass through.\<close>

definition solo :: "nat worker_pc \<Rightarrow> nat list \<Rightarrow> nat option \<Rightarrow> bool \<Rightarrow> nat workpool" where
  "solo pc q m stop = \<lparr>wp_workers = [pc], taskqueue = q, wp_mutex = m, wp_stop = stop\<rparr>"

definition solo_sys :: "nat workpool \<Rightarrow> dtor_pc \<Rightarrow> nat \<Rightarrow> nat list \<Rightarrow> nat pool_sys" where
  "solo_sys p d owed added = \<lparr>ps_pool = p, ps_dtor = d, ps_owed = owed, ps_added = added, ps_taken = []\<rparr>"

lemma solo_reachable: "reachable pool_init pool_step (solo_sys (solo W_check [] None False) D_none 0 [])"
  by (rule reach_init)
    (auto simp: pool_init_def pool_start_def WorkThreadPool_new_def solo_sys_def solo_def intro: exI [of _ 1])

lemma solo_moves:
  assumes "worker_step 0 (solo pc q m b) = Some (Inr (solo pc' q m' b))" and "running_task pc' = []"
  shows "pool_step (solo_sys (solo pc q m b) d k a) (solo_sys (solo pc' q m' b) d k a)"
  unfolding pool_step_def
  using worker_moves [of 0 "solo_sys (solo pc q m b) d k a", simplified solo_sys_def, simplified, OF _ assms(1)]
    assms(2)
  by (simp add: solo_sys_def solo_def wp_size_def)

lemma solo_dtor:
  "pool_step (solo_sys (solo pc q m False) D_none k a) (solo_sys (solo pc q m True) D_stopped k a)"
  "pc \<noteq> W_blocked \<Longrightarrow> pool_step (solo_sys (solo pc q m b) D_stopped k a) (solo_sys (solo pc q m b) (D_join 0) k a)"
  "pool_step (solo_sys (solo W_ended q m b) (D_join 0) k a) (solo_sys (solo W_ended q m b) (D_join 1) k a)"
  using set_stop [of "solo_sys (solo pc q m False) D_none k a"]
    stop_notify [of "solo_sys (solo pc q m b) D_stopped k a"]
    join_one [of "solo_sys (solo W_ended q m b) (D_join 0) k a"]
  by (simp_all add: pool_step_def solo_sys_def solo_def notify_all_def wake_worker_def wp_size_def
      split: worker_pc.splits)

lemma solo_add:
  "pool_step (solo_sys (solo pc q None b) d k a) (solo_sys (solo pc (q @ [t]) None b) d (Suc k) (a @ [t]))"
  using addtask_push [of t "solo_sys (solo pc q None b) d k a"]
  by (simp add: pool_step_def push_task_def solo_sys_def solo_def)

lemmas solo_steps = solo_def worker_step_def take_mutex_def wp_goto_def

lemma solo_worker:
  "pool_step (solo_sys (solo W_check q m False) d k a) (solo_sys (solo W_lock q m False) d k a)"
  "pool_step (solo_sys (solo W_check q m True) d k a) (solo_sys (solo W_ended q m True) d k a)"
  "pool_step (solo_sys (solo W_lock q None b) d k a) (solo_sys (solo W_pred q (Some 0) b) d k a)"
  "pool_step (solo_sys (solo W_pred [] m False) d k a) (solo_sys (solo W_block [] m False) d k a)"
  "pool_step (solo_sys (solo W_block q m b) d k a) (solo_sys (solo W_blocked q None b) d k a)"
  by (rule solo_moves; simp add: solo_steps)+

lemma solo_blocking:
  "is_run pool_step (solo_sys (solo W_check [] None False) D_none k a)
     [solo_sys (solo W_lock [] None False) D_none k a, solo_sys (solo W_pred [] (Some 0) False) D_none k a,
      solo_sys (solo W_block [] (Some 0) False) D_none k a]"
  by (simp add: solo_worker)

section \<open>Properties\<close>

text \<open>
  C27: Tasks are taken in the order they were added, each by one worker and none twice: at any time,
  the tasks added are those taken followed by those in the queue. No worker takes a task from an
  empty queue, and when the destructor has joined the last thread every worker has ended.
\<close>

theorem tasks_in_order:
  assumes "reachable pool_init pool_step s"
  shows "ps_added s = ps_taken s @ taskqueue (ps_pool s) \<and>
    (\<forall>i < wp_size (ps_pool s). worker_step i (ps_pool s) \<noteq> Some (Inl e)) \<and>
    (ps_dtor s = D_join (wp_size (ps_pool s)) \<longrightarrow>
       (\<forall>i < wp_size (ps_pool s). wp_workers (ps_pool s) ! i = W_ended))"
proof -
  have inv: "pool_inv s" using wt.reachable_inv [OF _ assms] by simp
  with worker_step_safe [OF inv] show ?thesis by (auto simp: pool_inv_def)
qed

theorem tasks_in_order_witness:
  "ps_added (solo_sys (solo W_check [7] None False) D_none 1 [7]) = [] @ [7]"
proof -
  have "reachable pool_init pool_step (solo_sys (solo W_check [7] None False) D_none 1 [7])"
    using reach_step [OF solo_reachable solo_add, of 7] by simp
  from tasks_in_order [OF this] show ?thesis by (simp add: solo_sys_def solo_def)
qed

text \<open>
  C7: Until the pool is destroyed no task is forgotten: whenever the queue is not empty and every
  \<open>addtask\<close> has notified, some worker is on its way to look at the queue without being notified
  again, and some worker can make a step.
\<close>

theorem no_task_forgotten:
  assumes "reachable pool_init pool_step s" and "ps_dtor s = D_none" and "0 < wp_size (ps_pool s)"
    and "taskqueue (ps_pool s) \<noteq> []" and "ps_owed s = 0"
  shows "(\<exists>i < wp_size (ps_pool s). awake (wp_workers (ps_pool s) ! i)) \<and>
    (\<exists>j < wp_size (ps_pool s). worker_step j (ps_pool s) \<noteq> None)"
proof -
  have inv: "pool_inv s" using wt.reachable_inv [OF _ assms(1)] by simp
  then obtain i where "i < wp_size (ps_pool s)" "awake (wp_workers (ps_pool s) ! i)"
    using assms(2-) by (auto simp: pool_inv_def)
  with awake_progress [OF inv] show ?thesis by blast
qed

theorem no_task_forgotten_witness:
  "\<exists>s :: nat pool_sys. reachable pool_init pool_step s \<and> taskqueue (ps_pool s) = [7] \<and>
    (\<exists>i < wp_size (ps_pool s). awake (wp_workers (ps_pool s) ! i))"
proof -
  let ?a = "solo_sys (solo W_check [7] None False) D_none 1 [7]"
  let ?b = "?a\<lparr>ps_owed := 0\<rparr>"
  have "pool_step ?a ?b"
    unfolding pool_step_def by (rule disjI2, rule notify_nobody) (simp_all add: solo_sys_def solo_def)
  moreover have "reachable pool_init pool_step ?a"
    using reach_step [OF solo_reachable solo_add, of 7] by simp
  ultimately have r: "reachable pool_init pool_step ?b" by (rule reach_step [rotated])
  have b: "ps_dtor ?b = D_none" "0 < wp_size (ps_pool ?b)" "taskqueue (ps_pool ?b) = [7]" "ps_owed ?b = 0"
    by (simp_all add: solo_sys_def solo_def wp_size_def)
  from b(3) have "taskqueue (ps_pool ?b) \<noteq> []" by simp
  from no_task_forgotten [OF r b(1,2) this b(4)] r b(3) show ?thesis by blast
qed

text \<open>
  The destructor does not wait for the queued tasks: with one worker, a task added before the
  destructor is called can still be in the queue when the destructor has joined every thread, and
  no worker is left to run it.
\<close>

theorem destructor_drops_tasks:
  "\<exists>s :: nat pool_sys. reachable pool_init pool_step s \<and> ps_dtor s = D_join (wp_size (ps_pool s)) \<and>
    ps_added s = [7] \<and> ps_taken s = [] \<and> taskqueue (ps_pool s) = [7]"
proof -
  let ?run = "[solo_sys (solo W_check [7] None False) D_none 1 [7],
    solo_sys (solo W_check [7] None True) D_stopped 1 [7],
    solo_sys (solo W_ended [7] None True) D_stopped 1 [7],
    solo_sys (solo W_ended [7] None True) (D_join 0) 1 [7],
    solo_sys (solo W_ended [7] None True) (D_join 1) 1 [7]]"
  have "is_run pool_step (solo_sys (solo W_check [] None False) D_none 0 []) ?run"
    using solo_add [of W_check "[]" False D_none 0 "[]" 7]
    by (simp add: solo_worker solo_dtor [unfolded One_nat_def])
  then have "reachable pool_init pool_step (last ?run)"
    by (rule reachable_run [OF solo_reachable]) simp
  then show ?thesis
    by (intro exI [of _ "last ?run"]) (simp add: solo_sys_def solo_def wp_size_def)
qed

text \<open>
  C28: The destructor can wait for ever: it sets the flag without the mutex, so a worker that has
  found the flag unset can block after the notification, and then neither the worker nor the
  destructor can make another step.
\<close>

theorem destructor_can_hang:
  "\<exists>s :: nat pool_sys. reachable pool_init pool_step s \<and> wp_stop (ps_pool s) \<and> ps_dtor s = D_join 0 \<and>
    wp_size (ps_pool s) = 1 \<and> (\<nexists>t. pool_own s t)"
proof -
  let ?b = "solo_sys (solo W_block [] (Some 0) False) D_none 0 []"
  let ?run = "[solo_sys (solo W_block [] (Some 0) True) D_stopped 0 [],
    solo_sys (solo W_block [] (Some 0) True) (D_join 0) 0 [],
    solo_sys (solo W_blocked [] None True) (D_join 0) 0 []]"
  have b: "reachable pool_init pool_step ?b"
    by (rule reachable_run [OF solo_reachable solo_blocking]) simp
  have "is_run pool_step ?b ?run"
    by (simp add: solo_worker solo_dtor)
  then have "reachable pool_init pool_step (last ?run)"
    by (rule reachable_run [OF b]) simp
  moreover have "\<not> pool_own (last ?run) t" for t
    by (auto simp: solo_sys_def solo_def wp_size_def worker_step_def elim!: pool_own.cases)
  ultimately show ?thesis
    by (intro exI [of _ "last ?run"]) (simp add: solo_sys_def solo_def wp_size_def)
qed

end
