(* ===== verification/Worker_Stop.thy ===== *)
theory Worker_Stop
  imports WorkerPool
begin

text \<open>
  When the destructor of the worker pool (\<open>src/net/WorkerThreadPool.cc\<close>) does return: once the flag
  is set and no worker is about to block, the pool's own threads reach the end of the destructor in
  a bounded number of steps, whatever the order in which they are scheduled.
\<close>

section \<open>The measure\<close>

text \<open>
  A bound on the steps a worker still makes once the flag is set: from the lock on it evaluates
  the predicate, takes at most one task, runs it and finds the flag.
\<close>

definition steps_to_end :: "'t worker_pc \<Rightarrow> nat" where
  "steps_to_end pc = (case pc of W_ended \<Rightarrow> 0 | W_check \<Rightarrow> 1 | W_run _ \<Rightarrow> 2 | W_ready \<Rightarrow> 3 | W_pred \<Rightarrow> 4
     | W_lock \<Rightarrow> 5 | W_relock \<Rightarrow> 5 | W_blocked \<Rightarrow> 6 | W_block \<Rightarrow> 7)"

definition joins_left :: "'t pool_sys \<Rightarrow> nat" where
  "joins_left s = (case ps_dtor s of D_join k \<Rightarrow> wp_size (ps_pool s) - k | _ \<Rightarrow> Suc (wp_size (ps_pool s)))"

definition stop_bound :: "'t pool_sys \<Rightarrow> nat" where
  "stop_bound s = (\<Sum>pc\<leftarrow>wp_workers (ps_pool s). steps_to_end pc) + joins_left s"

text \<open>
  The flag is set, no worker is between the evaluation of the predicate and the wait, and those
  that wait are yet to be notified.
\<close>

definition stopping :: "'t pool_sys \<Rightarrow> bool" where
  "stopping s \<longleftrightarrow> pool_inv s \<and> wp_stop (ps_pool s) \<and> W_block \<notin> set (wp_workers (ps_pool s)) \<and>
     (ps_dtor s = D_stopped \<or> W_blocked \<notin> set (wp_workers (ps_pool s)))"

lemma steps_to_end_simps [simp]:
  "steps_to_end W_ended = 0" "steps_to_end W_check = 1" "steps_to_end (W_run t) = 2"
  "steps_to_end W_ready = 3" "steps_to_end W_pred = 4" "steps_to_end W_lock = 5"
  "steps_to_end W_relock = 5" "steps_to_end W_blocked = 6" "steps_to_end W_block = 7"
  by (simp_all add: steps_to_end_def)

lemma sum_list_decr:
  "i < length xs \<Longrightarrow> f y < f (xs ! i) \<Longrightarrow> (\<Sum>x\<leftarrow>xs[i := y]. f x) < (\<Sum>x\<leftarrow>xs. f x :: nat)"
proof (induction xs arbitrary: i)
  case (Cons a xs)
  then show ?case by (cases i) simp_all
qed simp

text \<open>A worker's step brings it nearer to its end, and does not block it.\<close>

lemma worker_step_nearer:
  assumes "worker_step i p = Some (Inr p')" and "i < wp_size p" and "wp_stop p"
    and "wp_workers p ! i \<noteq> W_block"
  shows "\<exists>pc. wp_workers p' = (wp_workers p)[i := pc] \<and> steps_to_end pc < steps_to_end (wp_workers p ! i) \<and>
    pc \<noteq> W_block \<and> pc \<noteq> W_blocked"
  using assms by (cases rule: worker_stepE) (auto simp: wp_goto_def)

lemma wake_steps: "steps_to_end (wake_worker pc) \<le> steps_to_end pc"
  by (simp add: wake_worker_def split: worker_pc.split)

lemma wake_sum: "(\<Sum>pc\<leftarrow>map wake_worker pcs. steps_to_end pc) \<le> (\<Sum>pc\<leftarrow>pcs. steps_to_end pc)"
  by (induction pcs) (simp_all add: add_mono wake_steps)

lemma wake_blocked:
  "W_blocked \<notin> wake_worker ` A" "W_block \<notin> A \<Longrightarrow> W_block \<notin> wake_worker ` A"
  by (auto simp: wake_worker_def split: worker_pc.splits)

lemma own_stopping:
  assumes "pool_own s t" and "stopping s"
  shows "stopping t \<and> stop_bound t < stop_bound s"
  using assms
proof (induction rule: pool_own.induct)
  case (worker_moves i s p)
  let ?ws = "wp_workers (ps_pool s)"
  have i: "i < length ?ws" using worker_moves.hyps(1) by (simp add: wp_size_def)
  have "?ws ! i \<noteq> W_block" using worker_moves.prems nth_mem [OF i] by (auto simp: stopping_def)
  moreover have stop: "wp_stop (ps_pool s)" using worker_moves.prems by (simp add: stopping_def)
  ultimately obtain pc where pc: "wp_workers p = ?ws[i := pc]" "steps_to_end pc < steps_to_end (?ws ! i)"
      "pc \<noteq> W_block" "pc \<noteq> W_blocked"
    using worker_step_nearer [OF worker_moves.hyps(2,1)] by blast
  have sub: "set (?ws[i := pc]) \<subseteq> insert pc (set ?ws)" by (rule set_update_subset_insert)
  from worker_step_post [OF worker_moves.hyps(2,1)]
  have size: "wp_size p = wp_size (ps_pool s)" "wp_stop p" using stop by simp_all
  have inv: "pool_inv (s\<lparr>ps_pool := p, ps_taken := ps_taken s @ running_task (wp_workers p ! i)\<rparr>)"
    by (rule pool_own_inv [OF pool_own.worker_moves [OF worker_moves.hyps]])
      (use worker_moves.prems in \<open>simp add: stopping_def\<close>)
  from inv sub pc size worker_moves.prems sum_list_decr [where f = steps_to_end, OF i pc(2)] show ?case
    by (auto simp: stopping_def stop_bound_def joins_left_def split: dtor_pc.split)
next
  case (set_stop s)
  then have False by (auto simp: stopping_def pool_inv_def)
  then show ?case ..
next
  case (stop_notify s)
  have "pool_inv (s\<lparr>ps_pool := notify_all (ps_pool s), ps_dtor := D_join 0\<rparr>)"
    by (rule pool_own_inv [OF pool_own.stop_notify [OF stop_notify.hyps]])
      (use stop_notify.prems in \<open>simp add: stopping_def\<close>)
  then show ?case
    using stop_notify wake_sum [of "wp_workers (ps_pool s)"] wake_blocked
    by (auto simp: stopping_def stop_bound_def joins_left_def notify_all_def wp_size_def)
next
  case (join_one s k)
  have "pool_inv (s\<lparr>ps_dtor := D_join (Suc k)\<rparr>)"
    by (rule pool_own_inv [OF pool_own.join_one [OF join_one.hyps]])
      (use join_one.prems in \<open>simp add: stopping_def\<close>)
  then show ?case
    using join_one by (auto simp: stopping_def stop_bound_def joins_left_def)
qed

interpretation ws: settling_machine pool_own stopping stop_bound
  by unfold_locales (simp_all add: own_stopping)

lemma stop_bound_le: "stop_bound s \<le> 8 * wp_size (ps_pool s) + 1"
proof -
  have "(\<Sum>pc\<leftarrow>pcs. steps_to_end pc) \<le> 7 * length pcs" for pcs :: "'t worker_pc list"
  proof (induction pcs)
    case (Cons pc pcs)
    then show ?case by (cases pc) simp_all
  qed simp
  from this [of "wp_workers (ps_pool s)"] show ?thesis
    by (cases "ps_dtor s") (simp_all add: stop_bound_def joins_left_def wp_size_def)
qed

text \<open>Until the last thread is joined, some thread can move.\<close>

lemma stopping_moves:
  assumes "stopping s" and "ps_dtor s \<noteq> D_join (wp_size (ps_pool s))"
  shows "\<exists>t. pool_own s t"
proof (cases "ps_dtor s")
  case D_none
  with assms show ?thesis by (auto intro: set_stop)
next
  case D_stopped
  then show ?thesis by (auto intro: stop_notify)
next
  case (D_join k)
  let ?p = "ps_pool s"
  have inv: "pool_inv s" using assms by (simp add: stopping_def)
  with assms(2) D_join have k: "k < wp_size ?p" by (force simp: pool_inv_def)
  show ?thesis
  proof (cases "wp_workers ?p ! k = W_ended")
    case True
    with D_join k show ?thesis by (auto intro: join_one)
  next
    case False
    moreover have "wp_workers ?p ! k \<in> set (wp_workers ?p)" using k by (simp add: wp_size_def)
    ultimately have "awake (wp_workers ?p ! k)"
      using assms(1) D_join by (cases "wp_workers ?p ! k") (auto simp: stopping_def)
    from awake_progress [OF inv k this] obtain j r where j: "j < wp_size ?p" "worker_step j ?p = Some r"
      by blast
    with worker_step_safe [OF inv j(1)] obtain p where "r = Inr p" by (cases r) auto
    with j show ?thesis by (auto intro: worker_moves)
  qed
qed

lemma stopping_ends:
  assumes "stopping s"
  shows "(\<nexists>t. pool_own s t) \<longleftrightarrow>
    ps_dtor s = D_join (wp_size (ps_pool s)) \<and> (\<forall>i < wp_size (ps_pool s). wp_workers (ps_pool s) ! i = W_ended)"
proof
  assume "\<nexists>t. pool_own s t"
  with stopping_moves [OF assms] have "ps_dtor s = D_join (wp_size (ps_pool s))" by blast
  with assms show "ps_dtor s = D_join (wp_size (ps_pool s)) \<and>
      (\<forall>i < wp_size (ps_pool s). wp_workers (ps_pool s) ! i = W_ended)"
    by (auto simp: stopping_def pool_inv_def)
qed (auto simp: worker_step_def elim!: pool_own.cases)

section \<open>Properties\<close>

text \<open>
  C13: If the destructor of the worker pool sets the flag while no worker is between the evaluation
  of the wait's predicate and the wait, it returns: every run of the pool's threads from there has
  at most eight steps per worker and one more, and a run can only stop where the destructor has
  joined every thread and every worker has ended.
\<close>

theorem destructor_returns:
  assumes "reachable pool_init pool_step s" and "wp_stop (ps_pool s)"
    and "W_block \<notin> set (wp_workers (ps_pool s))"
    and "ps_dtor s = D_stopped \<or> W_blocked \<notin> set (wp_workers (ps_pool s))"
    and "is_run pool_own s run"
  shows "length run \<le> 8 * wp_size (ps_pool s) + 1 \<and>
    ((\<nexists>t. pool_own (last (s # run)) t) \<longleftrightarrow>
       ps_dtor (last (s # run)) = D_join (wp_size (ps_pool (last (s # run)))) \<and>
       (\<forall>i < wp_size (ps_pool (last (s # run))). wp_workers (ps_pool (last (s # run))) ! i = W_ended))"
proof -
  have "stopping s" using assms(2-4) wt.reachable_inv [OF _ assms(1)] by (simp add: stopping_def)
  from order_trans [OF ws.run_bound [OF this assms(5)] stop_bound_le] stopping_ends [OF ws.run_ok [OF this assms(5)]]
  show ?thesis by (rule conjI)
qed

theorem destructor_returns_witness:
  "\<exists>(s :: nat pool_sys) t. reachable pool_init pool_step s \<and> wp_workers (ps_pool s) = [W_check] \<and>
    is_run pool_own s [t] \<and> (\<exists>u. pool_own t u)"
proof -
  let ?s = "solo_sys (solo W_check [] None True) D_stopped 0 [] :: nat pool_sys"
  let ?t = "solo_sys (solo W_check [] None True) (D_join 0) 0 [] :: nat pool_sys"
  have r: "reachable pool_init pool_step ?s" by (rule reach_step [OF solo_reachable solo_dtor(1)])
  have run: "is_run pool_own ?s [?t]"
    using stop_notify [of ?s]
    by (simp add: solo_sys_def solo_def notify_all_def wake_worker_def)
  have "\<exists>u. pool_own ?t u"
    using destructor_returns [OF r _ _ _ run]
    by (simp add: solo_sys_def solo_def wp_size_def)
  with r run show ?thesis
    by (intro exI [of _ ?s] exI [of _ ?t]) (simp add: solo_sys_def solo_def)
qed

end
