(* ===== verification/Chat.thy ===== *)
theory Chat
  imports Server WorkerPool Connection_Run
begin

text \<open>
  The program of \<open>src/main.cpp\<close>: a server whose message callback takes all bytes out of the
  connection's buffer and hands them to a worker thread, which sends them back.
\<close>

section \<open>The callbacks\<close>

text \<open>The functions bound as the server's callbacks, and the tasks given to the workers.\<close>

datatype chat_cb = Chat_onConnection | Chat_onMessage | Chat_removeConnection

record chat_task =
  ct_conn :: nat
  ct_time :: timestamp
  ct_buf :: bytes

text \<open>\<open>ch_arrived\<close> counts the lines that announce a connection; \<open>ch_out\<close> is the other output.\<close>

record chat =
  ch_pool :: "chat_task workpool"
  ch_arrived :: nat
  ch_out :: bytes

definition chat_onConnection :: "chat \<Rightarrow> chat" where
  "chat_onConnection u = u\<lparr>ch_arrived := ch_arrived u + 1\<rparr>"

text \<open>The task that \<open>onMessage\<close> makes; \<open>addtask\<close> waits for the mutex and adds it.\<close>

definition chat_addtask :: "chat_task \<Rightarrow> chat \<Rightarrow> chat" where
  "chat_addtask t u = u\<lparr>ch_pool := (ch_pool u)\<lparr>taskqueue := taskqueue (ch_pool u) @ [t]\<rparr>\<rparr>"

lemma chat_addtask_push:
  "push_task t (ch_pool u) = Some p \<Longrightarrow> chat_addtask t u = u\<lparr>ch_pool := p\<rparr>"
  by (auto simp: push_task_def chat_addtask_def split: if_splits)

definition chat_onMessage :: "nat \<Rightarrow> Buffer \<Rightarrow> timestamp \<Rightarrow> chat \<Rightarrow> chat" where
  "chat_onMessage conn b time u =
     chat_addtask \<lparr>ct_conn = conn, ct_time = time, ct_buf = contents b\<rparr> u"

text \<open>The callbacks as the user's part of a connection: \<open>onMessage\<close> empties the buffer.\<close>

definition chat_app :: "(chat_cb, chat) app" where
  "chat_app cb ev c u =
     (case cb of
        Chat_onConnection \<Rightarrow> ([], chat_onConnection u)
      | Chat_onMessage \<Rightarrow>
          (case ev of
             On_message time \<Rightarrow> ([Call_retrieveAll], chat_onMessage (co_id c) (InputBuffer c) time u)
           | _ \<Rightarrow> ([], u))
      | Chat_removeConnection \<Rightarrow> ([], u))"

text \<open>
  What the callbacks call is proper, so a connection of the chat server run by its loop never goes
  wrong by itself; the echo of a worker is another thread's send.
\<close>

lemma chat_app_proper: "proper_app {} chat_app"
  by (simp add: proper_app_def chat_app_def split: chat_cb.split app_event.split)

text \<open>Taking \<open>contents\<close> and then emptying the buffer is \<open>retrieveAllAsString\<close>.\<close>

lemma retrieveAll_string:
  "Buffer_inv b \<Longrightarrow> retrieveAllAsString b = Inr (contents b, retrieveAll b)"
  by (simp add: retrieveAllAsString_def retrieveAsString_post length_contents [symmetric] retrieve_def)

text \<open>
  A worker runs a task: it prints, sends the captured string, which lives at an address of its own,
  and destroys the task with the string.
\<close>

definition echo_line :: "(int64 \<Rightarrow> tm) \<Rightarrow> chat_task \<Rightarrow> bytes" where
  "echo_line localtime t =
     ''recv data : '' @ ct_buf t @ '' time : '' @ toString localtime (Timestamp_of (ct_time t)) @ [CHR 0x0A]"

definition run_chat_task ::
  "kernel \<Rightarrow> (int64 \<Rightarrow> tm) \<Rightarrow> nat \<Rightarrow> chat_task \<Rightarrow> (chat_cb, chat) world \<Rightarrow> (chat_cb, chat) world result"
  where
  "run_chat_task K localtime tid t s =
     (let ptr = w_next s;
          s1 = s\<lparr>w_strings := (w_strings s)(ptr \<mapsto> ct_buf t), w_next := Suc ptr,
                 w_app := (w_app s)\<lparr>ch_out := ch_out (w_app s) @ echo_line localtime t\<rparr>\<rparr>
      in rbind (Connection_send K tid ptr s1)
           (\<lambda>s2. Inr (s2\<lparr>w_strings := (w_strings s2)(ptr := None)\<rparr>)))"

section \<open>The program\<close>

record chat_server =
  cs_server :: "chat_cb server"
  cs_loop :: nat
  cs_threadPool :: "chat_task workpool"

definition ChatServer_new ::
  "acceptor_calls \<Rightarrow> nat \<Rightarrow> InetAddress \<Rightarrow> string \<Rightarrow> chat_server result" where
  "ChatServer_new kern loop listenAddr nameArg =
     rbind (TcpServer_new kern (Some loop) listenAddr nameArg kNoReusePort) (\<lambda>v.
     Inr \<lparr>cs_server = server_setThreadNum 4
            (server_setMessageCallback (Some Chat_onMessage)
            (server_setConnectionCallback (Some Chat_onConnection) v)),
          cs_loop = loop, cs_threadPool = WorkThreadPool_new 4\<rparr>)"

definition ChatServer_start ::
  "kernel \<Rightarrow> (nat \<Rightarrow> nat) \<Rightarrow> errno option \<Rightarrow> nat \<Rightarrow> chat_cb net \<Rightarrow> chat_cb net result" where
  "ChatServer_start K startloop_of err tid s = TcpServer_start K startloop_of err tid s"

text \<open>
  \<open>main\<close> up to the call of \<open>loop()\<close>. The main loop is number 0; \<open>loops\<close> are the loops of the
  threads that \<open>start\<close> creates, \<open>env\<close> the answers to the constructor of the main loop.
\<close>

definition chat_main ::
  "kernel \<Rightarrow> bool \<times> (errno + int) \<times> (errno + int) \<Rightarrow> (string \<Rightarrow> octets) \<Rightarrow> acceptor_calls \<Rightarrow>
     (nat \<Rightarrow> nat) \<Rightarrow> errno option \<Rightarrow> (nat \<Rightarrow> (server_task, server_cb) evloop) \<Rightarrow> nat \<Rightarrow>
     (chat_cb net \<times> chat_task workpool) result" where
  "chat_main K env inet_addr kern startloop_of err loops tid =
     (case env of (use_poll, epoll, efd) \<Rightarrow>
      rbind (EventLoop_new use_poll epoll efd (kn_ctl K, 1) Cb_wakeup 0 tid None) (\<lambda>(loop, t_loop).
      let addr = InetAddress_ip_port inet_addr ''192.168.88.133'' 54321
      in rbind (ChatServer_new kern 0 addr ''ChatServer'') (\<lambda>server.
         rbind (ChatServer_start K startloop_of err tid
                  \<lparr>ns_server = cs_server server, ns_alive = True, ns_loops = loops(0 := loop),
                   ns_conns = [], ns_calls = (\<lambda>_. [])\<rparr>)
           (\<lambda>s. Inr (s, cs_threadPool server)))))"

section \<open>Properties\<close>

text \<open>
  C31: A message is handed over whole: when the read handler of a connection receives bytes, the
  chat server adds one task, for that connection and with exactly the bytes in the buffer and
  those received, to the end of the workers' queue, and leaves the buffer empty.
\<close>

theorem message_becomes_task:
  assumes "Buffer_inv (InputBuffer (w_conn s))" and "readv_doc (kn_readv K)"
    and "65536 \<le> vec_room (InputBuffer (w_conn s))"
    and "cn_messageCallback (w_conn s) = Some Chat_onMessage"
    and "kn_readv K (readFd_iov (InputBuffer (w_conn s))) = Inr bs" and "bs \<noteq> []"
  shows "\<exists>t. handleRead K chat_app tid time s = Inr t \<and>
    taskqueue (ch_pool (w_app t)) = taskqueue (ch_pool (w_app s)) @
      [\<lparr>ct_conn = co_id (w_conn s), ct_time = time, ct_buf = contents (InputBuffer (w_conn s)) @ bs\<rparr>] \<and>
    contents (InputBuffer (w_conn t)) = [] \<and> co_state (w_conn t) = co_state (w_conn s)"
proof -
  obtain b where "readFd (kn_readv K) (InputBuffer (w_conn s)) = Inr (int (length bs), None, b)"
    and "contents b = contents (InputBuffer (w_conn s)) @ bs"
    using readFd_received [OF assms(1,2) disjI1 [OF assms(3)] assms(5)] by blast
  with assms(4,6) show ?thesis
    by (simp add: handleRead_def call_user_def chat_app_def chat_onMessage_def chat_addtask_def
        retrieveAll_post)
qed

text \<open>The connection of the chat server in its loop, for the witnesses.\<close>

definition chat_start :: chat where
  "chat_start = \<lparr>ch_pool = WorkThreadPool_new 4, ch_arrived = 0, ch_out = []\<rparr>"

definition chat_conn :: "chat_cb connection" where
  "chat_conn = \<lparr>co_id = 3, co_name = ''chat'', co_state = kConnected,
     co_sock = Socket_new 7, co_channel = demo_channel,
     co_localAddr = demo_addr, co_peerAddr = demo_addr, cn_connectionCallback = Some Chat_onConnection,
     cn_messageCallback = Some Chat_onMessage, cn_writeCompleteCallback = None,
     cn_highWaterMarkCallback = None, cn_closeCallback = Some Chat_removeConnection,
     highWaterMark = 67108864, InputBuffer = initial_buffer, OutputBuffer = initial_buffer\<rparr>"

definition chat_world :: "(chat_cb, chat) world" where
  "chat_world = \<lparr>w_conn = chat_conn,
     w_loop = \<lparr>el_looping = True, el_quit = False, el_calling = False, el_thread = 1,
       el_poller = Some empty_poller, el_wakeupfd = 5, el_wakeup = Channel_new 0 5, el_efd = 0,
       el_active = [], el_pollTime = 0, el_pending = []\<rparr>,
     w_wire = [], w_accepted = [], w_strings = (\<lambda>_. None), w_next = 0, w_errors = [],
     w_app = chat_start\<rparr>"

theorem message_becomes_task_witness:
  "\<exists>t. handleRead (demo_kernel\<lparr>kn_readv := \<lambda>iov. if sum_list (map unat iov) < 5 then Inl 11 else Inr ''hello''\<rparr>)
      chat_app 1 9 chat_world = Inr t \<and>
    taskqueue (ch_pool (w_app t)) = [\<lparr>ct_conn = 3, ct_time = 9, ct_buf = ''hello''\<rparr>]"
proof -
  let ?r = "\<lambda>iov. if sum_list (map unat iov) < 5 then Inl 11 else Inr ''hello''"
  let ?K = "demo_kernel\<lparr>kn_readv := ?r\<rparr>"
  have b: "InputBuffer (w_conn chat_world) = initial_buffer"
    by (simp add: chat_world_def chat_conn_def)
  have doc: "readv_doc (kn_readv ?K)" by (auto simp: readv_doc_def split: if_splits)
  have r: "kn_readv ?K (readFd_iov (InputBuffer (w_conn chat_world))) = Inr ''hello''"
    by (auto simp: b readFd_iov_def writableBytes_def vec_size_def initial_buffer_def extrabuf_size_def)
  have "65536 \<le> vec_room (InputBuffer (w_conn chat_world))"
    "Buffer_inv (InputBuffer (w_conn chat_world))"
    using initial_buffer_facts(2,5) by (simp_all add: b)
  from message_becomes_task [OF this(2) doc this(1) _ r, of 1 9] show ?thesis
    by (auto simp: b initial_buffer_facts(3))
      (auto simp: chat_world_def chat_conn_def chat_start_def WorkThreadPool_new_def)
qed

text \<open>
  C32: The echo is undefined behaviour: a worker is not the thread of the connection's loop, so a
  task run on a connection that is up only queues a functor with a pointer into the task's own
  string; the task is destroyed when it returns, nothing has been written, and when the loop
  performs the functor it reads freed memory.
\<close>

theorem echo_reads_freed_string:
  assumes "co_state (w_conn s) = kConnected" and "tid \<noteq> el_thread (w_loop s)"
  shows "\<exists>t f. run_chat_task K localtime tid task s = Inr t \<and>
    el_pending (w_loop t) = el_pending (w_loop s) @ [f] \<and> w_wire t = w_wire s \<and>
    run_task K' app tid' f t = Inl Use_after_free"
  using assms
  by (simp add: run_chat_task_def Let_def Connection_send_def connected_def isInLoopThread_def
      run_or_queue_def)

theorem echo_reads_freed_string_witness:
  "\<exists>t f. run_chat_task demo_kernel (\<lambda>_. \<lparr>tm_sec = 0, tm_min = 0, tm_hour = 0, tm_mday = 1, tm_mon = 0, tm_year = 70\<rparr>) 2 \<lparr>ct_conn = 3, ct_time = 9, ct_buf = ''hello''\<rparr> chat_world = Inr t \<and>
    el_pending (w_loop t) = [f] \<and> run_task demo_kernel chat_app 1 f t = Inl Use_after_free"
proof -
  have c: "co_state (w_conn chat_world) = kConnected" "2 \<noteq> el_thread (w_loop chat_world)"
    "el_pending (w_loop chat_world) = []"
    by (simp_all add: chat_world_def chat_conn_def)
  from echo_reads_freed_string [OF c(1,2), of demo_kernel "\<lambda>_. \<lparr>tm_sec = 0, tm_min = 0, tm_hour = 0, tm_mday = 1, tm_mon = 0, tm_year = 70\<rparr>"
      "\<lparr>ct_conn = 3, ct_time = 9, ct_buf = ''hello''\<rparr>" demo_kernel chat_app 1] c(3)
  show ?thesis by auto
qed

text \<open>
  If every call of its setup succeeds, \<open>main\<close> reaches \<open>loop()\<close> with a server that is ready to
  accept, from the state in which the life of its connections is followed: four loop threads whose
  loops are used in turn, four workers, its callbacks set and its table empty.
\<close>

theorem main_sets_up:
  assumes "chat_main K env inet_addr kern startloop_of err loops tid = Inr (s, pool)"
    and "\<And>l. el_pending (loops l) = []"
  shows "net_init s \<and> getAllloops (ts_pool (ns_server s)) = map startloop_of [0..<4] \<and>
    wp_size pool = 4 \<and> ts_messageCallback (ns_server s) = Some Chat_onMessage \<and>
    ts_connectionCallback (ns_server s) = Some Chat_onConnection"
proof -
  let ?addr = "InetAddress_ip_port inet_addr ''192.168.88.133'' 54321"
  obtain use_poll epoll efd where env: "env = (use_poll, epoll, efd)" by (cases env)
  obtain loop t_loop v where
    l: "EventLoop_new use_poll epoll efd (kn_ctl K, 1) Cb_wakeup 0 tid None = Inr (loop, t_loop)"
    and v: "TcpServer_new kern (Some 0) ?addr ''ChatServer'' kNoReusePort = Inr v"
    and st: "TcpServer_start K startloop_of err tid
      \<lparr>ns_server = server_setThreadNum 4 (server_setMessageCallback (Some Chat_onMessage)
         (server_setConnectionCallback (Some Chat_onConnection) v)),
       ns_alive = True, ns_loops = loops(0 := loop), ns_conns = [], ns_calls = (\<lambda>_. [])\<rparr> = Inr s"
    and pool: "pool = WorkThreadPool_new 4"
    using assms(1)
    by (auto simp: chat_main_def env rbind_Inr_iff ChatServer_new_def ChatServer_start_def Let_def)
  have p: "el_pending ((loops(0 := loop)) l) = []" for l
    using new_loop_pending [OF l] assms(2) by simp
  let ?v = "server_setMessageCallback (Some Chat_onMessage)
    (server_setConnectionCallback (Some Chat_onConnection) v)"
  have "new_server ?v" using new_server_parts [OF v] by simp
  from server_start_init [OF this _ _ _ _ _ st] p show ?thesis
    by (simp add: pool WorkThreadPool_new_def wp_size_def server_setMessageCallback_def
        server_setConnectionCallback_def)
qed

definition demo_acceptor_calls :: acceptor_calls where
  "demo_acceptor_calls = \<lparr>ac_socket = Inr 6, ac_keepalive = None, ac_reuseaddr = None,
     ac_reuseport = None, ac_nodelay = None, ac_bind = None\<rparr>"

lemma main_loop:
  "EventLoop_new False (Inr 4) (Inr 5) (simple_epoll_ctl, 1) Cb_wakeup 0 1 None =
     Inr ((serving_loop 0)\<lparr>el_looping := False, el_thread := 1,
       el_poller := Some (empty_poller\<lparr>channels := [5 \<mapsto> 1], interest := [5 \<mapsto> (3, 1)]\<rparr>),
       el_wakeup := (Channel_new 0 5)\<lparr>ch_events := 3, ch_index := 1, readCallback := Some Cb_wakeup\<rparr>\<rparr>, Some 0)"
  by (simp add: EventLoop_new_def newDefaultPoller_def Epollpoller_new_def creatEventfd_def Let_def
      enableReading_def EventLoop_updateChannel_def Epollpoller_updateChannel_def serving_loop_def
      Epollpoller_update_def simple_epoll_ctl_def Channel_new_def kNew_def kReadEvent_def
      setReadCallback_def empty_poller_def kAdded_def kInitEventListSize_def)

lemma main_server:
  "\<exists>v. ChatServer_new demo_acceptor_calls 0 addr ''ChatServer'' = Inr v \<and>
     acceptChannel (ts_acceptor (cs_server v)) = setReadCallback Cb_accept (Channel_new 0 6) \<and>
     ts_started (cs_server v) = 0 \<and> ts_loop (cs_server v) = 0"
  by (simp add: ChatServer_new_def TcpServer_new_def server_CheckLoopNotNull_def Acceptor_new_def
      demo_acceptor_calls_def bindAddress_def createNonblocking_def Socket_new_def setKeepAlive_def
      setReuseAddr_def setReusePort_def setTcpNoDelay_def Let_def setNewConnecitonCallback_def
      server_setThreadNum_def server_setMessageCallback_def server_setConnectionCallback_def)

lemma main_succeeds:
  "\<exists>s pool. chat_main demo_kernel (False, Inr 4, Inr 5) simple_inet_addr demo_acceptor_calls Suc None
     serving_loop 1 = Inr (s, pool)"
proof -
  obtain v where v: "ChatServer_new demo_acceptor_calls 0
      (InetAddress_ip_port simple_inet_addr ''192.168.88.133'' 54321) ''ChatServer'' = Inr v"
    "acceptChannel (ts_acceptor (cs_server v)) = setReadCallback Cb_accept (Channel_new 0 6)"
    "ts_started (cs_server v) = 0" "ts_loop (cs_server v) = 0"
    using main_server by blast
  have "kn_ctl demo_kernel = simple_epoll_ctl" by (simp add: demo_kernel_def)
  then show ?thesis
    by (simp add: chat_main_def main_loop v ChatServer_start_def TcpServer_start_def net_runInLoop_def
        isInLoopThread_def server_listen_def Acceptor_listen_def Socket_listen_def enableReading_def
        EventLoop_updateChannel_def Epollpoller_updateChannel_def Epollpoller_update_def
        simple_epoll_ctl_def setReadCallback_def Channel_new_def kNew_def Let_def empty_poller_def
        del: One_nat_def)
qed

theorem main_sets_up_witness:
  "\<exists>s pool. chat_main demo_kernel (False, Inr 4, Inr 5) simple_inet_addr demo_acceptor_calls Suc None
     serving_loop 1 = Inr (s, pool) \<and> net_init s \<and> getAllloops (ts_pool (ns_server s)) = [1, 2, 3, 4]"
proof -
  obtain s pool where m: "chat_main demo_kernel (False, Inr 4, Inr 5) simple_inet_addr
      demo_acceptor_calls Suc None serving_loop 1 = Inr (s, pool)"
    using main_succeeds by blast
  have "el_pending (serving_loop l) = []" for l by (simp add: serving_loop_def)
  from main_sets_up [OF m this] m show ?thesis by (simp add: upt_rec)
qed

end
