(* ===== verification/LogBuffers.thy ===== *)
theory LogBuffers
  imports Net_Prelude
begin

text \<open>
  The fixed-size log buffer of \<open>include/base/LogBuffer.h\<close> and \<open>src/base/LogBuffer.cc\<close>: 4096
  bytes and a write position. \<open>append\<close> copies without a check of its own.
\<close>

record LogBuffer =
  lb_bytes :: bytes
  lb_cur :: nat

definition kBufferSize :: nat where
  "kBufferSize = 4096"

definition LogBuffer_new :: LogBuffer where
  "LogBuffer_new = \<lparr>lb_bytes = replicate kBufferSize (CHR 0x00), lb_cur = 0\<rparr>"

text \<open>The pointer difference is cast to \<open>int\<close> and returned as \<open>size_t\<close>.\<close>

definition lb_avail :: "LogBuffer \<Rightarrow> size_t" where
  "lb_avail b = of_int (int kBufferSize - int (lb_cur b))"

definition lb_length :: "LogBuffer \<Rightarrow> size_t" where
  "lb_length b = of_nat (lb_cur b)"

definition lb_append :: "LogBuffer \<Rightarrow> bytes \<Rightarrow> size_t \<Rightarrow> LogBuffer result" where
  "lb_append b msg len =
     (if length msg < unat len \<or> kBufferSize < lb_cur b + unat len then Inl Out_of_bounds
      else Inr (b\<lparr>lb_bytes := overlay (lb_bytes b) (lb_cur b) (take (unat len) msg),
                  lb_cur := lb_cur b + unat len\<rparr>))"

definition lb_reset :: "LogBuffer \<Rightarrow> LogBuffer" where
  "lb_reset b = b\<lparr>lb_cur := 0, lb_bytes := replicate kBufferSize (CHR 0x00)\<rparr>"

text \<open>The text in the buffer: \<open>length()\<close> bytes from \<open>data()\<close>.\<close>

definition lb_text :: "LogBuffer \<Rightarrow> bytes" where
  "lb_text b = take (lb_cur b) (lb_bytes b)"

text \<open>
  \<open>data()\<close> taken for a C string, as the implicit conversion to \<open>std::string\<close> does: the bytes up to
  the first NUL; without one the read leaves the buffer.
\<close>

definition lb_c_string :: "LogBuffer \<Rightarrow> bytes result" where
  "lb_c_string b =
     (if CHR 0x00 \<in> set (lb_bytes b) then Inr (takeWhile (\<lambda>c. c \<noteq> CHR 0x00) (lb_bytes b))
      else Inl Out_of_bounds)"

definition lb_inv :: "LogBuffer \<Rightarrow> bool" where
  "lb_inv b \<longleftrightarrow> length (lb_bytes b) = kBufferSize \<and> lb_cur b \<le> kBufferSize \<and>
     drop (lb_cur b) (lb_bytes b) = replicate (kBufferSize - lb_cur b) (CHR 0x00)"

lemma lb_new [simp]: "lb_inv LogBuffer_new" "lb_text LogBuffer_new = []" "lb_cur LogBuffer_new = 0"
  by (simp_all add: lb_inv_def LogBuffer_new_def lb_text_def)

lemma lb_reset [simp]: "lb_inv (lb_reset b)" "lb_text (lb_reset b) = []" "lb_cur (lb_reset b) = 0"
  by (simp_all add: lb_inv_def lb_reset_def lb_text_def)

lemma unat_avail: "lb_inv b \<Longrightarrow> unat (lb_avail b) = kBufferSize - lb_cur b"
proof -
  assume "lb_inv b"
  then have "int kBufferSize - int (lb_cur b) = int (kBufferSize - lb_cur b)"
    by (simp add: lb_inv_def)
  then have "lb_avail b = of_nat (kBufferSize - lb_cur b)"
    by (simp only: lb_avail_def of_int_of_nat_eq)
  moreover have "kBufferSize - lb_cur b < 2 ^ 64"
    by (rule le_less_trans [OF diff_le_self]) (simp add: kBufferSize_def)
  ultimately show ?thesis by (simp only: unat_of_nat_size)
qed

lemma lb_append_post:
  assumes "lb_inv b" and "lb_append b msg len = Inr b'"
  shows "lb_inv b' \<and> lb_text b' = lb_text b @ take (unat len) msg \<and>
    lb_cur b' = lb_cur b + unat len"
proof -
  let ?m = "take (unat len) msg"
  have fit: "unat len \<le> length msg" "lb_cur b + unat len \<le> kBufferSize"
    and b': "b' = b\<lparr>lb_bytes := overlay (lb_bytes b) (lb_cur b) ?m, lb_cur := lb_cur b + unat len\<rparr>"
    using assms(2) by (auto simp: lb_append_def not_less split: if_splits)
  have bs: "lb_bytes b' = take (lb_cur b) (lb_bytes b) @ ?m @ drop (lb_cur b + unat len) (lb_bytes b)"
    using fit(1) by (simp add: b' overlay_def min_absorb2)
  have "drop (lb_cur b + unat len) (lb_bytes b)
      = drop (unat len) (drop (lb_cur b) (lb_bytes b))" by (simp add: add.commute)
  also have "\<dots> = replicate (kBufferSize - (lb_cur b + unat len)) (CHR 0x00)"
    using assms(1) by (simp add: lb_inv_def)
  finally show ?thesis
    using assms(1) fit bs by (simp add: lb_inv_def lb_text_def b' min_absorb2)
qed

lemma lb_append_ok:
  "lb_inv b \<Longrightarrow> unat len \<le> length msg \<Longrightarrow> lb_cur b + unat len \<le> kBufferSize \<Longrightarrow>
     \<exists>b'. lb_append b msg len = Inr b'"
  by (auto simp: lb_append_def)

lemma takeWhile_text: "CHR 0x00 \<notin> set xs \<Longrightarrow> takeWhile (\<lambda>c. c \<noteq> CHR 0x00) (xs @ CHR 0x00 # ys) = xs"
  by (induction xs) auto

text \<open>Text without NUL in a buffer that is not full is read back whole.\<close>

lemma lb_c_string_text:
  assumes "lb_inv b" and "lb_cur b < kBufferSize" and "CHR 0x00 \<notin> set (lb_text b)"
  shows "lb_c_string b = Inr (lb_text b)"
proof -
  have "lb_bytes b = lb_text b @ drop (lb_cur b) (lb_bytes b)" by (simp add: lb_text_def)
  also have "drop (lb_cur b) (lb_bytes b) = CHR 0x00 # replicate (kBufferSize - lb_cur b - 1) (CHR 0x00)"
    using assms(1,2) by (cases "kBufferSize - lb_cur b") (auto simp: lb_inv_def)
  finally have bs: "lb_bytes b =
    lb_text b @ CHR 0x00 # replicate (kBufferSize - lb_cur b - 1) (CHR 0x00)" .
  show ?thesis
    unfolding lb_c_string_def bs takeWhile_text [OF assms(3)] by simp
qed

end
