(* ===== verification/AsyncLogging.thy ===== *)
theory AsyncLogging
  imports LogBuffers
begin

text \<open>
  The double-buffered logger of \<open>include/base/AsyncLog2.h\<close> and \<open>src/base/AsyncLog2.cc\<close>:
  threads append to the current buffer under a lock; a logging thread takes the filled buffers
  together with the current one and writes them to the file. A unique pointer is an option.
\<close>

section \<open>State\<close>

record asynclog =
  al_running :: bool
  al_current :: "LogBuffer option"
  al_next :: "LogBuffer option"
  al_buffers :: "LogBuffer option list"
  al_open :: bool
  al_file :: bytes

text \<open>The local variables of the logging thread.\<close>

record log_thread =
  newBuffer1 :: "LogBuffer option"
  newBuffer2 :: "LogBuffer option"
  buffersToWrite :: "LogBuffer option list"

definition Asynclogging_new :: asynclog where
  "Asynclogging_new = \<lparr>al_running = False, al_current = Some LogBuffer_new,
     al_next = Some LogBuffer_new, al_buffers = [], al_open = False, al_file = []\<rparr>"

definition log_thread_new :: log_thread where
  "log_thread_new = \<lparr>newBuffer1 = Some (lb_reset LogBuffer_new),
     newBuffer2 = Some (lb_reset LogBuffer_new), buffersToWrite = []\<rparr>"

section \<open>Operations\<close>

definition al_start :: "asynclog \<Rightarrow> asynclog" where
  "al_start a = a\<lparr>al_running := True\<rparr>"

text \<open>
  \<open>open\<close> truncates the file; \<open>ok\<close> says whether the stream could be opened. If not, an exception
  is thrown and the stream is not open.
\<close>

definition al_open_file :: "bool \<Rightarrow> asynclog \<Rightarrow> asynclog option" where
  "al_open_file ok a = (if ok then Some (a\<lparr>al_open := True, al_file := []\<rparr>) else None)"

definition flushToFile :: "bytes \<Rightarrow> asynclog \<Rightarrow> asynclog" where
  "flushToFile buf a = (if al_open a then a\<lparr>al_file := al_file a @ buf\<rparr> else a)"

definition al_append :: "bytes \<Rightarrow> size_t \<Rightarrow> asynclog \<Rightarrow> asynclog result" where
  "al_append msg len a =
     (case al_current a of
        None \<Rightarrow> Inl Null_dereference
      | Some b \<Rightarrow>
         if lb_avail b > len then
           rbind (lb_append b msg len) (\<lambda>b'. Inr (a\<lparr>al_current := Some b'\<rparr>))
         else
           let a1 = a\<lparr>al_buffers := al_buffers a @ [Some b]\<rparr>;
               cur = (case al_next a1 of Some n \<Rightarrow> n | None \<Rightarrow> LogBuffer_new);
               a2 = a1\<lparr>al_next := None\<rparr>
           in rbind (lb_append cur msg len) (\<lambda>b'. Inr (a2\<lparr>al_current := Some b'\<rparr>)))"

text \<open>
  The macro \<open>LOG_FORMAT\<close>, for the text its format and arguments give: \<open>snprintf\<close> writes what fits
  4096 bytes with the terminating NUL, and \<open>strlen\<close> counts up to the first NUL.
\<close>

definition log_format :: "bytes \<Rightarrow> asynclog \<Rightarrow> asynclog result" where
  "log_format text a =
     (let buffer = take 4095 text @ [CHR 0x00]
      in al_append buffer (of_nat (length (takeWhile (\<lambda>c. c \<noteq> CHR 0x00) buffer))) a)"

text \<open>The part of a cycle of \<open>threadFunc\<close> under the lock, after the wait.\<close>

definition take_buffers :: "asynclog \<Rightarrow> log_thread \<Rightarrow> asynclog \<times> log_thread" where
  "take_buffers a th =
     (let full = al_buffers a @ [al_current a];
          a1 = a\<lparr>al_current := newBuffer1 th, al_buffers := buffersToWrite th\<rparr>;
          th1 = th\<lparr>newBuffer1 := None, buffersToWrite := full\<rparr>
      in if al_next a1 = None
         then (a1\<lparr>al_next := newBuffer2 th1\<rparr>, th1\<lparr>newBuffer2 := None\<rparr>)
         else (a1, th1))"

definition dropped_note :: "nat \<Rightarrow> bytes" where
  "dropped_note n = ''Dropped '' @ show_nat n @ '' logs'' @ [CHR 0x0A]"

definition drop_excess :: "asynclog \<Rightarrow> log_thread \<Rightarrow> asynclog \<times> log_thread" where
  "drop_excess a th =
     (if length (buffersToWrite th) > 2
      then (flushToFile (dropped_note (length (buffersToWrite th) - 2)) a,
            th\<lparr>buffersToWrite := take 2 (buffersToWrite th)\<rparr>)
      else (a, th))"

fun bulk_text :: "LogBuffer option list \<Rightarrow> bytes result" where
  "bulk_text [] = Inr []"
| "bulk_text (None # bs) = Inl Null_dereference"
| "bulk_text (Some b # bs) = rbind (bulk_text bs) (\<lambda>t. Inr (lb_text b @ t))"

text \<open>Taking the last written buffer back for reuse, if \<open>slot\<close> is empty.\<close>

definition recycle ::
  "LogBuffer option \<Rightarrow> LogBuffer option list \<Rightarrow> (LogBuffer option \<times> LogBuffer option list) result"
  where
  "recycle slot bs =
     (if slot = None \<and> bs \<noteq> [] then
        (case last bs of None \<Rightarrow> Inl Null_dereference | Some b \<Rightarrow> Inr (Some (lb_reset b), butlast bs))
      else Inr (slot, bs))"

text \<open>The part of a cycle after the lock is released.\<close>

definition write_buffers :: "asynclog \<Rightarrow> log_thread \<Rightarrow> (asynclog \<times> log_thread) result" where
  "write_buffers a th =
     (let (a1, th1) = drop_excess a th
      in rbind (bulk_text (buffersToWrite th1)) (\<lambda>bulk.
         let a2 = flushToFile bulk a1
         in rbind (recycle (newBuffer1 th1) (buffersToWrite th1)) (\<lambda>(n1, bs1).
            rbind (recycle (newBuffer2 th1) bs1) (\<lambda>(n2, bs2).
            Inr (a2, \<lparr>newBuffer1 = n1, newBuffer2 = n2, buffersToWrite = []\<rparr>)))))"

text \<open>
  The destructor: \<open>threadFunc\<close> has ended when \<open>join\<close> returns; then the current buffer is written,
  through a C string.
\<close>

definition al_delete :: "asynclog \<Rightarrow> asynclog result" where
  "al_delete a =
     (case al_current a of
        None \<Rightarrow> Inl Null_dereference
      | Some b \<Rightarrow>
         if lb_length b > 0 then rbind (lb_c_string b) (\<lambda>t. Inr (flushToFile t a)) else Inr a)"

section \<open>The logger and its threads\<close>

datatype log_pc = Log_start | Log_check | Log_wait | Log_write | Log_exited

text \<open>\<open>lg_said\<close> is all text appended; \<open>lg_dropped\<close> records that a cycle dropped buffers.\<close>

record log_sys =
  lg_log :: asynclog
  lg_thread :: log_thread
  lg_pc :: log_pc
  lg_said :: bytes
  lg_dropped :: bool

definition log_init :: "log_sys \<Rightarrow> bool" where
  "log_init s \<longleftrightarrow> lg_log s = Asynclogging_new\<lparr>al_open := True\<rparr> \<and> lg_thread s = log_thread_new \<and>
     lg_pc s = Log_start \<and> lg_said s = [] \<and> \<not> lg_dropped s"

inductive log_step :: "log_sys \<Rightarrow> log_sys \<Rightarrow> bool" where
  log_append:
    "al_append msg len (lg_log s) = Inr a \<Longrightarrow>
     log_step s (s\<lparr>lg_log := a, lg_said := lg_said s @ take (unat len) msg\<rparr>)"
| log_run:
    "log_step s (s\<lparr>lg_log := al_start (lg_log s)\<rparr>)"
| log_stop:
    "log_step s (s\<lparr>lg_log := (lg_log s)\<lparr>al_running := False\<rparr>\<rparr>)"
| log_begin:
    "lg_pc s = Log_start \<Longrightarrow> al_running (lg_log s) \<Longrightarrow> log_step s (s\<lparr>lg_pc := Log_check\<rparr>)"
| log_again:
    "lg_pc s = Log_check \<Longrightarrow> al_running (lg_log s) \<Longrightarrow> log_step s (s\<lparr>lg_pc := Log_wait\<rparr>)"
| log_exit:
    "lg_pc s = Log_check \<Longrightarrow> \<not> al_running (lg_log s) \<Longrightarrow> log_step s (s\<lparr>lg_pc := Log_exited\<rparr>)"
| log_take:
    "lg_pc s = Log_wait \<Longrightarrow> take_buffers (lg_log s) (lg_thread s) = (a, th) \<Longrightarrow>
     log_step s (s\<lparr>lg_log := a, lg_thread := th, lg_pc := Log_write,
       lg_dropped := (lg_dropped s \<or> length (buffersToWrite th) > 2)\<rparr>)"
| log_write:
    "lg_pc s = Log_write \<Longrightarrow> write_buffers (lg_log s) (lg_thread s) = Inr (a, th) \<Longrightarrow>
     log_step s (s\<lparr>lg_log := a, lg_thread := th, lg_pc := Log_check\<rparr>)"

section \<open>The invariant\<close>

text \<open>The text of a list of buffers, null pointers contributing none.\<close>

definition texts :: "LogBuffer option list \<Rightarrow> bytes" where
  "texts bs = concat (map (case_option [] lb_text) bs)"

definition good_buffer :: "LogBuffer option \<Rightarrow> bool" where
  "good_buffer b \<longleftrightarrow> (\<exists>x. b = Some x \<and> lb_inv x)"

text \<open>A spare buffer: none, or an empty one.\<close>

definition spare :: "LogBuffer option \<Rightarrow> bool" where
  "spare b \<longleftrightarrow> (\<forall>x. b = Some x \<longrightarrow> lb_inv x \<and> lb_cur x = 0)"

definition log_inv :: "log_sys \<Rightarrow> bool" where
  "log_inv s \<longleftrightarrow>
     good_buffer (al_current (lg_log s)) \<and> (\<forall>b \<in> set (al_buffers (lg_log s)). good_buffer b) \<and>
     spare (al_next (lg_log s)) \<and> spare (newBuffer1 (lg_thread s)) \<and> spare (newBuffer2 (lg_thread s)) \<and>
     (\<forall>b \<in> set (buffersToWrite (lg_thread s)). good_buffer b) \<and> al_open (lg_log s) \<and>
     (if lg_pc s = Log_write then buffersToWrite (lg_thread s) \<noteq> []
      else buffersToWrite (lg_thread s) = [] \<and> newBuffer1 (lg_thread s) \<noteq> None) \<and>
     (lg_dropped s \<or> length (buffersToWrite (lg_thread s)) \<le> 2 \<and>
       lg_said s = al_file (lg_log s) @ texts (buffersToWrite (lg_thread s)) @
         texts (al_buffers (lg_log s)) @ texts [al_current (lg_log s)])"

lemma texts_simps [simp]:
  "texts [] = []" "texts (Some b # bs) = lb_text b @ texts bs" "texts (xs @ ys) = texts xs @ texts ys"
  by (simp_all add: texts_def)

lemma spare_text: "spare (Some b) \<Longrightarrow> lb_text b = [] \<and> lb_inv b \<and> lb_cur b = 0"
  by (simp add: spare_def lb_text_def)

lemma spare_None [simp]: "spare None"
  by (simp add: spare_def)

lemma spare_reset [simp]: "spare (Some (lb_reset b))" "spare (Some LogBuffer_new)"
  by (simp_all add: spare_def)

lemma good_Some [simp]: "good_buffer (Some b) = lb_inv b" "\<not> good_buffer None"
  by (simp_all add: good_buffer_def)

lemma goodE: "good_buffer b \<Longrightarrow> (\<And>x. b = Some x \<Longrightarrow> lb_inv x \<Longrightarrow> thesis) \<Longrightarrow> thesis"
  by (auto simp: good_buffer_def)

lemma al_append_post:
  assumes "good_buffer (al_current a)" and "spare (al_next a)" and "al_append msg len a = Inr a'"
  shows "good_buffer (al_current a') \<and> spare (al_next a') \<and>
    (\<exists>bs. al_buffers a' = al_buffers a @ bs \<and> (\<forall>b \<in> set bs. good_buffer b) \<and>
      texts bs @ texts [al_current a'] = texts [al_current a] @ take (unat len) msg) \<and>
    al_open a' = al_open a \<and> al_file a' = al_file a"
proof -
  obtain b where b: "al_current a = Some b" "lb_inv b" using assms(1) by (rule goodE)
  show ?thesis
  proof (cases "lb_avail b > len")
    case True
    then obtain b' where "lb_append b msg len = Inr b'" "a' = a\<lparr>al_current := Some b'\<rparr>"
      using assms(3) b(1) by (auto simp: al_append_def rbind_Inr_iff)
    with lb_append_post [OF b(2)] assms(2) b show ?thesis by auto
  next
    case False
    define cur where "cur = (case al_next a of Some n \<Rightarrow> n | None \<Rightarrow> LogBuffer_new)"
    have cur: "lb_inv cur" "lb_text cur = []"
      using spare_text [of cur] assms(2) by (auto simp: cur_def split: option.splits)
    obtain b' where ap: "lb_append cur msg len = Inr b'"
      and a': "a' = a\<lparr>al_buffers := al_buffers a @ [Some b], al_next := None, al_current := Some b'\<rparr>"
      using assms(3) b(1) False by (auto simp: al_append_def cur_def Let_def rbind_Inr_iff)
    from lb_append_post [OF cur(1) ap] cur(2) b show ?thesis by (auto simp: a')
  qed
qed

lemma bulk_text_good: "\<forall>b \<in> set bs. good_buffer b \<Longrightarrow> bulk_text bs = Inr (texts bs)"
  by (induction bs rule: bulk_text.induct) auto

lemma recycle_good:
  assumes "\<forall>b \<in> set bs. good_buffer b" and "spare slot"
  shows "\<exists>slot' bs'. recycle slot bs = Inr (slot', bs') \<and> spare slot' \<and> set bs' \<subseteq> set bs \<and>
    (bs \<noteq> [] \<or> slot \<noteq> None \<longrightarrow> slot' \<noteq> None)"
proof (cases "slot = None \<and> bs \<noteq> []")
  case True
  then have "good_buffer (last bs)" using assms(1) last_in_set [of bs] by blast
  then obtain b where "last bs = Some b" by (auto simp: good_buffer_def)
  with True show ?thesis by (auto simp: recycle_def dest: in_set_butlastD)
next
  case False
  with assms show ?thesis by (auto simp: recycle_def)
qed

text \<open>What one cycle writes, and that the thread then owns an empty buffer again.\<close>

lemma write_buffers_post:
  assumes "\<forall>b \<in> set (buffersToWrite th). good_buffer b" and "buffersToWrite th \<noteq> []"
    and "spare (newBuffer1 th)" and "spare (newBuffer2 th)" and "al_open a"
  shows "\<exists>n1 n2. write_buffers a th = Inr (a\<lparr>al_file := al_file a @
      (if length (buffersToWrite th) > 2 then dropped_note (length (buffersToWrite th) - 2) else []) @
      texts (take 2 (buffersToWrite th))\<rparr>,
      \<lparr>newBuffer1 = Some n1, newBuffer2 = n2, buffersToWrite = []\<rparr>) \<and>
    spare (Some n1) \<and> spare n2"
proof -
  let ?bs = "take 2 (buffersToWrite th)"
  let ?note = "if length (buffersToWrite th) > 2
    then dropped_note (length (buffersToWrite th) - 2) else []"
  have good: "\<forall>b \<in> set ?bs. good_buffer b" and ne: "?bs \<noteq> []"
    using assms(1,2) by (auto dest: in_set_takeD)
  have dr: "drop_excess a th = (a\<lparr>al_file := al_file a @ ?note\<rparr>, th\<lparr>buffersToWrite := ?bs\<rparr>)"
    using assms(5) by (simp add: drop_excess_def flushToFile_def)
  obtain n1 bs1 where r1: "recycle (newBuffer1 th) ?bs = Inr (Some n1, bs1)" "spare (Some n1)"
    "set bs1 \<subseteq> set ?bs"
    using recycle_good [OF good assms(3)] ne by auto
  have "\<forall>b \<in> set bs1. good_buffer b" using good r1(3) by blast
  from recycle_good [OF this assms(4)] obtain n2 bs2 where
    r2: "recycle (newBuffer2 th) bs1 = Inr (n2, bs2)" "spare n2" by auto
  show ?thesis
    using dr r1 r2 assms(5)
    by (intro exI [of _ n1] exI [of _ n2])
      (simp add: write_buffers_def bulk_text_good [OF good] flushToFile_def)
qed

lemma log_take_inv:
  assumes inv: "log_inv s" and pc: "lg_pc s = Log_wait"
    and t: "take_buffers (lg_log s) (lg_thread s) = (a, th)"
  shows "log_inv (s\<lparr>lg_log := a, lg_thread := th, lg_pc := Log_write,
    lg_dropped := (lg_dropped s \<or> length (buffersToWrite th) > 2)\<rparr>)"
proof -
  let ?l = "lg_log s" and ?t = "lg_thread s"
  obtain n where n: "newBuffer1 ?t = Some n" using inv pc by (auto simp: log_inv_def)
  have sn: "lb_text n = []" "lb_inv n" using spare_text [of n] inv n by (auto simp: log_inv_def)
  obtain c where c: "al_current ?l = Some c" "lb_inv c"
    using inv by (auto simp: log_inv_def elim: goodE)
  have a: "al_current a = Some n" "al_buffers a = []" "al_open a = al_open ?l"
    "al_file a = al_file ?l" "buffersToWrite th = al_buffers ?l @ [al_current ?l]"
    "newBuffer1 th = None"
    "al_next a = al_next ?l \<and> newBuffer2 th = newBuffer2 ?t \<or>
     al_next a = newBuffer2 ?t \<and> newBuffer2 th = None"
    using t inv pc n by (auto simp: take_buffers_def log_inv_def Let_def split: if_splits)
  then show ?thesis using inv pc sn c by (auto simp: log_inv_def)
qed

lemma log_write_inv:
  assumes inv: "log_inv s" and pc: "lg_pc s = Log_write"
    and w: "write_buffers (lg_log s) (lg_thread s) = Inr (a, th)"
  shows "log_inv (s\<lparr>lg_log := a, lg_thread := th, lg_pc := Log_check\<rparr>)"
proof -
  from inv pc obtain n1 n2 where "spare (Some n1)" "spare n2" and
    "a = (lg_log s)\<lparr>al_file := al_file (lg_log s) @
      (if length (buffersToWrite (lg_thread s)) > 2
       then dropped_note (length (buffersToWrite (lg_thread s)) - 2) else []) @
      texts (take 2 (buffersToWrite (lg_thread s)))\<rparr>"
    and "th = \<lparr>newBuffer1 = Some n1, newBuffer2 = n2, buffersToWrite = []\<rparr>"
    using write_buffers_post [of "lg_thread s" "lg_log s"] w by (auto simp: log_inv_def)
  with inv pc show ?thesis by (auto simp: log_inv_def)
qed

lemma log_append_inv:
  assumes inv: "log_inv s" and ap: "al_append msg len (lg_log s) = Inr a"
  shows "log_inv (s\<lparr>lg_log := a, lg_said := lg_said s @ take (unat len) msg\<rparr>)"
proof -
  have "good_buffer (al_current (lg_log s))" "spare (al_next (lg_log s))"
    using inv by (simp_all add: log_inv_def)
  from al_append_post [OF this ap] obtain bs where
    "good_buffer (al_current a)" "spare (al_next a)" "al_buffers a = al_buffers (lg_log s) @ bs"
    "\<forall>b \<in> set bs. good_buffer b" "al_open a = al_open (lg_log s)" "al_file a = al_file (lg_log s)"
    and tx: "texts bs @ texts [al_current a] = texts [al_current (lg_log s)] @ take (unat len) msg"
    by blast
  with inv show ?thesis by (auto simp: log_inv_def)
qed

lemma log_step_inv: "log_step s t \<Longrightarrow> log_inv s \<Longrightarrow> log_inv t"
proof (induction rule: log_step.induct)
  case (log_append msg len s a)
  then show ?case by (blast intro: log_append_inv)
next
  case (log_take s a th)
  then show ?case by (blast intro: log_take_inv)
next
  case (log_write s a th)
  then show ?case by (blast intro: log_write_inv)
qed (auto simp: log_inv_def al_start_def)

lemma log_init_inv: "log_init s \<Longrightarrow> log_inv s"
  by (auto simp: log_init_def log_inv_def Asynclogging_new_def log_thread_new_def)

interpretation lg: invariant_machine "\<lambda>_ :: unit. True" log_init "\<lambda>_. log_step" log_inv
  by unfold_locales (auto intro: log_init_inv log_step_inv)

text \<open>What appending returns, and what the macro appends.\<close>

lemma al_append_result:
  assumes "log_inv s" and "unat len \<le> length msg"
  shows "if unat len \<le> 4096 then \<exists>a. al_append msg len (lg_log s) = Inr a
    else al_append msg len (lg_log s) = Inl Out_of_bounds"
proof -
  note inv = assms(1)
  obtain b where b: "al_current (lg_log s) = Some b" "lb_inv b"
    using inv by (auto simp: log_inv_def elim: goodE)
  define cur where "cur = (case al_next (lg_log s) of Some n \<Rightarrow> n | None \<Rightarrow> LogBuffer_new)"
  have cur: "lb_cur cur = 0"
    using spare_text [of cur] inv by (auto simp: cur_def log_inv_def split: option.splits)
  show ?thesis
  proof (cases "lb_avail b > len")
    case True
    then have "lb_cur b + unat len \<le> kBufferSize"
      by (simp add: word_less_nat_alt unat_avail [OF b(2)])
    with True b assms(2) show ?thesis
      by (auto simp: al_append_def lb_append_def kBufferSize_def)
  next
    case False
    with b assms(2) cur show ?thesis
      by (auto simp: al_append_def Let_def cur_def [symmetric] lb_append_def kBufferSize_def)
  qed
qed

lemma takeWhile_snoc: "\<not> P c \<Longrightarrow> takeWhile P (xs @ [c]) = takeWhile P xs"
  by (induction xs) auto

lemma take_takeWhile: "take (length (takeWhile P xs)) (xs @ ys) = takeWhile P xs"
  by (induction xs) auto

lemma log_format_length:
  "unat (of_nat (length (takeWhile P (take 4095 text))) :: size_t) = length (takeWhile P (take 4095 text))"
  using length_takeWhile_le [of P "take 4095 text"] by (intro unat_of_nat_size) simp

section \<open>A run for the witnesses\<close>

definition log_start :: log_sys where
  "log_start = \<lparr>lg_log = Asynclogging_new\<lparr>al_open := True\<rparr>, lg_thread = log_thread_new,
     lg_pc = Log_start, lg_said = [], lg_dropped = False\<rparr>"

lemma log_start_reachable: "reachable log_init log_step log_start"
  by (rule reach_init) (simp add: log_init_def log_start_def)

text \<open>A short message appended to a fresh logger.\<close>

lemma first_append:
  assumes "length msg < 4096"
  shows "\<exists>a b. al_append msg (of_nat (length msg)) (lg_log log_start) = Inr a \<and>
    al_current a = Some b \<and> lb_text b = msg \<and> lb_inv b \<and> lb_cur b = length msg \<and>
    al_buffers a = [] \<and> al_file a = [] \<and> al_open a \<and> al_next a = Some LogBuffer_new"
proof -
  let ?n = "of_nat (length msg) :: size_t"
  have n: "unat ?n = length msg" using assms by (intro unat_of_nat_size) simp
  have "unat (lb_avail LogBuffer_new) = 4096" by (simp add: unat_avail kBufferSize_def)
  then have av: "lb_avail LogBuffer_new > ?n" using assms n by (simp add: word_less_nat_alt)
  obtain b where b: "lb_append LogBuffer_new msg ?n = Inr b"
    using lb_append_ok [of LogBuffer_new ?n msg] assms n by (auto simp: kBufferSize_def)
  from lb_append_post [OF _ b] n av b show ?thesis
    by (simp add: log_start_def Asynclogging_new_def al_append_def)
qed

text \<open>A second one that does not fit beside it.\<close>

lemma second_append:
  assumes "al_current a = Some b" and "lb_inv b" and "al_next a = Some LogBuffer_new"
    and "length msg < 4096" and "4096 \<le> lb_cur b + length msg"
  shows "\<exists>a' b'. al_append msg (of_nat (length msg)) a = Inr a' \<and> al_current a' = Some b' \<and>
    lb_text b' = msg \<and> lb_cur b' = length msg \<and> al_buffers a' = al_buffers a @ [Some b]"
proof -
  let ?n = "of_nat (length msg) :: size_t"
  have n: "unat ?n = length msg" using assms(4) by (intro unat_of_nat_size) simp
  have "\<not> lb_avail b > ?n"
    using assms(5) n by (simp add: word_less_nat_alt unat_avail [OF assms(2)] kBufferSize_def)
  moreover obtain b' where b': "lb_append LogBuffer_new msg ?n = Inr b'"
    using lb_append_ok [of LogBuffer_new ?n msg] assms(4) n by (auto simp: kBufferSize_def)
  ultimately show ?thesis
    using lb_append_post [OF _ b'] assms(1,3) n by (simp add: al_append_def)
qed

section \<open>Properties\<close>

text \<open>
  C11: The log keeps every message in order. In any interleaving of appending threads with the
  logging thread, as long as no cycle found more than two buffers, the text written to the file,
  then that of the buffers being written, the filled ones and the current one is exactly the
  text appended so far.
\<close>

theorem log_text_in_order:
  assumes "reachable log_init log_step s" and "\<not> lg_dropped s"
  shows "lg_said s = al_file (lg_log s) @ texts (buffersToWrite (lg_thread s)) @
    texts (al_buffers (lg_log s)) @ texts [al_current (lg_log s)]"
  using lg.reachable_inv [OF _ assms(1)] assms(2) by (simp add: log_inv_def)

theorem log_text_in_order_witness:
  "\<exists>s :: log_sys. lg_said s = ''hello'' \<and> lg_said s = al_file (lg_log s) @ texts (buffersToWrite (lg_thread s)) @
    texts (al_buffers (lg_log s)) @ texts [al_current (lg_log s)]"
proof -
  obtain a where a: "al_append ''hello'' 5 (lg_log log_start) = Inr a"
    using first_append [of "''hello''"] by auto
  let ?s = "log_start\<lparr>lg_log := a, lg_said := lg_said log_start @ take (unat (5 :: size_t)) ''hello''\<rparr>"
  have r: "reachable log_init log_step ?s"
    by (rule reach_step [OF log_start_reachable]) (rule log_append [OF a])
  have "\<not> lg_dropped ?s" by (simp add: log_start_def)
  note eq = log_text_in_order [OF r this]
  have "lg_said ?s = ''hello''" by (simp add: log_start_def)
  with eq show ?thesis by (intro exI [of _ ?s] conjI)
qed

text \<open>
  \<open>append\<close> is safe exactly for messages that fit a buffer: in every reachable state it returns
  if the message has at most 4096 bytes, and writes past the end of a buffer otherwise. It never
  meets a null current buffer.
\<close>

theorem append_fits:
  assumes "reachable log_init log_step s" and "unat len \<le> length msg"
  shows "if unat len \<le> 4096 then \<exists>a. al_append msg len (lg_log s) = Inr a
    else al_append msg len (lg_log s) = Inl Out_of_bounds"
  using lg.reachable_inv [OF _ assms(1)] by (intro al_append_result [OF _ assms(2)]) simp

theorem append_fits_witness:
  "(\<exists>a. al_append (replicate 4096 (CHR ''x'')) 4096 (lg_log log_start) = Inr a) \<and>
   al_append (replicate 5000 (CHR ''x'')) 5000 (lg_log log_start) = Inl Out_of_bounds"
  using append_fits [OF log_start_reachable, of 4096 "replicate 4096 (CHR ''x'')"]
    append_fits [OF log_start_reachable, of 5000 "replicate 5000 (CHR ''x'')"]
  by simp

text \<open>
  C26: The macro that the logger is used through never overruns: in every reachable state and whatever
  the format gives, \<open>LOG_FORMAT\<close> returns, and it adds to the log exactly the text up to its first NUL
  or its first 4095 bytes, whichever is shorter, after all that the logger holds.
\<close>

theorem log_format_appends:
  assumes "reachable log_init log_step s"
  shows "\<exists>a. log_format text (lg_log s) = Inr a \<and> al_file a = al_file (lg_log s) \<and>
    texts (al_buffers a) @ texts [al_current a] = texts (al_buffers (lg_log s)) @
      texts [al_current (lg_log s)] @ takeWhile (\<lambda>c. c \<noteq> CHR 0x00) (take 4095 text)"
proof -
  have inv: "log_inv s" using lg.reachable_inv [OF _ assms] by simp
  let ?buf = "take 4095 text @ [CHR 0x00]" and ?t = "takeWhile (\<lambda>c. c \<noteq> CHR 0x00) (take 4095 text)"
  define n where "n = (of_nat (length (takeWhile (\<lambda>c. c \<noteq> CHR 0x00) ?buf)) :: size_t)"
  have tw: "takeWhile (\<lambda>c. c \<noteq> CHR 0x00) ?buf = ?t"
    by (rule takeWhile_snoc) simp
  have n: "unat n = length ?t" unfolding n_def tw by (rule log_format_length)
  have tk: "take (unat n) ?buf = ?t"
    unfolding n by (rule take_takeWhile)
  have "unat n \<le> length ?buf" "unat n \<le> 4096" using n length_takeWhile_le [of "\<lambda>c. c \<noteq> CHR 0x00" "take 4095 text"] by (auto simp: min_def split: if_splits)
  with al_append_result [OF inv, of n ?buf] obtain a where a: "al_append ?buf n (lg_log s) = Inr a" by auto
  have "good_buffer (al_current (lg_log s))" "spare (al_next (lg_log s))"
    using inv by (simp_all add: log_inv_def)
  from al_append_post [OF this a] obtain bs where bs: "al_buffers a = al_buffers (lg_log s) @ bs"
    "texts bs @ texts [al_current a] = texts [al_current (lg_log s)] @ ?t" "al_file a = al_file (lg_log s)"
    unfolding tk by blast
  have "log_format text (lg_log s) = Inr a" using a by (simp add: log_format_def n_def)
  with bs show ?thesis by auto
qed

theorem log_format_appends_witness:
  "\<exists>a. log_format ''x = 5'' (lg_log log_start) = Inr a \<and>
    texts (al_buffers a) @ texts [al_current a] = ''x = 5''"
  using log_format_appends [OF log_start_reachable, of "''x = 5''"]
  by (auto simp: log_start_def Asynclogging_new_def)

text \<open>
  A cycle that finds more than two buffers keeps the two oldest and drops all later ones, the
  current buffer with the newest messages among them, leaving a note that counts buffers, not
  messages; otherwise it writes all of them. It always returns, and the file grows by exactly this.
\<close>

theorem cycle_output:
  assumes "reachable log_init log_step s" and "lg_pc s = Log_wait"
    and "take_buffers (lg_log s) (lg_thread s) = (a, th)"
  shows "\<exists>a' th'. write_buffers a th = Inr (a', th') \<and>
    (let bs = al_buffers (lg_log s) @ [al_current (lg_log s)] in
      al_file a' = al_file (lg_log s) @
        (if length bs > 2 then dropped_note (length bs - 2) @ texts (take 2 bs) else texts bs)) \<and>
    al_current a' \<noteq> None"
proof -
  have inv: "log_inv s" using lg.reachable_inv [OF _ assms(1)] by simp
  let ?s = "s\<lparr>lg_log := a, lg_thread := th, lg_pc := Log_write,
    lg_dropped := (lg_dropped s \<or> length (buffersToWrite th) > 2)\<rparr>"
  have i: "log_inv ?s" by (rule log_take_inv [OF inv assms(2,3)])
  have eq: "buffersToWrite th = al_buffers (lg_log s) @ [al_current (lg_log s)]"
    "al_file a = al_file (lg_log s)"
    using assms(2,3) by (auto simp: take_buffers_def Let_def split: if_splits)
  have "al_current a \<noteq> None" using i by (auto simp: log_inv_def good_buffer_def)
  then show ?thesis
    using i write_buffers_post [of th a] eq by (auto simp: log_inv_def Let_def)
qed

theorem cycle_output_witness:
  "\<exists>(s :: log_sys) a th a' th'. take_buffers (lg_log s) (lg_thread s) = (a, th) \<and>
    write_buffers a th = Inr (a', th') \<and> al_file a' = ''hello''"
proof -
  obtain a b where a: "al_append ''hello'' 5 (lg_log log_start) = Inr a" "al_current a = Some b"
    "lb_text b = ''hello''" "al_buffers a = []" "al_file a = []"
    using first_append [of "''hello''"] by auto
  let ?s1 = "log_start\<lparr>lg_log := a, lg_said := lg_said log_start @ take (unat (5 :: size_t)) ''hello''\<rparr>"
  let ?s2 = "?s1\<lparr>lg_log := al_start (lg_log ?s1)\<rparr>"
  let ?s3 = "?s2\<lparr>lg_pc := Log_check\<rparr>"
  let ?s4 = "?s3\<lparr>lg_pc := Log_wait\<rparr>"
  have "log_step log_start ?s1" by (rule log_append [OF a(1)])
  moreover have "log_step ?s1 ?s2" by (rule log_run)
  moreover have "log_step ?s2 ?s3" by (rule log_begin) (simp_all add: log_start_def al_start_def)
  moreover have "log_step ?s3 ?s4" by (rule log_again) (simp_all add: al_start_def)
  ultimately have "is_run log_step log_start [?s1, ?s2, ?s3, ?s4]" by simp
  then have r: "reachable log_init log_step ?s4"
    by (rule reachable_run [OF log_start_reachable]) simp
  obtain a1 th where t: "take_buffers (lg_log ?s4) (lg_thread ?s4) = (a1, th)"
    by (cases "take_buffers (lg_log ?s4) (lg_thread ?s4)")
  have "lg_pc ?s4 = Log_wait" by simp
  from cycle_output [OF r this t] obtain a' th' where w: "write_buffers a1 th = Inr (a', th')"
    "al_file a' = ''hello''"
    using a by (auto simp: al_start_def)
  show ?thesis by (intro exI conjI) (rule t, rule w(1), rule w(2))
qed

text \<open>
  C35: Destroying the logger writes the current buffer only. If buffers are still queued when the
  logging thread has ended, as when \<open>running_\<close> was cleared between two cycles, their text, in the
  middle of the log, is lost.
\<close>

theorem destructor_loses_queued_buffers:
  assumes "reachable log_init log_step s" and "lg_pc s = Log_exited" and "\<not> lg_dropped s"
    and "al_current (lg_log s) = Some b" and "0 < lb_cur b" and "lb_cur b < 4096"
    and "CHR 0x00 \<notin> set (lb_text b)"
  shows "\<exists>a. al_delete (lg_log s) = Inr a \<and> al_file a = al_file (lg_log s) @ lb_text b \<and>
    lg_said s = al_file (lg_log s) @ texts (al_buffers (lg_log s)) @ lb_text b"
proof -
  have inv: "log_inv s" using lg.reachable_inv [OF _ assms(1)] by simp
  have b: "lb_inv b" "al_open (lg_log s)" "buffersToWrite (lg_thread s) = []"
    using inv assms(2,4) by (auto simp: log_inv_def)
  have "lb_c_string b = Inr (lb_text b)"
    using lb_c_string_text [OF b(1)] assms(6,7) by (simp add: kBufferSize_def)
  moreover have "lb_length b > 0"
  proof -
    have "unat (lb_length b) = lb_cur b"
      unfolding lb_length_def using assms(6) by (intro unat_of_nat_size) simp
    with assms(5) show ?thesis by (simp add: word_less_nat_alt)
  qed
  ultimately show ?thesis
    using inv assms(3,4) b(2,3) by (auto simp: al_delete_def flushToFile_def log_inv_def)
qed

theorem destructor_loses_queued_buffers_witness:
  "\<exists>(s :: log_sys) a. lg_said s = replicate 4000 (CHR ''x'') @ replicate 200 (CHR ''y'') \<and>
    al_delete (lg_log s) = Inr a \<and> al_file a = replicate 200 (CHR ''y'')"
proof -
  let ?x = "replicate 4000 (CHR ''x'')" and ?y = "replicate 200 (CHR ''y'')"
  obtain a b where a: "al_append ?x 4000 (lg_log log_start) = Inr a" "al_current a = Some b"
    "lb_text b = ?x" "lb_inv b" "lb_cur b = 4000" "al_buffers a = []" "al_next a = Some LogBuffer_new"
    using first_append [of ?x] by auto
  obtain a2 b2 where c: "al_append ?y 200 a = Inr a2" "al_current a2 = Some b2" "lb_text b2 = ?y"
    "lb_cur b2 = 200" "al_buffers a2 = [Some b]"
    using second_append [OF a(2,4,7), of ?y] a(5,6) by auto
  let ?s1 = "log_start\<lparr>lg_log := a, lg_said := lg_said log_start @ take (unat (4000 :: size_t)) ?x\<rparr>"
  let ?s2 = "?s1\<lparr>lg_log := a2, lg_said := lg_said ?s1 @ take (unat (200 :: size_t)) ?y\<rparr>"
  let ?s3 = "?s2\<lparr>lg_log := al_start (lg_log ?s2)\<rparr>"
  let ?s4 = "?s3\<lparr>lg_pc := Log_check\<rparr>"
  let ?s5 = "?s4\<lparr>lg_log := (lg_log ?s4)\<lparr>al_running := False\<rparr>\<rparr>"
  let ?s6 = "?s5\<lparr>lg_pc := Log_exited\<rparr>"
  have "log_step log_start ?s1" by (rule log_append [OF a(1)])
  moreover have "log_step ?s1 ?s2" by (rule log_append) (simp add: c(1))
  moreover have "log_step ?s2 ?s3" by (rule log_run)
  moreover have "log_step ?s3 ?s4" by (rule log_begin) (simp_all add: log_start_def al_start_def)
  moreover have "log_step ?s4 ?s5" by (rule log_stop)
  moreover have "log_step ?s5 ?s6" by (rule log_exit) simp_all
  ultimately have "is_run log_step log_start [?s1, ?s2, ?s3, ?s4, ?s5, ?s6]" by simp
  then have r: "reachable log_init log_step ?s6"
    by (rule reachable_run [OF log_start_reachable]) simp
  have c': "al_current (lg_log ?s6) = Some b2" "\<not> lg_dropped ?s6" "lg_pc ?s6 = Log_exited"
    "al_buffers (lg_log ?s6) = [Some b]" "lg_said ?s6 = ?x @ ?y"
    using c(2,5) by (simp_all add: al_start_def log_start_def)
  from destructor_loses_queued_buffers [OF r c'(3,2,1)] c(3,4) obtain a' where
    d: "al_delete (lg_log ?s6) = Inr a'" "al_file a' = al_file (lg_log ?s6) @ ?y"
      "lg_said ?s6 = al_file (lg_log ?s6) @ texts (al_buffers (lg_log ?s6)) @ ?y"
    by auto
  have "al_file (lg_log ?s6) = []"
    using d(3) unfolding c'(4,5) by (simp add: a(3))
  with d(1,2) c'(5) show ?thesis by (intro exI [of _ ?s6] exI [of _ a'] conjI) simp_all
qed

end
