(* ===== verification/AsyncLog.thy ===== *)
theory AsyncLog
  imports Timestamps "HOL-Library.Sublist"
begin

text \<open>
  The queueing logger of \<open>include/base/AsyncLog.h\<close> and \<open>src/base/AsyncLog.cc\<close>: \<open>log\<close> formats a
  message and queues it under a lock, a thread takes messages off the queue and writes them, to
  the file if one is open and to the error stream otherwise, until it is told to exit and the
  queue is empty.
\<close>

section \<open>Levels\<close>

datatype async_level = AL_INFO | AL_ERROR | AL_FATAL | AL_DEBUG | AL_LEVEL_COUNT

fun async_level_num :: "async_level \<Rightarrow> nat" where
  "async_level_num AL_INFO = 0" | "async_level_num AL_ERROR = 1" | "async_level_num AL_FATAL = 2"
| "async_level_num AL_DEBUG = 3" | "async_level_num AL_LEVEL_COUNT = 4"

lemma async_level_num_inj: "async_level_num a = async_level_num b \<Longrightarrow> a = b"
  by (cases a; cases b) simp_all

instantiation async_level :: linorder
begin

definition less_eq_async_level :: "async_level \<Rightarrow> async_level \<Rightarrow> bool" where
  "a \<le> b \<longleftrightarrow> async_level_num a \<le> async_level_num b"

definition less_async_level :: "async_level \<Rightarrow> async_level \<Rightarrow> bool" where
  "a < b \<longleftrightarrow> async_level_num a < async_level_num b"

instance
  by standard (auto simp: less_eq_async_level_def less_async_level_def dest: async_level_num_inj)

end

text \<open>The table of names, in the order of the source.\<close>

definition levels_names :: "string list" where
  "levels_names = [''DEBUG'', ''INFO'', ''ERROR'', ''FATAL'']"

section \<open>Messages\<close>

text \<open>\<open>strrchr\<close>: the part of the string from the last occurrence of the character on.\<close>

fun strrchr :: "char \<Rightarrow> string \<Rightarrow> string option" where
  "strrchr c [] = None"
| "strrchr c (x # xs) =
     (case strrchr c xs of Some t \<Rightarrow> Some t | None \<Rightarrow> if x = c then Some (x # xs) else None)"

definition base_name :: "string \<Rightarrow> string" where
  "base_name file =
     (case (case strrchr (CHR ''/'') file of Some t \<Rightarrow> Some t | None \<Rightarrow> strrchr (CHR 0x5C) file) of
        Some t \<Rightarrow> tl t | None \<Rightarrow> file)"

text \<open>\<open>vsnprintf\<close> into 1024 bytes, then \<open>snprintf\<close> into 2048.\<close>

definition log_message :: "string \<Rightarrow> string \<Rightarrow> int \<Rightarrow> string \<Rightarrow> bytes \<Rightarrow> bytes" where
  "log_message time file line func msg =
     take 2047 (''['' @ time @ '' '' @ base_name file @ ''('' @ func @ ''),'' @ show_int line @ '']:'' @
       take 1023 msg)"

section \<open>The logger\<close>

text \<open>
  \<open>fout_open\<close> is \<open>fout_.is_open()\<close>, \<open>fout_fail\<close> the stream's error state, in which output is
  discarded.
\<close>

record alog =
  logQueue :: "bytes list"
  alogLevel :: async_level
  alog_exit :: bool
  fout_open :: bool
  fout_fail :: bool

definition alog_new :: alog where
  "alog_new = \<lparr>logQueue = [], alogLevel = AL_INFO, alog_exit = False, fout_open = False,
     fout_fail = False\<rparr>"

definition alog_level :: "async_level \<Rightarrow> alog \<Rightarrow> alog" where
  "alog_level level a = a\<lparr>alogLevel := level\<rparr>"

text \<open>
  \<open>open\<close>, with whether the system can open the file: the logger after it, and whether it threw.
  Opening a stream that is open fails whatever the file, and leaves the old file open behind the
  error state; opening successfully clears the error state.
\<close>

definition alog_open :: "bool \<Rightarrow> alog \<Rightarrow> alog \<times> bool" where
  "alog_open ok a =
     (if \<not> fout_open a \<and> ok then (a\<lparr>fout_open := True, fout_fail := False\<rparr>, False)
      else (a\<lparr>fout_fail := True\<rparr>, True))"

definition alog_close :: "alog \<Rightarrow> alog" where
  "alog_close a = (if fout_open a then a\<lparr>fout_open := False\<rparr> else a)"

definition alog_log ::
  "(int64 \<Rightarrow> tm) \<Rightarrow> Timestamp \<Rightarrow> async_level \<Rightarrow> string \<Rightarrow> int \<Rightarrow> string \<Rightarrow> bytes \<Rightarrow> alog \<Rightarrow> alog" where
  "alog_log localtime now level file line func msg a =
     (if level < alogLevel a then a
      else a\<lparr>logQueue := logQueue a @ [log_message (toString localtime now) file line func msg]\<rparr>)"

text \<open>Where a message goes: to the file, to the error stream, or nowhere.\<close>

datatype sink = To_file | To_cerr | Lost

text \<open>Writing a message, with whether the system takes the bytes of the file.\<close>

definition alog_write :: "bool \<Rightarrow> alog \<Rightarrow> sink \<times> alog" where
  "alog_write ok a =
     (if fout_open a
      then if fout_fail a then (Lost, a)
           else if ok then (To_file, a) else (Lost, a\<lparr>fout_fail := True\<rparr>)
      else (To_cerr, a))"

section \<open>The writing thread\<close>

text \<open>
  Where the writer is: about to lock, holding the lock and about to evaluate the predicate of
  \<open>wait\<close>, holding it after the predicate was false and about to block, blocked (the lock released),
  notified and about to lock again, holding the lock after \<open>wait\<close> returned, with a message in hand
  and the lock released, or ended.
\<close>

datatype writer_pc =
  Writer_lock | Writer_pred | Writer_block | Writer_blocked | Writer_relock | Writer_ready
  | Writer_has bytes | Writer_done

text \<open>
  The destructor: not called, the flag set, the notification given (now joining), the thread
  joined, the file closed.
\<close>

datatype alog_dtor = Dtor_none | Dtor_exit | Dtor_join | Dtor_joined | Dtor_closed

text \<open>
  \<open>aw_owed\<close> counts the calls of \<open>log\<close> that have queued a message and have yet to call
  \<open>notify_one\<close>. Histories: \<open>aw_out\<close> lists the messages taken and where they went, \<open>aw_pushed\<close> those
  ever queued, \<open>aw_at_exit\<close> those queued before the destructor set the exit flag, and \<open>aw_failed\<close>
  tells whether the open stream has ever been put into its error state.
\<close>

record alog_sys =
  aw_log :: alog
  aw_pc :: writer_pc
  aw_dtor :: alog_dtor
  aw_owed :: nat
  aw_out :: "(sink \<times> bytes) list"
  aw_pushed :: "bytes list"
  aw_at_exit :: "bytes list option"
  aw_failed :: bool

definition alog_start :: alog_sys where
  "alog_start = \<lparr>aw_log = alog_new, aw_pc = Writer_lock, aw_dtor = Dtor_none, aw_owed = 0,
     aw_out = [], aw_pushed = [], aw_at_exit = None, aw_failed = False\<rparr>"

definition alog_init :: "alog_sys \<Rightarrow> bool" where
  "alog_init s \<longleftrightarrow> s = alog_start"

text \<open>
  The mutex is held by the writer in three places; the other threads' locked blocks are single
  steps, taken only while the writer does not hold it.
\<close>

definition writer_holds :: "alog_sys \<Rightarrow> bool" where
  "writer_holds s \<longleftrightarrow> (case aw_pc s of Writer_pred \<Rightarrow> True | Writer_block \<Rightarrow> True | Writer_ready \<Rightarrow> True
     | _ \<Rightarrow> False)"

text \<open>
  The next step of \<open>asyncWrite\<close>; \<open>None\<close> when the thread is blocked in \<open>wait\<close> or has ended. The
  front of an empty queue is never asked for (\<open>writer_never_undefined\<close> below).
\<close>

definition alog_writer :: "bool \<Rightarrow> alog_sys \<Rightarrow> alog_sys result option" where
  "alog_writer ok s =
     (case aw_pc s of
        Writer_lock \<Rightarrow> Some (Inr (s\<lparr>aw_pc := Writer_pred\<rparr>))
      | Writer_pred \<Rightarrow>
          Some (Inr (s\<lparr>aw_pc := if alog_exit (aw_log s) \<or> logQueue (aw_log s) \<noteq> [] then Writer_ready
            else Writer_block\<rparr>))
      | Writer_block \<Rightarrow> Some (Inr (s\<lparr>aw_pc := Writer_blocked\<rparr>))
      | Writer_blocked \<Rightarrow> None
      | Writer_relock \<Rightarrow> Some (Inr (s\<lparr>aw_pc := Writer_pred\<rparr>))
      | Writer_ready \<Rightarrow>
          if alog_exit (aw_log s) \<and> logQueue (aw_log s) = [] then Some (Inr (s\<lparr>aw_pc := Writer_done\<rparr>))
          else (case logQueue (aw_log s) of
                  [] \<Rightarrow> Some (Inl Out_of_bounds)
                | m # ms \<Rightarrow>
                    Some (Inr (s\<lparr>aw_log := (aw_log s)\<lparr>logQueue := ms\<rparr>, aw_pc := Writer_has m\<rparr>)))
      | Writer_has m \<Rightarrow>
          (case alog_write ok (aw_log s) of
             (to, a) \<Rightarrow> Some (Inr (s\<lparr>aw_log := a, aw_out := aw_out s @ [(to, m)], aw_pc := Writer_lock,
               aw_failed := (aw_failed s \<or> fout_open a \<and> fout_fail a)\<rparr>)))
      | Writer_done \<Rightarrow> None)"

text \<open>A notification moves the writer on if it is blocked, and is lost otherwise.\<close>

definition notify_writer :: "alog_sys \<Rightarrow> alog_sys" where
  "notify_writer s = (case aw_pc s of Writer_blocked \<Rightarrow> s\<lparr>aw_pc := Writer_relock\<rparr> | _ \<Rightarrow> s)"

text \<open>
  The next step of the destructor: the flag is set under the lock, all waiting threads are
  notified, the writer is joined, which waits for its end, and the file is closed under the lock.
\<close>

definition AsyncLog_delete :: "alog_sys \<Rightarrow> alog_sys option" where
  "AsyncLog_delete s =
     (case aw_dtor s of
        Dtor_none \<Rightarrow>
          if writer_holds s then None
          else Some (s\<lparr>aw_log := (aw_log s)\<lparr>alog_exit := True\<rparr>, aw_at_exit := Some (aw_pushed s),
            aw_dtor := Dtor_exit\<rparr>)
      | Dtor_exit \<Rightarrow> Some (notify_writer (s\<lparr>aw_dtor := Dtor_join\<rparr>))
      | Dtor_join \<Rightarrow> if aw_pc s = Writer_done then Some (s\<lparr>aw_dtor := Dtor_joined\<rparr>) else None
      | Dtor_joined \<Rightarrow>
          if writer_holds s then None
          else Some (s\<lparr>aw_log := alog_close (aw_log s), aw_dtor := Dtor_closed\<rparr>)
      | Dtor_closed \<Rightarrow> None)"

text \<open>The messages an operation has added to the queue.\<close>

definition queued_since :: "alog \<Rightarrow> alog \<Rightarrow> bytes list" where
  "queued_since a a' = drop (length (logQueue a)) (logQueue a')"

text \<open>The steps of the logger's own thread, of its destructor, and the notifications still owed.\<close>

inductive alog_own :: "alog_sys \<Rightarrow> alog_sys \<Rightarrow> bool" where
  writer_moves:
    "alog_writer ok s = Some (Inr t) \<Longrightarrow> alog_own s t"
| dtor_moves:
    "AsyncLog_delete s = Some t \<Longrightarrow> alog_own s t"
| notify_one:
    "aw_owed s = Suc n \<Longrightarrow> alog_own s (notify_writer (s\<lparr>aw_owed := n\<rparr>))"

text \<open>
  The steps of the threads that use the logger, until its destructor is over, and the spurious
  wakeups that \<open>wait\<close> may have. A call of \<open>log\<close> that is filtered out returns before the lock.
\<close>

inductive alog_env :: "alog_sys \<Rightarrow> alog_sys \<Rightarrow> bool" where
  any_log:
    "\<not> writer_holds s \<Longrightarrow> aw_dtor s \<noteq> Dtor_closed \<Longrightarrow> \<not> level < alogLevel (aw_log s) \<Longrightarrow>
     a = alog_log lt now level file line func msg (aw_log s) \<Longrightarrow>
     alog_env s (s\<lparr>aw_log := a, aw_pushed := aw_pushed s @ queued_since (aw_log s) a,
       aw_owed := Suc (aw_owed s)\<rparr>)"
| any_level:
    "aw_dtor s \<noteq> Dtor_closed \<Longrightarrow> alog_env s (s\<lparr>aw_log := alog_level level (aw_log s)\<rparr>)"
| any_open:
    "\<not> writer_holds s \<Longrightarrow> aw_dtor s \<noteq> Dtor_closed \<Longrightarrow> alog_open ok (aw_log s) = (a, threw) \<Longrightarrow>
     alog_env s (s\<lparr>aw_log := a, aw_failed := (aw_failed s \<or> fout_open a \<and> fout_fail a)\<rparr>)"
| any_close:
    "\<not> writer_holds s \<Longrightarrow> aw_dtor s \<noteq> Dtor_closed \<Longrightarrow>
     alog_env s (s\<lparr>aw_log := alog_close (aw_log s)\<rparr>)"
| spurious_wakeup:
    "aw_pc s = Writer_blocked \<Longrightarrow> alog_env s (s\<lparr>aw_pc := Writer_relock\<rparr>)"

definition alog_step :: "alog_sys \<Rightarrow> alog_sys \<Rightarrow> bool" where
  "alog_step s t \<longleftrightarrow> alog_own s t \<or> alog_env s t"

section \<open>The invariant\<close>

text \<open>The message in the writer's hand.\<close>

definition in_hand :: "writer_pc \<Rightarrow> bytes list" where
  "in_hand pc = (case pc of Writer_has m \<Rightarrow> [m] | _ \<Rightarrow> [])"

lemma in_hand_simps [simp]:
  "in_hand Writer_lock = []" "in_hand Writer_pred = []" "in_hand Writer_block = []"
  "in_hand Writer_blocked = []" "in_hand Writer_relock = []" "in_hand Writer_ready = []"
  "in_hand Writer_done = []" "in_hand (Writer_has m) = [m]"
  by (simp_all add: in_hand_def)

text \<open>Nothing queued is forgotten, and what was queued before the flag is out when the writer ends.\<close>

definition alog_kept :: "alog_sys \<Rightarrow> bool" where
  "alog_kept s \<longleftrightarrow> aw_pushed s = map snd (aw_out s) @ in_hand (aw_pc s) @ logQueue (aw_log s)"

definition alog_flushed :: "alog_sys \<Rightarrow> bool" where
  "alog_flushed s \<longleftrightarrow>
     (case aw_at_exit s of
        None \<Rightarrow> True
      | Some ms \<Rightarrow> prefix ms (aw_pushed s) \<and> (aw_pc s = Writer_done \<longrightarrow> prefix ms (map snd (aw_out s))))"

text \<open>A message is lost only once the open stream has been in its error state.\<close>

definition alog_lossless :: "alog_sys \<Rightarrow> bool" where
  "alog_lossless s \<longleftrightarrow> \<not> aw_failed s \<longrightarrow>
     (fout_open (aw_log s) \<longrightarrow> \<not> fout_fail (aw_log s)) \<and> Lost \<notin> fst ` set (aw_out s)"

text \<open>
  What the mutex and the condition variable give: the flag goes with the destructor, the wait
  returns with its predicate true, the writer is about to block only while the predicate is
  false, and is blocked after the flag only until the destructor notifies it.
\<close>

fun writer_may :: "writer_pc \<Rightarrow> alog_dtor \<Rightarrow> bytes list \<Rightarrow> bool" where
  "writer_may Writer_done d q = (d \<noteq> Dtor_none)"
| "writer_may Writer_block d q = (d = Dtor_none)"
| "writer_may Writer_blocked d q = (d = Dtor_none \<or> d = Dtor_exit)"
| "writer_may Writer_ready d q = (d \<noteq> Dtor_joined \<and> d \<noteq> Dtor_closed \<and> (d = Dtor_none \<longrightarrow> q \<noteq> []))"
| "writer_may _ d q = (d \<noteq> Dtor_joined \<and> d \<noteq> Dtor_closed)"

definition alog_sync :: "alog_sys \<Rightarrow> bool" where
  "alog_sync s \<longleftrightarrow>
     alog_exit (aw_log s) = (aw_dtor s \<noteq> Dtor_none) \<and>
     (aw_at_exit s = None) = (aw_dtor s = Dtor_none) \<and>
     writer_may (aw_pc s) (aw_dtor s) (logQueue (aw_log s)) \<and>
     (aw_dtor s = Dtor_closed \<longrightarrow> \<not> fout_open (aw_log s))"

lemmas alog_inv_defs = alog_kept_def alog_flushed_def alog_lossless_def alog_sync_def

lemma alog_log_queue:
  assumes "a' = alog_log lt now level file line func msg a"
  shows "logQueue a' = logQueue a @ queued_since a a' \<and> alog_exit a' = alog_exit a \<and>
    fout_open a' = fout_open a \<and> fout_fail a' = fout_fail a"
  by (simp add: assms alog_log_def queued_since_def)

text \<open>The writer's steps, one by one.\<close>

lemma alog_writerE:
  assumes "alog_writer ok s = Some (Inr t)"
  obtains
    (lock) "aw_pc s = Writer_lock \<or> aw_pc s = Writer_relock" "t = s\<lparr>aw_pc := Writer_pred\<rparr>"
  | (true) "aw_pc s = Writer_pred" "alog_exit (aw_log s) \<or> logQueue (aw_log s) \<noteq> []"
      "t = s\<lparr>aw_pc := Writer_ready\<rparr>"
  | (false) "aw_pc s = Writer_pred" "\<not> alog_exit (aw_log s)" "logQueue (aw_log s) = []"
      "t = s\<lparr>aw_pc := Writer_block\<rparr>"
  | (block) "aw_pc s = Writer_block" "t = s\<lparr>aw_pc := Writer_blocked\<rparr>"
  | (leave) "aw_pc s = Writer_ready" "alog_exit (aw_log s)" "logQueue (aw_log s) = []"
      "t = s\<lparr>aw_pc := Writer_done\<rparr>"
  | (pop) m ms where "aw_pc s = Writer_ready" "logQueue (aw_log s) = m # ms"
      "t = s\<lparr>aw_log := (aw_log s)\<lparr>logQueue := ms\<rparr>, aw_pc := Writer_has m\<rparr>"
  | (wrote) m to a where "aw_pc s = Writer_has m" "alog_write ok (aw_log s) = (to, a)"
      "t = s\<lparr>aw_log := a, aw_out := aw_out s @ [(to, m)], aw_pc := Writer_lock,
        aw_failed := (aw_failed s \<or> fout_open a \<and> fout_fail a)\<rparr>"
  using assms
  by (cases "aw_pc s") (auto simp: alog_writer_def split: if_splits list.splits prod.splits)

lemma alog_write_post:
  "alog_write ok a = (to, b) \<Longrightarrow> logQueue b = logQueue a \<and> alog_exit b = alog_exit a \<and>
    fout_open b = fout_open a \<and> (to = Lost \<longleftrightarrow> fout_open b \<and> fout_fail b)"
  by (auto simp: alog_write_def split: if_splits)

lemma notify_writer_simps [simp]:
  "aw_log (notify_writer s) = aw_log s" "aw_dtor (notify_writer s) = aw_dtor s"
  "aw_owed (notify_writer s) = aw_owed s" "aw_out (notify_writer s) = aw_out s"
  "aw_pushed (notify_writer s) = aw_pushed s" "aw_at_exit (notify_writer s) = aw_at_exit s"
  "aw_failed (notify_writer s) = aw_failed s" "in_hand (aw_pc (notify_writer s)) = in_hand (aw_pc s)"
  by (simp_all add: notify_writer_def split: writer_pc.split)

lemma notify_writer_pc [simp]:
  "aw_pc (notify_writer s) = Writer_done \<longleftrightarrow> aw_pc s = Writer_done"
  by (simp_all add: notify_writer_def split: writer_pc.split)

lemma writer_kept:
  assumes "alog_writer ok s = Some (Inr t)" and "alog_kept s"
  shows "alog_kept t"
  using assms(1)
proof (cases rule: alog_writerE)
  case (wrote m to a)
  with assms(2) alog_write_post [OF wrote(2)] show ?thesis by (simp add: alog_kept_def)
qed (use assms(2) in \<open>auto simp: alog_kept_def\<close>)

lemma writer_flushed:
  assumes "alog_writer ok s = Some (Inr t)" and "alog_kept s" and "alog_flushed s"
  shows "alog_flushed t"
  using assms(1)
proof (cases rule: alog_writerE)
  case leave
  then have "map snd (aw_out s) = aw_pushed s" using assms(2) by (simp add: alog_kept_def)
  with leave assms(3) show ?thesis by (simp add: alog_flushed_def split: option.split_asm)
qed (use assms(3) in \<open>auto simp: alog_flushed_def split: option.splits\<close>)

lemma writer_lossless:
  assumes "alog_writer ok s = Some (Inr t)" and "alog_lossless s"
  shows "alog_lossless t"
  using assms(1)
proof (cases rule: alog_writerE)
  case (wrote m to a)
  with assms(2) alog_write_post [OF wrote(2)] show ?thesis by (auto simp: alog_lossless_def)
qed (use assms(2) in \<open>simp_all add: alog_lossless_def\<close>)

lemma writer_sync:
  assumes "alog_writer ok s = Some (Inr t)" and "alog_sync s"
  shows "alog_sync t"
proof -
  have s: "alog_exit (aw_log s) = (aw_dtor s \<noteq> Dtor_none)" "(aw_at_exit s = None) = (aw_dtor s = Dtor_none)"
    "writer_may (aw_pc s) (aw_dtor s) (logQueue (aw_log s))"
    "aw_dtor s = Dtor_closed \<longrightarrow> \<not> fout_open (aw_log s)"
    using assms(2) unfolding alog_sync_def by blast+
  from assms(1) show ?thesis
  proof (cases rule: alog_writerE)
    case lock
    with s show ?thesis by (auto simp: alog_sync_def)
  next
    case (wrote m to a)
    with s alog_write_post [OF wrote(2)] show ?thesis by (auto simp: alog_sync_def)
  qed (use s in \<open>auto simp: alog_sync_def\<close>)
qed

text \<open>What leaves the histories alone keeps what is said of them.\<close>

lemma histories_kept:
  assumes "aw_pushed t = aw_pushed s" and "aw_out t = aw_out s" and "aw_at_exit t = aw_at_exit s"
    and "in_hand (aw_pc t) = in_hand (aw_pc s)" and "aw_pc t = Writer_done \<longrightarrow> aw_pc s = Writer_done"
    and "logQueue (aw_log t) = logQueue (aw_log s)"
  shows "(alog_kept s \<longrightarrow> alog_kept t) \<and> (alog_flushed s \<longrightarrow> alog_flushed t)"
  using assms(5) by (auto simp: alog_kept_def alog_flushed_def assms(1-4,6) split: option.splits)

definition alog_inv :: "alog_sys \<Rightarrow> bool" where
  "alog_inv s \<longleftrightarrow> alog_kept s \<and> alog_flushed s \<and> alog_lossless s \<and> alog_sync s"

lemma alog_deleteE:
  assumes "AsyncLog_delete s = Some t"
  obtains
    (exit) "aw_dtor s = Dtor_none" "\<not> writer_holds s"
      "t = s\<lparr>aw_log := (aw_log s)\<lparr>alog_exit := True\<rparr>, aw_at_exit := Some (aw_pushed s), aw_dtor := Dtor_exit\<rparr>"
  | (notify) "aw_dtor s = Dtor_exit" "t = notify_writer (s\<lparr>aw_dtor := Dtor_join\<rparr>)"
  | (join) "aw_dtor s = Dtor_join" "aw_pc s = Writer_done" "t = s\<lparr>aw_dtor := Dtor_joined\<rparr>"
  | (close) "aw_dtor s = Dtor_joined"
      "t = s\<lparr>aw_log := alog_close (aw_log s), aw_dtor := Dtor_closed\<rparr>"
  using assms by (cases "aw_dtor s") (auto simp: AsyncLog_delete_def split: if_splits)

lemma alog_close_simps [simp]:
  "logQueue (alog_close a) = logQueue a" "alog_exit (alog_close a) = alog_exit a"
  "fout_fail (alog_close a) = fout_fail a" "\<not> fout_open (alog_close a)"
  by (simp_all add: alog_close_def)

lemma alog_inv_parts:
  assumes "alog_inv s"
  obtains "alog_kept s" "alog_flushed s" "alog_lossless s" "alog_sync s"
    "alog_exit (aw_log s) = (aw_dtor s \<noteq> Dtor_none)" "(aw_at_exit s = None) = (aw_dtor s = Dtor_none)"
    "writer_may (aw_pc s) (aw_dtor s) (logQueue (aw_log s))"
    "aw_dtor s = Dtor_closed \<longrightarrow> \<not> fout_open (aw_log s)"
  using assms unfolding alog_inv_def alog_sync_def by blast

lemma notify_may: "writer_may (aw_pc (notify_writer s)) d q \<longleftrightarrow>
    (if aw_pc s = Writer_blocked then d \<noteq> Dtor_joined \<and> d \<noteq> Dtor_closed else writer_may (aw_pc s) d q)"
  by (simp add: notify_writer_def split: writer_pc.split)

lemma delete_inv:
  assumes "AsyncLog_delete s = Some t" and "alog_inv s"
  shows "alog_inv t"
  using assms(2)
proof (rule alog_inv_parts)
  assume k: "alog_kept s" "alog_flushed s" "alog_lossless s" "alog_sync s"
    and s: "alog_exit (aw_log s) = (aw_dtor s \<noteq> Dtor_none)" "(aw_at_exit s = None) = (aw_dtor s = Dtor_none)"
    "writer_may (aw_pc s) (aw_dtor s) (logQueue (aw_log s))"
  have m: "writer_may (aw_pc t) (aw_dtor t) (logQueue (aw_log t)) \<and> alog_lossless t"
    using assms(1)
  proof (cases rule: alog_deleteE)
    case exit
    with k(3) s(3) show ?thesis
      by (cases "aw_pc s") (simp_all add: alog_lossless_def writer_holds_def)
  next
    case notify
    with k(3) s(3) show ?thesis
      by (cases "aw_pc s") (simp_all add: alog_lossless_def notify_may)
  qed (use k(3) s(3) in \<open>cases "aw_pc s"; simp_all add: alog_lossless_def\<close>)+
  show ?thesis
    using assms(1)
  proof (cases rule: alog_deleteE)
    case exit
    then have "aw_pc s \<noteq> Writer_done" using s(3) by auto
    with exit k(1) m show ?thesis by (simp add: alog_inv_def alog_inv_defs)
  next
    case notify
    then show ?thesis using k m s histories_kept [of t s] by (simp add: alog_inv_def alog_sync_def)
  next
    case join
    then show ?thesis using k m s histories_kept [of t s] by (simp add: alog_inv_def alog_sync_def)
  next
    case close
    then show ?thesis using k m s histories_kept [of t s] by (simp add: alog_inv_def alog_sync_def)
  qed
qed

lemma alog_own_inv:
  assumes "alog_own s t" and "alog_inv s"
  shows "alog_inv t"
  using assms(1)
proof (cases rule: alog_own.cases)
  case (writer_moves ok)
  with assms(2) show ?thesis
    unfolding alog_inv_def by (blast intro: writer_kept writer_flushed writer_lossless writer_sync)
next
  case dtor_moves
  then show ?thesis using assms(2) by (rule delete_inv)
next
  case (notify_one n)
  from assms(2) show ?thesis
  proof (rule alog_inv_parts)
    assume k: "alog_kept s" "alog_flushed s" "alog_lossless s" "alog_sync s"
    have "alog_lossless t" using k(3) notify_one by (simp add: alog_lossless_def)
    moreover have "alog_sync t"
      using k(4) notify_one by (cases "aw_pc s") (simp_all add: alog_sync_def notify_may, auto)
    ultimately show ?thesis using k histories_kept [of t s] notify_one by (simp add: alog_inv_def)
  qed
qed

lemma alog_env_inv:
  assumes "alog_env s t" and "alog_inv s"
  shows "alog_inv t"
  using assms(2)
proof (rule alog_inv_parts)
  assume k: "alog_kept s" "alog_flushed s" "alog_lossless s" "alog_sync s"
    and s: "alog_exit (aw_log s) = (aw_dtor s \<noteq> Dtor_none)" "(aw_at_exit s = None) = (aw_dtor s = Dtor_none)"
    "writer_may (aw_pc s) (aw_dtor s) (logQueue (aw_log s))"
    "aw_dtor s = Dtor_closed \<longrightarrow> \<not> fout_open (aw_log s)"
  show ?thesis
    using assms(1)
  proof (cases rule: alog_env.cases)
    case (any_log level a lt now fname line func msg)
    note q = alog_log_queue [OF any_log(5)]
    have "alog_kept t" using k(1) any_log(1) q by (simp add: alog_kept_def)
    moreover have "alog_flushed t"
      using k(2) any_log(1) by (auto simp: alog_flushed_def prefix_prefix split: option.splits)
    moreover have "alog_lossless t" using k(3) any_log(1) q by (simp add: alog_lossless_def)
    moreover have "alog_sync t"
      using s any_log(1,2) q by (cases "aw_pc s") (simp_all add: alog_sync_def writer_holds_def)
    ultimately show ?thesis by (simp add: alog_inv_def)
  next
    case (any_level level)
    with k histories_kept [of t s] show ?thesis
      by (simp add: alog_inv_def alog_sync_def alog_level_def alog_lossless_def)
  next
    case (any_open ok a threw)
    from any_open(4) have q: "logQueue a = logQueue (aw_log s)" "alog_exit a = alog_exit (aw_log s)"
      by (auto simp: alog_open_def split: if_splits)
    have "alog_sync t" using s q any_open(1,3) by (simp add: alog_sync_def)
    moreover have "alog_lossless t" using k(3) any_open(1) by (simp add: alog_lossless_def)
    ultimately show ?thesis using k q histories_kept [of t s] any_open(1) by (simp add: alog_inv_def)
  next
    case any_close
    with k histories_kept [of t s] show ?thesis
      by (simp add: alog_inv_def alog_sync_def alog_lossless_def)
  next
    case spurious_wakeup
    with k(4) have "alog_sync t" by (auto simp: alog_sync_def)
    with spurious_wakeup k histories_kept [of t s] show ?thesis
      by (simp add: alog_inv_def alog_lossless_def)
  qed
qed

lemma alog_init_inv: "alog_init s \<Longrightarrow> alog_inv s"
  by (simp add: alog_init_def alog_start_def alog_inv_def alog_inv_defs alog_new_def)

interpretation aw: invariant_machine "\<lambda>_ :: unit. True" alog_init "\<lambda>_. alog_step" alog_inv
  by unfold_locales (auto simp: alog_step_def intro: alog_init_inv alog_own_inv alog_env_inv)

lemma writer_over: "writer_may pc Dtor_joined q \<longleftrightarrow> pc = Writer_done" "writer_may pc Dtor_closed q \<longleftrightarrow> pc = Writer_done"
  by (cases pc; simp)+

lemma writer_never_undefined:
  assumes "reachable alog_init alog_step s"
  shows "alog_writer ok s \<noteq> Some (Inl e)"
proof -
  have "alog_sync s" using aw.reachable_inv [OF _ assms] by (simp add: alog_inv_def)
  then show ?thesis
    by (cases "aw_pc s"; cases "logQueue (aw_log s)")
      (simp_all add: alog_writer_def alog_sync_def split: prod.split)
qed

section \<open>The end of the logger\<close>

text \<open>What the writer, the destructor and the owed notifications still have to do.\<close>

definition writer_left :: "writer_pc \<Rightarrow> nat" where
  "writer_left pc = (case pc of Writer_done \<Rightarrow> 0 | Writer_blocked \<Rightarrow> 1 | Writer_ready \<Rightarrow> 1 | Writer_block \<Rightarrow> 2
     | Writer_pred \<Rightarrow> 3 | Writer_lock \<Rightarrow> 4 | Writer_relock \<Rightarrow> 4 | Writer_has m \<Rightarrow> 5)"

definition dtor_left :: "alog_dtor \<Rightarrow> nat" where
  "dtor_left d = (case d of Dtor_none \<Rightarrow> 7 | Dtor_exit \<Rightarrow> 6 | Dtor_join \<Rightarrow> 2 | Dtor_joined \<Rightarrow> 1 | Dtor_closed \<Rightarrow> 0)"

definition alog_work :: "alog_sys \<Rightarrow> nat" where
  "alog_work s = 5 * length (logQueue (aw_log s)) + 4 * aw_owed s + writer_left (aw_pc s) +
     dtor_left (aw_dtor s)"

lemma left_simps [simp]:
  "writer_left Writer_done = 0" "writer_left Writer_blocked = 1" "writer_left Writer_ready = 1"
  "writer_left Writer_block = 2" "writer_left Writer_pred = 3" "writer_left Writer_lock = 4"
  "writer_left Writer_relock = 4" "writer_left (Writer_has m) = 5"
  "dtor_left Dtor_none = 7" "dtor_left Dtor_exit = 6" "dtor_left Dtor_join = 2"
  "dtor_left Dtor_joined = 1" "dtor_left Dtor_closed = 0"
  by (simp_all add: writer_left_def dtor_left_def)

lemma notify_left: "writer_left (aw_pc (notify_writer s)) \<le> writer_left (aw_pc s) + 3"
  by (simp add: notify_writer_def split: writer_pc.split)

text \<open>With no new messages queued, the writer ends only when the queue is empty.\<close>

definition alog_ending :: "bytes list \<Rightarrow> alog_sys \<Rightarrow> bool" where
  "alog_ending ms s \<longleftrightarrow> alog_inv s \<and> aw_pushed s = ms \<and> (aw_pc s = Writer_done \<longrightarrow> logQueue (aw_log s) = [])"

lemma own_ending:
  assumes "alog_own s t" and "alog_ending ms s"
  shows "alog_ending ms t \<and> alog_work t < alog_work s"
proof -
  have inv: "alog_inv t" using assms alog_own_inv by (auto simp: alog_ending_def)
  have sync: "alog_sync s" using assms(2) by (simp add: alog_ending_def alog_inv_def)
  have "aw_pushed t = aw_pushed s \<and> (aw_pc t = Writer_done \<longrightarrow> logQueue (aw_log t) = []) \<and>
      alog_work t < alog_work s"
    using assms(1)
  proof (cases rule: alog_own.cases)
    case (writer_moves ok)
    then show ?thesis
      by (cases rule: alog_writerE) (auto simp: alog_work_def dest: alog_write_post)
  next
    case dtor_moves
    with assms(2) notify_left [of "s\<lparr>aw_dtor := Dtor_join\<rparr>"] show ?thesis
      by (auto simp: AsyncLog_delete_def alog_work_def alog_close_def alog_ending_def
          split: alog_dtor.splits if_splits)
  next
    case (notify_one n)
    with assms(2) notify_left [of "s\<lparr>aw_owed := n\<rparr>"] show ?thesis
      by (simp add: alog_work_def alog_ending_def)
  qed
  with inv assms(2) show ?thesis by (simp add: alog_ending_def)
qed

interpretation ae: settling_machine alog_own "alog_ending ms" alog_work for ms
  by unfold_locales (simp_all add: own_ending)

text \<open>Until the destructor is over somebody can move; the writer is never left blocked.\<close>

lemma ending_moves:
  assumes "alog_inv s" and "aw_dtor s \<noteq> Dtor_closed"
  shows "\<exists>t. alog_own s t"
proof -
  have sync: "alog_sync s" using assms(1) by (simp add: alog_inv_def)
  show ?thesis
  proof (cases "\<exists>t. AsyncLog_delete s = Some t")
    case True
    then show ?thesis by (auto intro: dtor_moves)
  next
    case False
    with sync assms(2) have "aw_pc s \<noteq> Writer_blocked \<and> aw_pc s \<noteq> Writer_done"
      by (auto simp: AsyncLog_delete_def alog_sync_def writer_holds_def split: alog_dtor.splits if_splits)
    then have "\<exists>t. alog_writer True s = Some (Inr t)"
      using sync
      by (cases "aw_pc s"; cases "logQueue (aw_log s)")
        (auto simp: alog_writer_def alog_sync_def split: prod.splits)
    then show ?thesis by (auto intro: writer_moves)
  qed
qed

lemma ending_over:
  assumes "alog_ending ms s" and "aw_dtor s = Dtor_closed"
  shows "aw_pc s = Writer_done \<and> map snd (aw_out s) = ms \<and> logQueue (aw_log s) = [] \<and> \<not> fout_open (aw_log s)"
proof -
  have "aw_pc s = Writer_done" using assms by (simp add: alog_ending_def alog_inv_def alog_sync_def writer_over)
  then show ?thesis using assms by (auto simp: alog_ending_def alog_inv_def alog_kept_def alog_sync_def)
qed

section \<open>Properties\<close>




lemma start_reachable: "reachable alog_init alog_step alog_start"
  by (rule reach_init) (simp add: alog_init_def)


text \<open>
  C14: The destructor of the queueing logger returns: from any reachable state in which it has not
  begun, if no more messages are queued, the steps of the writer, of the destructor and of the
  notifications still owed are bounded, and they can only stop where the destructor is over: it is
  never left joining a writer that sleeps, because the flag is set under the lock and the
  notification comes after it. When it is over the writer has ended, every message ever queued has
  been written in order and the file is closed. Spurious wakeups are not counted.
\<close>

theorem destructor_joins:
  assumes "reachable alog_init alog_step s" and "aw_dtor s = Dtor_none" and "is_run alog_own s run"
  shows "length run \<le> 5 * length (logQueue (aw_log s)) + 4 * aw_owed s + 12 \<and>
    ((\<nexists>t. alog_own (last (s # run)) t) \<longrightarrow> aw_dtor (last (s # run)) = Dtor_closed) \<and>
    (aw_dtor (last (s # run)) = Dtor_closed \<longrightarrow>
       aw_pc (last (s # run)) = Writer_done \<and> map snd (aw_out (last (s # run))) = aw_pushed s \<and>
       logQueue (aw_log (last (s # run))) = [] \<and> \<not> fout_open (aw_log (last (s # run))))"
proof -
  have inv: "alog_inv s" using aw.reachable_inv [OF _ assms(1)] by simp
  with assms(2) have ok: "alog_ending (aw_pushed s) s"
    by (auto simp: alog_ending_def alog_inv_def alog_sync_def)
  have "writer_left (aw_pc s) \<le> 5" by (cases "aw_pc s") simp_all
  with ae.run_bound [OF ok assms(3)] assms(2)
  have "length run \<le> 5 * length (logQueue (aw_log s)) + 4 * aw_owed s + 12" by (simp add: alog_work_def)
  moreover note last = ae.run_ok [OF ok assms(3)]
  have "alog_inv (last (s # run))" using last unfolding alog_ending_def by blast
  from ending_moves [OF this] ending_over [OF last] show ?thesis
    using calculation by blast
qed

text \<open>The witness: a message is queued while the writer sleeps, and the destructor is called.\<close>

definition sleeping :: alog_sys where
  "sleeping = alog_start\<lparr>aw_pc := Writer_blocked\<rparr>"

lemma sleeping_reachable: "reachable alog_init alog_step sleeping"
proof -
  let ?a = "alog_start\<lparr>aw_pc := Writer_pred\<rparr>"
  let ?b = "alog_start\<lparr>aw_pc := Writer_block\<rparr>"
  have "alog_own alog_start ?a" "alog_own ?a ?b" "alog_own ?b sleeping"
    by (rule writer_moves [of True], simp add: alog_writer_def sleeping_def alog_start_def alog_new_def)+
  then have "is_run alog_step alog_start [?a, ?b, sleeping]" by (simp add: alog_step_def)
  then show ?thesis by (rule reachable_run [OF start_reachable]) simp
qed

theorem destructor_joins_witness:
  "\<exists>(s :: alog_sys) t. aw_pc s = Writer_blocked \<and> length (logQueue (aw_log s)) = 1 \<and>
    is_run alog_own s [t] \<and> aw_pc t = Writer_blocked \<and> alog_exit (aw_log t) \<and> (\<exists>u. alog_own t u)"
proof -
  define a where "a = alog_log (\<lambda>_. \<lparr>tm_sec = 5, tm_min = 4, tm_hour = 3, tm_mday = 2, tm_mon = 0, tm_year = 125\<rparr>)
    (Timestamp_now 1735787045) AL_ERROR ''a.cc'' 1 ''f'' ''text'' (aw_log sleeping)"
  define s where "s = sleeping\<lparr>aw_log := a, aw_pushed := aw_pushed sleeping @ queued_since (aw_log sleeping) a,
    aw_owed := Suc (aw_owed sleeping)\<rparr>"
  define t where "t = s\<lparr>aw_log := a\<lparr>alog_exit := True\<rparr>, aw_at_exit := Some (aw_pushed s), aw_dtor := Dtor_exit\<rparr>"
  have "alog_env sleeping s"
    unfolding s_def
    by (rule any_log [OF _ _ _ a_def])
      (simp_all add: sleeping_def alog_start_def alog_new_def writer_holds_def less_async_level_def)
  then have r: "reachable alog_init alog_step s"
    by (intro reach_step [OF sleeping_reachable]) (simp add: alog_step_def)
  have fields: "aw_dtor s = Dtor_none" "aw_pc s = Writer_blocked" "length (logQueue (aw_log s)) = 1"
    "aw_pc t = Writer_blocked" "alog_exit (aw_log t)" "aw_dtor t = Dtor_exit" "aw_log s = a"
    by (simp_all add: t_def s_def a_def sleeping_def alog_start_def alog_new_def alog_log_def
        less_async_level_def)
  then have "alog_own s t"
    by (intro dtor_moves) (simp add: AsyncLog_delete_def writer_holds_def t_def)
  then have run: "is_run alog_own s [t]" by simp
  from destructor_joins [OF r fields(1) run] fields(6) have "\<exists>u. alog_own t u" by auto
  with run fields show ?thesis by blast
qed


text \<open>
  The threshold does not order the levels as their names say: a message is queued exactly if
  its number in the enumeration is not below the threshold's, so that a logger set to log only
  fatal errors still logs every debug message.
\<close>

theorem level_filter:
  "alog_log lt now level file line func msg (alog_level threshold a) =
     (let a' = alog_level threshold a in
      if level \<ge> threshold
      then a'\<lparr>logQueue := logQueue a @ [log_message (toString lt now) file line func msg]\<rparr> else a') \<and>
   AL_FATAL < AL_DEBUG"
  by (simp add: alog_log_def alog_level_def Let_def not_less [symmetric] less_async_level_def)

end
