(* ===== verification/Logger.thy ===== *)
theory Logger
  imports Timestamps
begin

text \<open>
  The synchronous logger of \<open>include/base/Logger.h\<close> and \<open>src/base/Logger.cc\<close>: one shared
  object whose level is set and then read back by every use of a macro, and the output stream.
\<close>

section \<open>State and operations\<close>

datatype Loglevel = INFO | ERROR | FATAL | DEBUG

text \<open>The numbers of the enumeration; the member of the logger is an \<open>int\<close>.\<close>

fun level_num :: "Loglevel \<Rightarrow> int" where
  "level_num INFO = 0" | "level_num ERROR = 1" | "level_num FATAL = 2" | "level_num DEBUG = 3"

record logger =
  logLevel :: int
  cout :: bytes

definition setLogLevel :: "int \<Rightarrow> logger \<Rightarrow> logger" where
  "setLogLevel level l = l\<lparr>logLevel := level\<rparr>"

definition level_prefix :: "int \<Rightarrow> bytes" where
  "level_prefix n =
     (if n = level_num INFO then ''[INFO]'' else if n = level_num ERROR then ''[ERROR]''
      else if n = level_num FATAL then ''[FATAL]'' else if n = level_num DEBUG then ''[DUBUG]''
      else [])"

text \<open>\<open>now\<close> is \<open>Timestamp::now()\<close>.\<close>

definition Logger_log :: "(int64 \<Rightarrow> tm) \<Rightarrow> Timestamp \<Rightarrow> bytes \<Rightarrow> logger \<Rightarrow> logger" where
  "Logger_log localtime now msg l =
     l\<lparr>cout := cout l @ level_prefix (logLevel l) @ toString localtime now @ '' : '' @ msg @
        [CHR 0x0A]\<rparr>"

text \<open>The text a macro formats: \<open>snprintf\<close> into 1024 bytes.\<close>

definition log_text :: "string \<Rightarrow> int \<Rightarrow> bytes \<Rightarrow> bytes" where
  "log_text file line msg = take 1023 (''['' @ file @ '':'' @ show_int line @ ''] '' @ msg)"

definition LOG_INFO ::
  "(int64 \<Rightarrow> tm) \<Rightarrow> Timestamp \<Rightarrow> string \<Rightarrow> int \<Rightarrow> bytes \<Rightarrow> logger \<Rightarrow> logger" where
  "LOG_INFO localtime now file line msg l =
     Logger_log localtime now (log_text file line msg) (setLogLevel (level_num INFO) l)"

definition LOG_ERROR ::
  "(int64 \<Rightarrow> tm) \<Rightarrow> Timestamp \<Rightarrow> string \<Rightarrow> int \<Rightarrow> bytes \<Rightarrow> logger \<Rightarrow> logger" where
  "LOG_ERROR localtime now file line msg l =
     Logger_log localtime now (log_text file line msg) (setLogLevel (level_num ERROR) l)"

text \<open>\<open>LOG_FATAL\<close> ends the process after logging: the final state of the logger is given.\<close>

definition LOG_FATAL ::
  "(int64 \<Rightarrow> tm) \<Rightarrow> Timestamp \<Rightarrow> string \<Rightarrow> int \<Rightarrow> bytes \<Rightarrow> logger \<Rightarrow> logger \<times> fault" where
  "LOG_FATAL localtime now file line msg l =
     (Logger_log localtime now (log_text file line msg) (setLogLevel (level_num FATAL) l), Fatal_exit)"

text \<open>\<open>LOG_DEBUG\<close> is empty unless \<open>MUDEBUG\<close> is defined.\<close>

definition LOG_DEBUG ::
  "bool \<Rightarrow> (int64 \<Rightarrow> tm) \<Rightarrow> Timestamp \<Rightarrow> string \<Rightarrow> int \<Rightarrow> bytes \<Rightarrow> logger \<Rightarrow> logger" where
  "LOG_DEBUG mudebug localtime now file line msg l =
     (if mudebug then Logger_log localtime now (log_text file line msg) (setLogLevel (level_num DEBUG) l)
      else l)"

section \<open>Two threads\<close>

text \<open>
  The two calls of a macro in a thread that logs \<open>msg\<close> at level \<open>n\<close>. An interleaving of such
  threads is a list of calls in which each thread's level is set before its text is logged.
\<close>

datatype log_call = Set_level int | Log_msg bytes

fun run_log_calls :: "(int64 \<Rightarrow> tm) \<Rightarrow> Timestamp \<Rightarrow> log_call list \<Rightarrow> logger \<Rightarrow> logger" where
  "run_log_calls lt now [] l = l"
| "run_log_calls lt now (Set_level n # cs) l = run_log_calls lt now cs (setLogLevel n l)"
| "run_log_calls lt now (Log_msg m # cs) l = run_log_calls lt now cs (Logger_log lt now m l)"

text \<open>The lines that the log should hold: every text after the prefix of its own level.\<close>

definition log_line :: "(int64 \<Rightarrow> tm) \<Rightarrow> Timestamp \<Rightarrow> int \<Rightarrow> bytes \<Rightarrow> bytes" where
  "log_line lt now n m = level_prefix n @ toString lt now @ '' : '' @ m @ [CHR 0x0A]"

lemma run_log_calls_serial:
  "cout (run_log_calls lt now (concat (map (\<lambda>(n, m). [Set_level n, Log_msg m]) jobs)) l) =
     cout l @ concat (map (\<lambda>(n, m). log_line lt now n m) jobs)"
  by (induction jobs arbitrary: l) (auto simp: Logger_log_def setLogLevel_def log_line_def)

section \<open>Properties\<close>

text \<open>
  Macros that run one after the other write each text on a line of its own behind the prefix
  of its own level; but the level lives in the one shared logger, and when two threads interleave
  between setting it and logging, an error is printed under the prefix of the other thread's
  message.
\<close>

theorem log_prefix_race:
  "cout (run_log_calls lt now (concat (map (\<lambda>(n, m). [Set_level n, Log_msg m]) jobs)) l) =
     cout l @ concat (map (\<lambda>(n, m). log_line lt now n m) jobs) \<and>
   cout (run_log_calls lt now [Set_level (level_num ERROR), Set_level (level_num INFO), Log_msg m,
       Log_msg m'] l) =
     cout l @ log_line lt now (level_num INFO) m @ log_line lt now (level_num INFO) m'"
  by (simp only: run_log_calls_serial) (simp add: Logger_log_def setLogLevel_def log_line_def)

end
