(* ===== verification/Singleton.thy ===== *)
theory Singleton
  imports Net_Prelude
begin

text \<open>
  The double-checked \<open>instance()\<close> of both queueing loggers (\<open>src/base/AsyncLog.cc\<close> and
  \<open>src/base/AsyncLog2.cc\<close>): the pointer is tested without the lock, then again with it before the
  object is made. Memory is sequentially consistent here; the first test is a plain read.
\<close>

section \<open>State and steps\<close>

text \<open>
  Where a caller is: at the first test, about to lock, at the second test with the lock held, about
  to release the lock, about to read the pointer it returns, or returned with a pointer.
\<close>

datatype inst_pc =
  I_test | I_lock | I_test2 | I_unlock | I_return | I_returned "nat option"

text \<open>Objects are numbered in the order they are made; \<open>in_made\<close> is their number.\<close>

record inst_sys =
  in_instance :: "nat option"
  in_mutex :: "nat option"
  in_made :: nat
  in_pc :: "nat \<Rightarrow> inst_pc"

definition inst_init :: "inst_sys \<Rightarrow> bool" where
  "inst_init s \<longleftrightarrow> in_instance s = None \<and> in_mutex s = None \<and> in_made s = 0 \<and> in_pc s = (\<lambda>_. I_test)"

definition inst_goto :: "nat \<Rightarrow> inst_pc \<Rightarrow> inst_sys \<Rightarrow> inst_sys" where
  "inst_goto i pc s = s\<lparr>in_pc := (in_pc s)(i := pc)\<rparr>"

text \<open>The next step of caller \<open>i\<close>; \<open>None\<close> while it waits for the lock. A caller may call again.\<close>

definition instance_step :: "nat \<Rightarrow> inst_sys \<Rightarrow> inst_sys option" where
  "instance_step i s =
     (case in_pc s i of
        I_test \<Rightarrow> Some (inst_goto i (if in_instance s = None then I_lock else I_return) s)
      | I_lock \<Rightarrow> if in_mutex s = None then Some (inst_goto i I_test2 (s\<lparr>in_mutex := Some i\<rparr>)) else None
      | I_test2 \<Rightarrow>
          Some (inst_goto i I_unlock
            (if in_instance s = None then s\<lparr>in_instance := Some (in_made s), in_made := Suc (in_made s)\<rparr>
             else s))
      | I_unlock \<Rightarrow> Some (inst_goto i I_return (s\<lparr>in_mutex := None\<rparr>))
      | I_return \<Rightarrow> Some (inst_goto i (I_returned (in_instance s)) s)
      | I_returned _ \<Rightarrow> Some (inst_goto i I_test s))"

definition inst_step :: "inst_sys \<Rightarrow> inst_sys \<Rightarrow> bool" where
  "inst_step s t \<longleftrightarrow> (\<exists>i. instance_step i s = Some t)"

section \<open>The invariant\<close>

definition inst_inv :: "inst_sys \<Rightarrow> bool" where
  "inst_inv s \<longleftrightarrow>
     (in_instance s = None \<and> in_made s = 0 \<or> in_instance s = Some 0 \<and> in_made s = 1) \<and>
     (\<forall>i. (in_pc s i \<in> {I_test2, I_unlock} \<longleftrightarrow> in_mutex s = Some i) \<and>
        (in_pc s i \<in> {I_unlock, I_return} \<longrightarrow> in_instance s = Some 0) \<and>
        (\<forall>p. in_pc s i = I_returned p \<longrightarrow> p = Some 0 \<and> in_instance s = Some 0))"

lemma inst_step_inv: "inst_step s t \<Longrightarrow> inst_inv s \<Longrightarrow> inst_inv t"
proof -
  assume inv: "inst_inv s" and "inst_step s t"
  then obtain i where step: "instance_step i s = Some t" by (auto simp: inst_step_def)
  have u: "in_pc s j = I_test2 \<Longrightarrow> in_mutex s = Some j" "in_pc s j = I_unlock \<Longrightarrow> in_mutex s = Some j"
    "in_pc s j = I_returned p \<Longrightarrow> p = Some 0 \<and> in_instance s = Some 0" for j p
    using inv by (auto simp: inst_inv_def)
  from step inv show "inst_inv t"
    by (cases "in_pc s i")
      (auto simp: instance_step_def inst_goto_def inst_inv_def split: if_splits dest: u(3),
       (metis u(1,2) option.inject)+)
qed

interpretation si: invariant_machine "\<lambda>_ :: unit. True" inst_init "\<lambda>_. inst_step" inst_inv
proof unfold_locales
  show "inst_init s \<Longrightarrow> inst_inv s" for s by (simp add: inst_init_def inst_inv_def)
  show "inst_inv s \<Longrightarrow> inst_step s t \<Longrightarrow> inst_inv t" for s t by (rule inst_step_inv)
qed

section \<open>Properties\<close>

text \<open>
  C33: However many threads call \<open>instance()\<close> at once, at most one logger is made, and every call
  that returns gives the pointer to it and never a null pointer; a caller that waits for the lock
  waits for one that can go on.
\<close>

theorem one_instance:
  assumes "reachable inst_init inst_step s"
  shows "in_made s \<le> 1 \<and> (\<forall>i p. in_pc s i = I_returned p \<longrightarrow> p = Some 0 \<and> in_instance s = Some 0) \<and>
    (\<forall>i. instance_step i s = None \<longrightarrow> (\<exists>j. in_mutex s = Some j \<and> instance_step j s \<noteq> None))"
proof -
  have inv: "inst_inv s" using si.reachable_inv [OF _ assms] by simp
  have "\<exists>j. in_mutex s = Some j \<and> instance_step j s \<noteq> None" if "instance_step i s = None" for i
  proof -
    from that obtain j where j: "in_mutex s = Some j"
      by (cases "in_pc s i") (auto simp: instance_step_def split: if_splits)
    with inv have "in_pc s j \<in> {I_test2, I_unlock}" by (auto simp: inst_inv_def)
    with j show ?thesis by (auto simp: instance_step_def)
  qed
  with inv show ?thesis by (auto simp: inst_inv_def)
qed

theorem one_instance_witness:
  "\<exists>s. reachable inst_init inst_step s \<and> in_pc s 1 = I_lock \<and> in_pc s 0 = I_returned (Some 0) \<and> in_made s \<le> 1"
proof -
  let ?pc = "\<lambda>a b. (\<lambda>_ :: nat. I_test)(0 := a, 1 := b)"
  let ?st = "\<lambda>ins m n a b. \<lparr>in_instance = ins, in_mutex = m, in_made = n, in_pc = ?pc a b\<rparr>"
  let ?run = "[?st None None 0 I_lock I_test, ?st None None 0 I_lock I_lock,
    ?st None (Some 0) 0 I_test2 I_lock, ?st (Some 0) (Some 0) 1 I_unlock I_lock,
    ?st (Some 0) None 1 I_return I_lock, ?st (Some 0) None 1 (I_returned (Some 0)) I_lock]"
  have i: "reachable inst_init inst_step (?st None None 0 I_test I_test)"
    by (rule reach_init) (auto simp: inst_init_def)
  have step: "instance_step k s = Some t \<Longrightarrow> inst_step s t" for k s t by (auto simp: inst_step_def)
  have "is_run inst_step (?st None None 0 I_test I_test) ?run"
    by (simp, intro conjI; rule step [of 0] step [of 1];
      simp add: instance_step_def inst_goto_def fun_eq_iff fun_upd_def; fail)
  then have r: "reachable inst_init inst_step (last ?run)"
    by (rule reachable_run [OF i]) simp
  have p: "in_pc (last ?run) 0 = I_returned (Some 0)" "in_pc (last ?run) 1 = I_lock" by simp_all
  from one_instance [OF r] p r show ?thesis by (intro exI [of _ "last ?run"]) simp
qed

end
