(* ===== verification/Spec2Isabelle.thy ===== *)
theory Spec2Isabelle
  imports Buffer EventLoop Acceptor Connection_Props Shared_Loop
    Server_Drain Worker_Stop Chat AsyncLogging AsyncLog Logger Singleton
begin

text \<open>
  A verification library for NetSocket, an event-driven TCP server library in C++ with a small chat
  server on top of it (the sources under \<open>src/\<close>; paths below are relative to it).

  \<^bold>\<open>The program.\<close> A \<open>TcpServer\<close> owns an \<open>Acceptor\<close> on the main \<open>EventLoop\<close> and a pool of threads, each
  with a loop of its own. A loop waits in a \<open>Poller\<close> (epoll) for the descriptors of its \<open>Channel\<close>s,
  calls their callbacks, and then performs the functors that other threads have queued, waking it
  through an eventfd. An accepted descriptor becomes a \<open>Connection\<close>, which lives on one loop, reads
  into and writes from a \<open>Buffer\<close>, and is kept in the server's table until its removal. The chat
  server hands each message to a pool of worker threads, which send it back. Three loggers and a
  time stamp serve all of it.

  \<^bold>\<open>Theories and sources.\<close>
  \<^item> \<open>Net_Prelude\<close>: words, results (\<open>fault + 'a\<close>, where a fault is an exit, an exception or
    undefined behaviour made visible), reachable states of a step relation, the interface
    \<open>invariant_machine\<close> of a state machine with an invariant and \<open>settling_machine\<close> of one that
    comes to rest, decimal numbers.
  \<^item> \<open>Buffer\<close> (\<open>include/net/Buffer.h\<close>, \<open>src/net/Buffer.cc\<close>): a record of the vector and the two
    indices as 64-bit words. Every operation keeps \<open>Buffer_inv\<close>; the buffer refines a byte queue.
  \<^item> \<open>Channel\<close>, \<open>Poller\<close>, \<open>EventLoop\<close> (files of these names, \<open>Epollpoller\<close>, \<open>DefaultPoller\<close>): masks
    as 32-bit words; the interface \<open>channel_owner\<close> of whoever registers channels, interpreted by
    the poller and by the loop; the loop as a function of what its polls answer, over any program
    around it (\<open>loop_host\<close>); the wakeup protocol as the step relation \<open>loop_sys_step\<close>.
  \<^item> \<open>Sockets\<close>, \<open>Acceptor\<close> (\<open>InetAddress\<close>, \<open>Socket\<close>, \<open>Acceptor\<close>).
  \<^item> \<open>Connection\<close>, \<open>Connection_Props\<close> (\<open>src/net/Connection.cc\<close>, \<open>include/base/Callbacks.h\<close>): a
    connection with its loop, the bytes the kernel has taken and those accepted for sending; the
    user is a function from events to calls. \<open>conn_step\<close> has every call, handler and functor,
    \<open>conn_inv\<close> is its invariant.
  \<^item> \<open>Connection_Run\<close>: the connection inside the \<open>while\<close> of \<open>EventLoop::loop\<close>. The interface
    \<open>sound_host\<close> says what a program must keep for the loop to keep it; the connection provides it.
    \<open>Connection_Apart\<close>: what a connection does leaves the others on its loop alone (the interface
    \<open>conn_frame\<close> of what survives all its operations). \<open>Shared_Loop\<close>: any number of connections on
    one loop, with one queue of functors that belong to them, from construction to deletion
    (\<open>shared_step\<close>), and inside the \<open>while\<close> of the loop (\<open>shared_host\<close>). \<open>Connection_Late\<close>: what
    holds of a connection after a shutdown from another thread that was overtaken by its close.
  \<^item> \<open>Threads\<close> (\<open>Thread\<close>, \<open>CurrentThread\<close>), \<open>LoopThreads\<close> (\<open>EventLoopThread\<close>) and \<open>LoopPool\<close>
    (\<open>EventLoopThreadPool\<close>): the life of a thread object, the start and end of a loop thread as a
    step relation of the owner and the thread, and the pool's round robin.
  \<^item> \<open>Server\<close> (\<open>TcpServer\<close>): the server with the queues of all loops and the calls made on each
    connection; \<open>net_step\<close> interleaves accepting, the functors of all loops and closings by peers.
    The operations of a connection are parameters here: each call is recorded and may return or
    fail in any way that \<open>Connection\<close> allows. \<open>Server_Drain\<close>: the functors come to an end.
  \<^item> \<open>WorkerPool\<close> (\<open>WorkerThreadPool\<close>) and \<open>Chat\<close> (\<open>src/main.cpp\<close>): the workers with their mutex
    and condition variable step by step, and the chat server as a user of \<open>Connection\<close>.
    \<open>Worker_Stop\<close>: when the pool's destructor returns, and in how many steps.
  \<^item> \<open>LogBuffers\<close>, \<open>AsyncLogging\<close> (\<open>LogBuffer\<close>, \<open>AsyncLog2\<close>), \<open>AsyncLog\<close>, \<open>Logger\<close>, \<open>Timestamps\<close> and
    \<open>Singleton\<close> (the double-checked \<open>instance()\<close> of the two queueing loggers).

  \<^bold>\<open>What is proved.\<close> Type and state invariants of every component with a state, by rule induction
  over its step relation; what each operation does on each branch, failures included; for
  connections, that the bytes on the wire and in the output buffer are those accepted, in order,
  that pending output is watched, drains, and is drained before the write side is shut down; for
  loops, that no wakeup is lost and that functors run in order and once; for connections that share a
  loop with each other and with sends and shutdowns of other threads, which of these promises stay;
  for the server, that a connection is established before it is closed and closed before it is
  destroyed, that names are unique, and that the functors end with every closed connection asked to
  be destroyed as often as it was closed; for workers and loggers, that nothing queued is lost,
  reordered or done twice before destruction, that the queueing logger's destructor returns, and
  when that of the workers does. The theorems of kind error state where the code fails to keep its
  intent, at a reachable state.

  \<^bold>\<open>Parameters.\<close> The kernel's calls (\<open>epoll_ctl\<close>, \<open>epoll_wait\<close>, \<open>readv\<close>, \<open>write\<close>, eventfd, socket
  calls), \<open>inet_addr\<close>, \<open>time\<close> and \<open>localtime\<close> are parameters; what is relied on is a hypothesis such
  as \<open>epoll_ctl_doc\<close>, \<open>readv_doc\<close>, \<open>kernel_doc\<close> or \<open>efd_write_doc\<close>, each with an instance that the
  witnesses use. No fuel is needed: loops are structural, over the list of poll answers, or step
  relations.

  \<^bold>\<open>Abstractions.\<close> Threads are interleaved at the steps their relations give, under sequential
  consistency (the unlocked read in \<open>instance()\<close>, a data race in C++, included). A block under a
  mutex is one step, except in \<open>WorkerPool\<close>, \<open>AsyncLog\<close> and \<open>Singleton\<close>, where lock, wait and
  notification are steps. In \<open>conn_step\<close> the test of a connection's state and the act that follows
  it in \<open>send\<close> and \<open>shutdown\<close> are one step; \<open>Shared_Loop\<close> also lets the functor of a send, the
  store of \<open>kDisconnecting\<close> and the functor of a shutdown come long after the test. In the loops of
  \<open>conn_host\<close> and \<open>shared_host\<close> one function gives the kernel's answers for the whole run, and the
  close callback is the user's; the step relations take the kernel anew at every step. The file of
  \<open>AsyncLogging\<close> is open from the start. Sizes of the array of epoll events are natural numbers.
  \<open>SIGPIPE\<close> is taken to be ignored, though no file of the program arranges this: otherwise a write
  to a closed peer ends the process. Output of the log macros inside other components is left out.
  In \<open>Server\<close>, the operations of a connection are recorded with their outcome; their effect is that
  of \<open>Connection\<close>.

  \<^bold>\<open>Not modelled.\<close> \<open>EventLoop::hasChannel\<close> and
  \<open>handleTimer\<close>, which are declared and not defined; members that are never read (\<open>reading_\<close>,
  \<open>context_\<close>); \<open>noncopyable\<close>; the \<open>AsyLOG\<close> macros, which put a number between string literals and
  compile in no use; the compiler probes that CMake generated under \<open>build/\<close>.
\<close>

end
